(* ===== verification/Prelude.thy ===== *)
theory Prelude
  imports Main "HOL-Library.Word"
begin

text \<open>
  Shared vocabulary of the wordOS development: the machine integers of the i686 target, byte
  memory, the faults a kernel routine can end in, and the generic lemmas about 32-bit addresses
  that the components share.

  Addresses are \<open>32 word\<close>s, so \<open>+\<close> wraps exactly as pointer arithmetic does on the target.
  A byte range \<open>[d, d + n)\<close> is described by the unsigned distance \<open>unat (a - d) < n\<close>, which
  stays correct when the range wraps around the top of the address space.
\<close>

unbundle bit_operations_syntax

type_synonym u8 = "8 word"
type_synonym u16 = "16 word"
type_synonym u32 = "32 word"
type_synonym u64 = "64 word"

text \<open>Byte-addressed memory: what a \<open>char *\<close> or \<open>uint8_t *\<close> can read.\<close>

type_synonym mem = "u32 \<Rightarrow> u8"

text \<open>
  How a routine can stop without returning: a CPU page fault at an address (a NULL dereference is a
  fault at a small address, since page 0 is unmapped) or a call of \<open>panic\<close>, which halts the CPU.
\<close>

datatype fault =
    PageFault u32
  | Panic string

type_synonym 'a result = "fault + 'a"

text \<open>A routine whose loop may not end: \<open>None\<close> is "does not return".\<close>

type_synonym 'a outcome = "'a result option"

definition bind_out :: "'a outcome \<Rightarrow> ('a \<Rightarrow> 'b outcome) \<Rightarrow> 'b outcome" where
  "bind_out x f = Option.bind x (\<lambda>r. case r of Inl e \<Rightarrow> Some (Inl e) | Inr a \<Rightarrow> f a)"

named_theorems addr_simps \<open>arithmetic of 32-bit addresses and unsigned distances\<close>
named_theorems bits_simps \<open>bit tests written with AND and shifts\<close>

section \<open>Outcomes\<close>

lemma bind_out_simps [simp]:
  "bind_out None f = None"
  "bind_out (Some (Inl e)) f = Some (Inl e)"
  "bind_out (Some (Inr a)) f = f a"
  by (simp_all add: bind_out_def)

lemma bind_out_Inr:
  "bind_out x f = Some (Inr b) \<longleftrightarrow> (\<exists>a. x = Some (Inr a) \<and> f a = Some (Inr b))"
  by (cases x; cases "the x") auto

lemma bind_out_mono [partial_function_mono]:
  assumes "mono_option f" and "\<And>y. mono_option (g y)"
  shows "mono_option (\<lambda>h. bind_out (f h) (\<lambda>y. g y h))"
proof -
  have "mono_option (\<lambda>h. case r of Inl e \<Rightarrow> Some (Inl e) | Inr a \<Rightarrow> g a h)" for r
    using assms(2) by (cases r) (simp_all add: partial_function_mono)
  then show ?thesis
    unfolding bind_out_def using assms(1) by (intro partial_function_mono)
qed

section \<open>Addresses\<close>

lemma unat_of_nat_u32 [addr_simps]: "i < 2 ^ 32 \<Longrightarrow> unat (of_nat i :: u32) = i"
  by (simp add: unat_of_nat take_bit_eq_mod)

lemma unat_lt_u32: "unat (a :: u32) < 2 ^ 32"
  by (rule order_less_le_trans [OF unsigned_less]) simp

lemma unat_lt_u8: "unat (a :: u8) < 256"
  by (rule order_less_le_trans [OF unsigned_less]) simp

lemma unat_lt_u16: "unat (a :: u16) < 65536"
  by (rule order_less_le_trans [OF unsigned_less]) simp

text \<open>A byte counter used as an index or an offset.\<close>

lemma byte_index:
  "i < 256 \<Longrightarrow> unat (of_nat i :: u8) = i"
  "i < 256 \<Longrightarrow> ucast (of_nat i :: u8) = (of_nat i :: u32)"
proof -
  assume i: "i < 256"
  then show u: "unat (of_nat i :: u8) = i"
    by (simp add: unat_of_nat take_bit_nat_eq_self)
  have "unat (ucast (of_nat i :: u8) :: u32) = i"
    using i u by (simp add: unsigned_ucast_eq take_bit_nat_eq_self)
  moreover have "of_nat (unat (ucast (of_nat i :: u8) :: u32)) = (ucast (of_nat i :: u8) :: u32)"
    by simp
  ultimately show "ucast (of_nat i :: u8) = (of_nat i :: u32)"
    by argo
qed

lemma add_dist [addr_simps]: "d + of_nat (unat (a - d)) = (a :: u32)"
  by simp

lemma dist_add [addr_simps]: "i < 2 ^ 32 \<Longrightarrow> unat ((d + of_nat i) - d :: u32) = i"
  by (simp add: unat_of_nat_u32)

lemma of_nat_u32_inj:
  "i < 2 ^ 32 \<Longrightarrow> j < 2 ^ 32 \<Longrightarrow> (of_nat i :: u32) = of_nat j \<longleftrightarrow> i = j"
  by (metis unat_of_nat_u32)

lemma dist_add_right:
  "unat (a - d :: u32) + k < 2 ^ 32 \<Longrightarrow> unat (a + of_nat k - d) = unat (a - d) + k"
proof -
  assume less: "unat (a - d) + k < 2 ^ 32"
  have "a + of_nat k - d = of_nat (unat (a - d) + k)"
    by (simp add: algebra_simps)
  then show ?thesis
    using less unat_of_nat_u32 by metis
qed

section \<open>Bit tests\<close>

lemma and_mask_bit [bits_simps]: "(w AND 2 ^ j = 0) \<longleftrightarrow> \<not> bit (w :: 'a::len word) j"
proof
  assume eq: "w AND 2 ^ j = 0"
  have "bit (w AND 2 ^ j) j = False"
    by (simp only: eq bit_0_eq bot_apply bot_bool_def)
  then show "\<not> bit w j"
    by (auto simp: bit_simps dest: bit_imp_le_length)
next
  assume "\<not> bit w j"
  then show "w AND 2 ^ j = 0"
    by (intro bit_word_eqI) (auto simp: bit_simps)
qed

lemma bit_or_mask [bits_simps]:
  "bit (w OR 2 ^ j :: 'a::len word) k \<longleftrightarrow> bit w k \<or> (k = j \<and> j < LENGTH('a))"
  by (auto simp: bit_simps)

lemma bit_and_not_mask [bits_simps]:
  "bit (w AND NOT (2 ^ j) :: 'a::len word) k \<longleftrightarrow> bit w k \<and> k \<noteq> j"
  by (auto simp: bit_simps dest: bit_imp_le_length)

text \<open>
  The masks of the source as numerals. The simplifier reduces a bit of a word numeral to a bit of
  the same integer numeral, so the facts are about integers.
\<close>

lemma bit_int_mask: "(m :: int) = 2 ^ k - 1 \<Longrightarrow> bit m n \<longleftrightarrow> n < k"
  by (simp only: bit_mask_iff flip: mask_eq_exp_minus_1) simp

lemma bit_masks [bits_simps]:
  "bit (3 :: int) n \<longleftrightarrow> n < 2" "bit (7 :: int) n \<longleftrightarrow> n < 3" "bit (15 :: int) n \<longleftrightarrow> n < 4" "bit (31 :: int) n \<longleftrightarrow> n < 5" "bit (127 :: int) n \<longleftrightarrow> n < 7"
  "bit (255 :: int) n \<longleftrightarrow> n < 8" "bit (511 :: int) n \<longleftrightarrow> n < 9" "bit (1023 :: int) n \<longleftrightarrow> n < 10"
  "bit (4095 :: int) n \<longleftrightarrow> n < 12" "bit (65535 :: int) n \<longleftrightarrow> n < 16" "bit (1048575 :: int) n \<longleftrightarrow> n < 20"
  "bit (4294967295 :: int) n \<longleftrightarrow> n < 32"
  by (rule bit_int_mask, simp)+

lemma bit_high_nibble [bits_simps]: "bit (240 :: int) n \<longleftrightarrow> 4 \<le> n \<and> n < 8"
proof -
  have "(240 :: int) = push_bit 4 15"
    by (simp add: push_bit_eq_mult)
  then show ?thesis
    by (simp only: bit_push_bit_iff bits_simps) auto
qed

section \<open>Alignment\<close>

text \<open>Clearing the low \<open>n\<close> bits rounds down to a multiple of \<open>2 ^ n\<close>.\<close>

lemma and_not_mask_push: "w AND NOT (mask n) = push_bit n (drop_bit n (w :: 'a::len word))"
  by (rule bit_word_eqI) (auto simp: bit_simps dest: bit_imp_le_length)

lemma unat_align_down: "unat (w AND NOT (mask n) :: 'a::len word) = unat w div 2 ^ n * 2 ^ n"
proof -
  have eq: "w AND NOT (mask n) = w - take_bit n w"
    by (metis add_diff_cancel_right' and_not_mask_push bits_ident)
  have take: "unat (take_bit n w) = unat w mod 2 ^ n"
    by (simp only: unsigned_take_bit_eq) (simp add: take_bit_eq_mod)
  have "take_bit n w \<le> w"
    by (simp add: word_le_nat_alt take)
  then have "unat (w - take_bit n w) = unat w - unat w mod 2 ^ n"
    by (simp add: unat_sub_if' word_le_nat_alt take)
  then show ?thesis
    by (simp add: eq minus_mod_eq_div_mult)
qed

lemma unat_align_up:
  assumes "unat w + (2 ^ n - 1) < 2 ^ LENGTH('a)" and "n < LENGTH('a)"
  shows "unat ((w + mask n) AND NOT (mask n) :: 'a::len word) = (unat w + (2 ^ n - 1)) div 2 ^ n * 2 ^ n"
proof -
  have "unat (mask n :: 'a word) = mask n"
    using assms(2) unsigned_take_bit_eq [of n "- 1 :: 'a word"]
    by (simp add: unsigned_minus_1_eq_mask take_bit_of_mask min_def)
  then have "unat (mask n :: 'a word) = 2 ^ n - 1"
    by (simp add: mask_eq_exp_minus_1)
  then have "unat (w + mask n) = unat w + (2 ^ n - 1)"
    using assms(1) by (simp add: unat_plus_if')
  then show ?thesis
    by (simp add: unat_align_down)
qed

lemma round_up_bounds:
  fixes n k :: nat
  assumes "0 < k"
  shows "n \<le> (n + (k - 1)) div k * k" and "(n + (k - 1)) div k * k \<le> n + (k - 1)"
proof -
  have "(n + (k - 1)) mod k \<le> k - 1"
    using assms mod_less_divisor [of k "n + (k - 1)"] by linarith
  then show "n \<le> (n + (k - 1)) div k * k" and "(n + (k - 1)) div k * k \<le> n + (k - 1)"
    by (simp_all add: minus_mod_eq_div_mult [symmetric])
qed

lemma round_up_add:
  fixes m k q :: nat
  assumes "0 < k"
  shows "(m + q * k + (k - 1)) div k * k = (m + (k - 1)) div k * k + q * k"
proof -
  have "m + q * k + (k - 1) = m + (k - 1) + q * k"
    by simp
  then have "(m + q * k + (k - 1)) div k = (m + (k - 1)) div k + q"
    using assms by (metis div_mult_self1 add.commute less_not_refl)
  then show ?thesis
    by (simp only: add_mult_distrib)
qed

end
