(* ===== verification/Descriptors.thy ===== *)
theory Descriptors
  imports Prelude
begin

text \<open>
  The descriptor tables of \<open>kernel/gdt.c\<close> and \<open>kernel/idt.c\<close>: segment and gate descriptors as the
  packed structs of the headers, the routines that fill them in, and the CPU's reading of them
  (the decoding functions), against which the encoding is checked.
\<close>

section \<open>The global descriptor table\<close>

record gdt_entry =
  limit_low :: u16
  base_low :: u16
  base_mid :: u8
  access :: u8
  gran :: u8
  base_high :: u8

definition null_gdt_entry :: gdt_entry where
  "null_gdt_entry = \<lparr>limit_low = 0, base_low = 0, base_mid = 0, access = 0, gran = 0, base_high = 0\<rparr>"

definition gdt_entry_of :: "u32 \<Rightarrow> u32 \<Rightarrow> u8 \<Rightarrow> u8 \<Rightarrow> gdt_entry" where
  "gdt_entry_of bas limit acc gr =
     \<lparr>limit_low = ucast (limit AND 0xFFFF), base_low = ucast (bas AND 0xFFFF),
      base_mid = ucast (drop_bit 16 bas AND 0xFF), access = acc,
      gran = ucast (drop_bit 16 limit AND 0x0F) OR (gr AND 0xF0),
      base_high = ucast (drop_bit 24 bas AND 0xFF)\<rparr>"

text \<open>\<open>desc\<close> has five entries; the only caller writes entries 0 to 4.\<close>

definition gdt_set_gate :: "nat \<Rightarrow> u32 \<Rightarrow> u32 \<Rightarrow> u8 \<Rightarrow> u8 \<Rightarrow> gdt_entry list \<Rightarrow> gdt_entry list" where
  "gdt_set_gate num bas limit acc gr desc = desc[num := gdt_entry_of bas limit acc gr]"

record gdtr =
  gdtr_limit :: u16
  gdtr_base :: u32

definition gdt_install :: "u32 \<Rightarrow> gdt_entry list \<Rightarrow> gdtr \<times> gdt_entry list" where
  "gdt_install desc_addr desc =
     (\<lparr>gdtr_limit = 8 * 5 - 1, gdtr_base = desc_addr\<rparr>,
      gdt_set_gate 4 0 0xFFFFFFFF 0xF2 0xCF (gdt_set_gate 3 0 0xFFFFFFFF 0xFA 0xCF
        (gdt_set_gate 2 0 0xFFFFFFFF 0x92 0xCF (gdt_set_gate 1 0 0xFFFFFFFF 0x9A 0xCF
          (gdt_set_gate 0 0 0 0 0 desc)))))"

text \<open>How the CPU reads a segment descriptor.\<close>

definition seg_base :: "gdt_entry \<Rightarrow> u32" where
  "seg_base e = ucast (base_low e) OR push_bit 16 (ucast (base_mid e)) OR push_bit 24 (ucast (base_high e))"

definition seg_limit :: "gdt_entry \<Rightarrow> u32" where
  "seg_limit e = ucast (limit_low e) OR push_bit 16 (ucast (gran e AND 0x0F))"

definition seg_flags :: "gdt_entry \<Rightarrow> u8" where
  "seg_flags e = gran e AND 0xF0"

lemma seg_base_entry: "seg_base (gdt_entry_of bas limit acc gr) = bas"
proof (rule bit_word_eqI)
  fix n assume "n < LENGTH(32)"
  then show "bit (seg_base (gdt_entry_of bas limit acc gr)) n = bit bas n"
    by (cases "n < 24") (auto simp: seg_base_def gdt_entry_of_def bit_simps bits_simps)
qed

lemma seg_limit_entry: "seg_limit (gdt_entry_of bas limit acc gr) = limit AND 0xFFFFF"
  by (rule bit_word_eqI) (auto simp: seg_limit_def gdt_entry_of_def bit_simps bits_simps)

lemma seg_flags_entry: "seg_flags (gdt_entry_of bas limit acc gr) = gr AND 0xF0"
  by (rule bit_word_eqI) (auto simp: seg_flags_def gdt_entry_of_def bit_simps bits_simps)

section \<open>The interrupt descriptor table\<close>

record idt_entry =
  address_low :: u16
  selector :: u16
  reserved :: u8
  flags :: u8
  address_high :: u16

type_synonym idt = "u8 \<Rightarrow> idt_entry"

definition null_idt_entry :: idt_entry where
  "null_idt_entry = \<lparr>address_low = 0, selector = 0, reserved = 0, flags = 0, address_high = 0\<rparr>"

definition idt_entry_of :: "u32 \<Rightarrow> u8 \<Rightarrow> idt_entry" where
  "idt_entry_of bas fl = \<lparr>address_low = ucast (bas AND 0xFFFF), selector = 8, reserved = 0, flags = fl,
     address_high = ucast (drop_bit 16 bas AND 0xFFFF)\<rparr>"

definition idt_set_gate :: "u8 \<Rightarrow> u32 \<Rightarrow> u8 \<Rightarrow> idt \<Rightarrow> idt" where
  "idt_set_gate num bas fl t = t(num := idt_entry_of bas fl)"

text \<open>
  \<open>memset(&idt, 0, sizeof(idt_entry) * 256 - 1)\<close> clears all but the last byte of the table, the
  upper half of the last entry's \<open>address_high\<close>.
\<close>

definition clear_idt :: "idt \<Rightarrow> idt" where
  "clear_idt t v = (if v = 255 then null_idt_entry\<lparr>address_high := address_high (t v) AND 0xFF00\<rparr> else null_idt_entry)"

text \<open>
  The gates \<open>init_idt\<close> installs, in its order; \<open>isr\<close> and \<open>irq\<close> are the addresses of the assembly
  stubs \<open>isr_stub_n\<close> and \<open>irq_stub_n\<close>.
\<close>

definition idt_gates :: "(nat \<Rightarrow> u32) \<Rightarrow> (nat \<Rightarrow> u32) \<Rightarrow> (u8 \<times> u32 \<times> u8) list" where
  "idt_gates isr irq = map (\<lambda>i. (of_nat i, isr i, 0x80 OR 0x0E)) [0..<32] @
     [(0x30, irq 48, 0x80 OR 0x0F), (0x31, irq 49, 0x80 OR 0x0E), (0x32, irq 50, 0x80 OR 0x0F),
      (0x33, irq 51, 0x80 OR 0x0F), (0x80, irq 128, 0x80 OR 0x0F)]"

definition init_idt :: "(nat \<Rightarrow> u32) \<Rightarrow> (nat \<Rightarrow> u32) \<Rightarrow> idt \<Rightarrow> idt" where
  "init_idt isr irq t = fold (\<lambda>(n, b, f). idt_set_gate n b f) (idt_gates isr irq) (clear_idt t)"

text \<open>How the CPU reads a gate.\<close>

definition gate_offset :: "idt_entry \<Rightarrow> u32" where
  "gate_offset e = ucast (address_low e) OR push_bit 16 (ucast (address_high e))"

definition gate_present :: "idt_entry \<Rightarrow> bool" where
  "gate_present e \<longleftrightarrow> bit (flags e) 7"

lemma gate_offset_entry: "gate_offset (idt_entry_of bas fl) = bas"
  by (rule bit_word_eqI) (auto simp: gate_offset_def idt_entry_of_def bit_simps bits_simps)

lemma fold_set_gate:
  "fold (\<lambda>(n, b, f). idt_set_gate n b f) gs t v =
     (case map_of (rev gs) v of None \<Rightarrow> t v | Some (b, f) \<Rightarrow> idt_entry_of b f)"
  by (induction gs arbitrary: t) (auto simp: idt_set_gate_def map_add_def split: option.splits)

lemma map_of_vectors:
  "n \<le> 256 \<Longrightarrow> map_of (rev (map (\<lambda>i. (of_nat i :: u8, g i)) [0..<n])) v =
     (if unat v < n then Some (g (unat v)) else None)"
proof (induction n)
  case (Suc n)
  have "(of_nat n = v) = (n = unat v)"
  proof
    assume "of_nat n = v"
    then show "n = unat v"
      using Suc.prems by (auto simp: unsigned_of_nat take_bit_eq_mod)
  qed simp
  with Suc show ?case by (auto simp: less_Suc_eq)
qed simp

lemma init_idt_at:
  "init_idt isr irq t v =
     (if v = 0x80 then idt_entry_of (irq 128) 0x8F else if v = 0x33 then idt_entry_of (irq 51) 0x8F
      else if v = 0x32 then idt_entry_of (irq 50) 0x8F else if v = 0x31 then idt_entry_of (irq 49) 0x8E
      else if v = 0x30 then idt_entry_of (irq 48) 0x8F
      else if unat v < 32 then idt_entry_of (isr (unat v)) 0x8E else clear_idt t v)"
  unfolding init_idt_def fold_set_gate idt_gates_def rev_append map_of_append map_add_def
  using map_of_vectors [of 32 "\<lambda>i. (isr i, 0x8E :: u8)" v] by simp

section \<open>Properties\<close>

text \<open>
  C33. What \<open>gdt_set_gate\<close> writes is what the CPU reads back: the full base address, the low 20
  bits of the limit and the flag nibble of the granularity byte, for all arguments.
\<close>

theorem gdt_roundtrip:
  "seg_base (gdt_entry_of bas limit acc gr) = bas \<and>
   seg_limit (gdt_entry_of bas limit acc gr) = limit AND 0xFFFFF \<and>
   seg_flags (gdt_entry_of bas limit acc gr) = gr AND 0xF0 \<and>
   access (gdt_entry_of bas limit acc gr) = acc"
  by (simp add: seg_base_entry seg_limit_entry seg_flags_entry) (simp add: gdt_entry_of_def)

text \<open>
  After \<open>init_idt\<close> the present gates are exactly the exception vectors 0 to 31, the vectors 0x30
  to 0x33 and 0x80, whatever the table held before; an exception gate is a 32-bit interrupt gate of
  the kernel code segment whose offset is the stub of its own vector.
\<close>

theorem idt_installed:
  "(gate_present (init_idt isr irq t v) \<longleftrightarrow> unat v < 32 \<or> v \<in> {0x30, 0x31, 0x32, 0x33, 0x80}) \<and>
   (unat v < 32 \<longrightarrow> gate_offset (init_idt isr irq t v) = isr (unat v) \<and> flags (init_idt isr irq t v) = 0x8E \<and>
      selector (init_idt isr irq t v) = 8) \<and>
   (v \<in> {0x30, 0x31, 0x32, 0x33, 0x80} \<longrightarrow> gate_offset (init_idt isr irq t v) = irq (unat v))"
proof -
  have bits: "bit (0x8F :: u8) 7" "bit (0x8E :: u8) 7"
    by (simp_all add: bit_numeral_rec)
  show ?thesis
    unfolding init_idt_at
    by (auto simp: gate_present_def clear_idt_def null_idt_entry_def gate_offset_entry)
      (auto simp: idt_entry_of_def bits gate_present_def)
qed

lemma idt_installed_witness:
  "gate_present (init_idt (\<lambda>n. 0x2000 + of_nat n) (\<lambda>n. 0x3000 + of_nat n) (\<lambda>_. null_idt_entry) 14) \<and>
   gate_offset (init_idt (\<lambda>n. 0x2000 + of_nat n) (\<lambda>n. 0x3000 + of_nat n) (\<lambda>_. null_idt_entry) 14) = 0x200E \<and>
   gate_offset (init_idt (\<lambda>n. 0x2000 + of_nat n) (\<lambda>n. 0x3000 + of_nat n) (\<lambda>_. null_idt_entry) 0x32) = 0x3032"
  using idt_installed [of "\<lambda>n. 0x2000 + of_nat n" "\<lambda>n. 0x3000 + of_nat n" "\<lambda>_. null_idt_entry" 14]
    idt_installed [of "\<lambda>n. 0x2000 + of_nat n" "\<lambda>n. 0x3000 + of_nat n" "\<lambda>_. null_idt_entry" "0x32"]
  by simp

end
