(* ===== verification/Kstring.thy ===== *)
theory Kstring
  imports Prelude
begin

text \<open>
  The freestanding string routines of \<open>kernel/memory/string.c\<close>, over byte memory. A routine that
  writes memory returns the new memory; one that only reads returns its value. \<open>len--\<close> loops are
  recursions on the remaining count.
\<close>

section \<open>The routines\<close>

text \<open>\<open>while (len--) *d++ = *s++;\<close>\<close>

fun memcpy_loop :: "nat \<Rightarrow> u32 \<Rightarrow> u32 \<Rightarrow> mem \<Rightarrow> mem" where
  "memcpy_loop 0 d s m = m"
| "memcpy_loop (Suc n) d s m = memcpy_loop n (d + 1) (s + 1) (m(d := m s))"

definition memcpy :: "u32 \<Rightarrow> u32 \<Rightarrow> u32 \<Rightarrow> mem \<Rightarrow> u32 \<times> mem" where
  "memcpy dest src len m = (dest, memcpy_loop (unat len) dest src m)"

definition memmove :: "u32 \<Rightarrow> u32 \<Rightarrow> u32 \<Rightarrow> mem \<Rightarrow> u32 \<times> mem" where
  "memmove s1 s2 n m = memcpy s1 s2 n m"

fun memset_loop :: "nat \<Rightarrow> u32 \<Rightarrow> u8 \<Rightarrow> mem \<Rightarrow> mem" where
  "memset_loop 0 p c m = m"
| "memset_loop (Suc n) p c m = memset_loop n (p + 1) c (m(p := c))"

text \<open>The \<open>int\<close> argument is stored through a \<open>uint8_t *\<close>: its low byte is what lands.\<close>

definition memset :: "u32 \<Rightarrow> u32 \<Rightarrow> u32 \<Rightarrow> mem \<Rightarrow> u32 \<times> mem" where
  "memset dest c n m = (dest, memset_loop (unat n) dest (ucast c) m)"

fun memcmp_loop :: "nat \<Rightarrow> u32 \<Rightarrow> u32 \<Rightarrow> mem \<Rightarrow> int" where
  "memcmp_loop 0 p1 p2 m = 0"
| "memcmp_loop (Suc n) p1 p2 m =
     (if m p1 = m p2 then memcmp_loop n (p1 + 1) (p2 + 1) m else uint (m p1) - uint (m p2))"

definition memcmp :: "u32 \<Rightarrow> u32 \<Rightarrow> u32 \<Rightarrow> mem \<Rightarrow> int" where
  "memcmp p1 p2 n m = (if p1 = p2 then 0 else memcmp_loop (unat n) p1 p2 m)"

text \<open>\<open>while (*ptr) ptr++;\<close> stops only at a zero byte.\<close>

partial_function (option) strlen_loop :: "u32 \<Rightarrow> mem \<Rightarrow> u32 option" where
  "strlen_loop ptr m = (if m ptr = 0 then Some ptr else strlen_loop (ptr + 1) m)"

declare strlen_loop.simps [code]

definition strlen :: "u32 \<Rightarrow> mem \<Rightarrow> u32 option" where
  "strlen s m = map_option (\<lambda>ptr. ptr - s) (strlen_loop s m)"

fun strcmp_loop :: "nat \<Rightarrow> u32 \<Rightarrow> u32 \<Rightarrow> mem \<Rightarrow> u8" where
  "strcmp_loop 0 s1 s2 m = 1"
| "strcmp_loop (Suc n) s1 s2 m = (if m s1 \<noteq> m s2 then 0 else strcmp_loop n (s1 + 1) (s2 + 1) m)"

definition strcmp :: "u32 \<Rightarrow> u32 \<Rightarrow> u32 \<Rightarrow> mem \<Rightarrow> u8" where
  "strcmp s1 s2 n m = strcmp_loop (unat n) s1 s2 m"

text \<open>
  The body of \<open>strncpy\<close> is \<open>src[n] = dst[n]; if (!src[n]) break;\<close>: both subscripts are the bound
  \<open>n\<close>, not the loop counter, and the assignment goes from \<open>dst\<close> to \<open>src\<close>. The first argument is
  the number of iterations left.
\<close>

fun strncpy_loop :: "nat \<Rightarrow> u32 \<Rightarrow> u32 \<Rightarrow> u32 \<Rightarrow> mem \<Rightarrow> mem" where
  "strncpy_loop 0 dst src n m = m"
| "strncpy_loop (Suc i) dst src n m =
     (let m' = m(src + n := m (dst + n))
      in if m' (src + n) = 0 then m' else strncpy_loop i dst src n m')"

definition strncpy :: "u32 \<Rightarrow> u32 \<Rightarrow> u32 \<Rightarrow> mem \<Rightarrow> mem" where
  "strncpy dst src n m = strncpy_loop (unat n) dst src n m"

section \<open>memcpy and memset\<close>

lemma memcpy_loop_snoc:
  "memcpy_loop (Suc n) d s m =
     (memcpy_loop n d s m)(d + of_nat n := memcpy_loop n d s m (s + of_nat n))"
proof (induction n arbitrary: d s m)
  case 0
  then show ?case by simp
next
  case (Suc n)
  have "memcpy_loop (Suc (Suc n)) d s m = memcpy_loop (Suc n) (d + 1) (s + 1) (m(d := m s))"
    by simp
  also have "\<dots> = (memcpy_loop n (d + 1) (s + 1) (m(d := m s)))
      (d + 1 + of_nat n := memcpy_loop n (d + 1) (s + 1) (m(d := m s)) (s + 1 + of_nat n))"
    by (rule Suc.IH)
  finally show ?case by (simp add: add.assoc)
qed

lemma memset_loop_snoc:
  "memset_loop (Suc n) p c m = (memset_loop n p c m)(p + of_nat n := c)"
proof (induction n arbitrary: p m)
  case 0
  then show ?case by simp
next
  case (Suc n)
  have "memset_loop (Suc (Suc n)) p c m = memset_loop (Suc n) (p + 1) c (m(p := c))"
    by simp
  also have "\<dots> = (memset_loop n (p + 1) c (m(p := c)))(p + 1 + of_nat n := c)"
    by (rule Suc.IH)
  finally show ?case by (simp add: add.assoc)
qed

lemma range_upd:
  assumes "n < 2 ^ 32"
  shows "(\<lambda>a. if unat (a - d :: u32) < n then f (unat (a - d)) else m a)(d + of_nat n := f n)
       = (\<lambda>a. if unat (a - d) < Suc n then f (unat (a - d)) else m a)"
proof
  fix a
  show "((\<lambda>a. if unat (a - d) < n then f (unat (a - d)) else m a)(d + of_nat n := f n)) a
      = (if unat (a - d) < Suc n then f (unat (a - d)) else m a)"
  proof (cases "a = d + of_nat n")
    case True
    with assms show ?thesis by (simp add: addr_simps)
  next
    case False
    then have "unat (a - d) \<noteq> n"
      by (metis add_dist)
    with False show ?thesis by auto
  qed
qed

lemma memset_loop_eq:
  "n \<le> 2 ^ 32 \<Longrightarrow> memset_loop n p c m = (\<lambda>a. if unat (a - p) < n then c else m a)"
proof (induction n)
  case 0
  then show ?case by simp
next
  case (Suc n)
  then show ?case
    using range_upd [of n p "\<lambda>_. c" m] by (simp add: memset_loop_snoc del: memset_loop.simps)
qed

text \<open>The source index that a forward copy really delivers at offset \<open>i\<close>.\<close>

definition copy_index :: "u32 \<Rightarrow> u32 \<Rightarrow> nat \<Rightarrow> nat" where
  "copy_index d s i = (if d = s then i else i mod unat (d - s))"

lemma copy_index_disjoint: "d = s \<or> n \<le> unat (d - s) \<Longrightarrow> i < n \<Longrightarrow> copy_index d s i = i"
  by (auto simp: copy_index_def)

lemma memcpy_loop_eq:
  "n \<le> 2 ^ 32 \<Longrightarrow> memcpy_loop n d s m =
     (\<lambda>a. if unat (a - d) < n then m (s + of_nat (copy_index d s (unat (a - d)))) else m a)"
proof (induction n)
  case 0
  then show ?case by simp
next
  case (Suc n)
  define m' where "m' = memcpy_loop n d s m"
  have m': "m' = (\<lambda>a. if unat (a - d) < n then m (s + of_nat (copy_index d s (unat (a - d)))) else m a)"
    using Suc by (simp add: m'_def)
  have read: "m' (s + of_nat n) = m (s + of_nat (copy_index d s n))"
  proof (cases "d = s")
    case True
    with Suc.prems show ?thesis by (simp add: m' copy_index_def addr_simps)
  next
    case False
    define k where "k = unat (d - s)"
    have k: "0 < k" "k < 2 ^ 32"
      using False unat_lt_u32 by (auto simp: k_def word_neq_0_conv unat_gt_0)
    have d: "d = s + of_nat k"
      by (simp add: k_def)
    show ?thesis
    proof (cases "n < k")
      case True
      have "s + of_nat n - d = of_nat (2 ^ 32 - (k - n))"
        using True k by (simp add: d of_nat_diff)
      then have "unat (s + of_nat n - d) = 2 ^ 32 - (k - n)"
        using True unat_of_nat_u32 [of "2 ^ 32 - (k - n)"] by simp
      then have "\<not> unat (s + of_nat n - d) < n"
        using True k by simp
      with True False show ?thesis by (simp add: m' copy_index_def k_def)
    next
      case False': False
      have "s + of_nat n - d = of_nat (n - k)"
        using False' by (simp add: d of_nat_diff)
      then have dist: "unat (s + of_nat n - d) = n - k"
        using Suc.prems k by (simp add: unat_of_nat_u32)
      have "(n - k) mod k = n mod k"
        using False' by (simp add: le_mod_geq)
      with dist False k False' show ?thesis by (simp add: m' copy_index_def k_def)
    qed
  qed
  have "memcpy_loop (Suc n) d s m = m'(d + of_nat n := m (s + of_nat (copy_index d s n)))"
    by (simp add: memcpy_loop_snoc m'_def [symmetric] read del: memcpy_loop.simps)
  then show ?case
    using range_upd [of n d "\<lambda>i. m (s + of_nat (copy_index d s i))" m] Suc.prems
    by (simp add: m')
qed

lemma memcpy_eq:
  "snd (memcpy d s len m) =
     (\<lambda>a. if unat (a - d) < unat len then m (s + of_nat (copy_index d s (unat (a - d)))) else m a)"
  using unat_lt_u32 [of len] by (simp add: memcpy_def memcpy_loop_eq)

lemma memset_eq:
  "snd (memset d c n m) = (\<lambda>a. if unat (a - d) < unat n then ucast c else m a)"
  using unat_lt_u32 [of n] by (simp add: memset_def memset_loop_eq)

text \<open>What a caller of \<open>memcpy\<close> relies on: disjoint, or destination below the source.\<close>

lemma memcpy_forward_safe:
  assumes "d = s \<or> unat len \<le> unat (d - s)" and "i < unat len"
  shows "snd (memcpy d s len m) (d + of_nat i) = m (s + of_nat i)"
proof -
  have "i < 2 ^ 32"
    using assms(2) unat_lt_u32 [of len] by simp
  then show ?thesis
    using assms by (simp add: memcpy_eq addr_simps copy_index_disjoint)
qed

section \<open>Comparison and length\<close>

lemma strcmp_loop_eq:
  "strcmp_loop n s1 s2 m = (if \<forall>i<n. m (s1 + of_nat i) = m (s2 + of_nat i) then 1 else 0)"
proof (induction n arbitrary: s1 s2)
  case 0
  then show ?case by simp
next
  case (Suc n)
  then show ?case by (simp add: All_less_Suc2 add.assoc)
qed

lemma memcmp_loop_zero:
  "memcmp_loop n p1 p2 m = 0 \<longleftrightarrow> (\<forall>i<n. m (p1 + of_nat i) = m (p2 + of_nat i))"
proof (induction n arbitrary: p1 p2)
  case 0
  then show ?case by simp
next
  case (Suc n)
  then show ?case by (auto simp: All_less_Suc2 add.assoc dest: word_uint_eqI)
qed

lemma memcmp_loop_first_difference:
  assumes "i < n" and "\<forall>j<i. m (p1 + of_nat j) = m (p2 + of_nat j)"
    and "m (p1 + of_nat i) \<noteq> m (p2 + of_nat i)"
  shows "memcmp_loop n p1 p2 m = uint (m (p1 + of_nat i)) - uint (m (p2 + of_nat i))"
  using assms
proof (induction n arbitrary: p1 p2 i)
  case 0
  then show ?case by simp
next
  case (Suc n)
  show ?case
  proof (cases i)
    case 0
    with Suc.prems show ?thesis by simp
  next
    case (Suc j)
    have "memcmp_loop n (p1 + 1) (p2 + 1) m =
        uint (m (p1 + 1 + of_nat j)) - uint (m (p2 + 1 + of_nat j))"
      using Suc.IH [of j "p1 + 1" "p2 + 1"] Suc.prems \<open>i = Suc j\<close>
      by (simp add: All_less_Suc2 add.assoc)
    with Suc.prems \<open>i = Suc j\<close> show ?thesis by (simp add: All_less_Suc2 add.assoc)
  qed
qed

lemma strlen_loop_found:
  "m (p + of_nat n) = 0 \<Longrightarrow> \<forall>i<n. m (p + of_nat i) \<noteq> 0 \<Longrightarrow> strlen_loop p m = Some (p + of_nat n)"
proof (induction n arbitrary: p)
  case 0
  then show ?case by (simp add: strlen_loop.simps)
next
  case (Suc n)
  then show ?case by (simp add: strlen_loop.simps [of p] All_less_Suc2 add.assoc)
qed

lemma strlen_loop_zero: "strlen_loop p m = Some q \<Longrightarrow> m q = 0"
  by (rule strlen_loop.raw_induct [where P = "\<lambda>p m q. m q = 0"]) (auto split: if_splits)

section \<open>strncpy\<close>

lemma strncpy_loop_idem:
  "m (src + n) = m (dst + n) \<Longrightarrow> strncpy_loop i dst src n m = m"
proof (induction i)
  case 0
  then show ?case by simp
next
  case (Suc i)
  then have "m(src + n := m (dst + n)) = m"
    by (metis fun_upd_triv)
  with Suc show ?case by (simp add: Let_def)
qed

lemma strncpy_loop_Suc:
  "strncpy_loop (Suc i) dst src n m = m(src + n := m (dst + n))"
proof -
  let ?m = "m(src + n := m (dst + n))"
  have "strncpy_loop i dst src n ?m = ?m"
    by (rule strncpy_loop_idem) simp
  then show ?thesis by (simp add: Let_def)
qed

section \<open>Properties\<close>

text \<open>
  The exact memory after \<open>memmove\<close> (which is \<open>memcpy\<close>): byte \<open>i\<close> of the destination is
  byte \<open>i\<close> of the source when the two ranges do not overlap forwards, and otherwise the first
  \<open>d - s\<close> source bytes repeated; every other byte is unchanged.
\<close>

theorem memmove_effect:
  "snd (memmove d s len m) =
     (\<lambda>a. if unat (a - d) < unat len
          then m (s + of_nat (if d = s then unat (a - d) else unat (a - d) mod unat (d - s)))
          else m a)"
  by (simp add: memmove_def memcpy_eq copy_index_def cong: if_cong)

text \<open>
  \<open>strncpy\<close> copies nothing into its destination: whatever the strings are, its only effect is
  to store the byte \<open>dst[n]\<close> into \<open>src[n]\<close>, one past the end of both buffers.
\<close>

theorem strncpy_effect:
  "strncpy dst src n m = (if n = 0 then m else m(src + n := m (dst + n)))"
proof (cases "n = 0")
  case False
  then obtain k where "unat n = Suc k"
    by (metis not0_implies_Suc unat_eq_zero)
  with False show ?thesis by (simp add: strncpy_def strncpy_loop_Suc del: strncpy_loop.simps)
qed (simp add: strncpy_def)

text \<open>
  \<open>strlen\<close> returns exactly when memory holds a zero byte, and then it returns the number of
  bytes before the first one (the offset is below \<open>2 ^ 32\<close>, so it does not wrap).
\<close>

theorem strlen_spec:
  "strlen s m = (if \<exists>a. m a = 0 then Some (of_nat (LEAST n. m (s + of_nat n) = 0)) else None)"
proof (cases "\<exists>a. m a = 0")
  case True
  then obtain a where "m (s + of_nat (unat (a - s))) = 0"
    by (auto simp: add_dist)
  then have least: "m (s + of_nat (LEAST n. m (s + of_nat n) = 0)) = 0"
    by (rule LeastI)
  moreover have "\<forall>i<(LEAST n. m (s + of_nat n) = 0). m (s + of_nat i) \<noteq> 0"
    using not_less_Least by blast
  ultimately show ?thesis
    using True strlen_loop_found by (simp add: strlen_def)
next
  case False
  then show ?thesis
    using strlen_loop_zero by (cases "strlen_loop s m") (auto simp: strlen_def)
qed

end
