(* ===== verification/Serial.thy ===== *)
theory Serial
  imports Kstring
begin

text \<open>
  The serial log of \<open>kernel/kernel.c\<close>: rendering of numbers, the formatter \<open>logf\<close> and the probe of the
  serial port. Output is the list of bytes written to the data port, in order.
\<close>

section \<open>Characters\<close>

definition ascii :: "string \<Rightarrow> u8 list" where
  "ascii s = map of_char s"

lemma ascii_simps [simp]: "ascii [] = []" "ascii (c # s) = of_char c # ascii s" "ascii (s @ t) = ascii s @ ascii t"
  by (simp_all add: ascii_def)

text \<open>\<open>log_to_serial\<close> on a string in memory writes its bytes up to the terminator.\<close>

definition cstring :: "u32 \<Rightarrow> mem \<Rightarrow> u8 list option" where
  "cstring p m = map_option (\<lambda>n. map (\<lambda>i. m (p + of_nat i)) [0..<unat n]) (strlen p m)"

section \<open>Digits\<close>

text \<open>
  The digit loops fill a 64-byte buffer from its start, least significant digit first; the buffer is
  then reversed in place. \<open>num\<close> is a \<open>uint32_t\<close>, so a larger argument is truncated.
\<close>

definition digit_char :: "u32 \<Rightarrow> u8" where
  "digit_char v = (if v < 10 then 48 + ucast v else 97 + ucast (v - 10))"

function digit_loop :: "u32 \<Rightarrow> u32 \<Rightarrow> nat \<Rightarrow> u8 list \<Rightarrow> nat \<times> u8 list" where
  "digit_loop b num i final =
     (if num = 0 \<or> b \<le> 1 then (i, final)
      else digit_loop b (num div b) (Suc i) (final[i := digit_char (num mod b)]))"
  by auto
termination
proof (relation "measure (\<lambda>(b, num, i, final). unat num)")
  fix b num :: u32 and i :: nat and final :: "u8 list"
  assume "\<not> (num = 0 \<or> b \<le> 1)"
  then have "0 < unat num" "1 < unat b"
    by (auto simp: word_le_nat_alt unat_gt_0)
  then show "((b, num div b, Suc i, final[i := digit_char (num mod b)]), b, num, i, final) \<in> measure (\<lambda>(b, num, i, final). unat num)"
    by (simp add: unat_div)
qed simp

declare digit_loop.simps [simp del]

text \<open>
  \<open>for (j = j0, k = k0; j <= k; j++, k--)\<close> swaps; \<open>k\<close> is unsigned, so it wraps below 0 and the loop
  then leaves the buffer, which is the result None.
\<close>

function reverse_loop :: "nat \<Rightarrow> u32 \<Rightarrow> u8 list \<Rightarrow> u8 list option" where
  "reverse_loop j k final =
     (if j \<le> unat k then
        (if j < length final \<and> unat k < length final
         then reverse_loop (Suc j) (k - 1) (final[j := final ! unat k, unat k := final ! j])
         else None)
      else Some final)"
  by auto
termination
  by (relation "measure (\<lambda>(j, k, final). length final - j)") auto

declare reverse_loop.simps [simp del]

text \<open>The string in a buffer: the bytes before the first zero.\<close>

definition buffer_string :: "u8 list \<Rightarrow> u8 list" where
  "buffer_string final = takeWhile (\<lambda>c. c \<noteq> 0) final"

definition log_integer_to_serial :: "u64 \<Rightarrow> u8 list \<Rightarrow> u8 list option" where
  "log_integer_to_serial number final =
     (if number < 10 then Some (buffer_string (final[0 := 48 + ucast number, 1 := 0]))
      else
        let (i, buf) = digit_loop 10 (ucast number) 0 final
        in map_option (\<lambda>buf'. buffer_string (buf'[i := 0])) (reverse_loop 0 (of_nat i - 1) buf))"

definition print_hex :: "u64 \<Rightarrow> u8 list \<Rightarrow> u8 list option" where
  "print_hex number final =
     (if number = 0 then Some (ascii ''0x0'')
      else
        let (i, buf) = digit_loop 16 (ucast number) 2 (final[0 := 48, 1 := 120])
        in map_option (\<lambda>buf'. buffer_string (buf'[i := 0])) (reverse_loop 2 (of_nat i - 1) buf))"

section \<open>The formatter\<close>

text \<open>
  The arguments are the words on the stack; \<open>va_arg(params, uint64_t)\<close> takes two of them. Running
  out of arguments, or out of the format string after a final \<open>%\<close>, is the result None. \<open>stack\<close> is
  the uninitialised content of the digit buffer.
\<close>

definition u64_of_words :: "u32 \<Rightarrow> u32 \<Rightarrow> u64" where
  "u64_of_words lo hi = ucast lo OR push_bit 32 (ucast hi)"

fun take32 :: "u32 list \<Rightarrow> (u32 \<times> u32 list) option" where
  "take32 (a # as) = Some (a, as)"
| "take32 [] = None"

fun take64 :: "u32 list \<Rightarrow> (u64 \<times> u32 list) option" where
  "take64 (lo # hi # as) = Some (u64_of_words lo hi, as)"
| "take64 as = None"

text \<open>One conversion: the bytes written, how many format characters to skip, the remaining arguments.\<close>

definition convert :: "bool \<Rightarrow> u8 \<Rightarrow> u32 list \<Rightarrow> mem \<Rightarrow> u8 list \<Rightarrow> (u8 list \<times> nat \<times> u32 list) option" where
  "convert long c as m stack =
     (let number = (if long then take64 as else map_option (\<lambda>(a, as'). (ucast a, as')) (take32 as))
      in if c = of_char CHR ''x'' then
           Option.bind number (\<lambda>(v, as'). map_option (\<lambda>out. (out, 0, as')) (print_hex v stack))
         else if c = of_char CHR ''%'' then Some ([c], 0, as)
         else if c = of_char CHR ''t'' then Some ([], 2, as)
         else if c = of_char CHR ''d'' then
           Option.bind number (\<lambda>(v, as'). map_option (\<lambda>out. (out, 0, as')) (log_integer_to_serial v stack))
         else if c = of_char CHR ''s'' then
           Option.bind (take32 as) (\<lambda>(p, as'). map_option (\<lambda>out. (out, 0, as')) (cstring p m))
         else if c = of_char CHR ''c'' then
           Option.bind (take32 as) (\<lambda>(v, as'). Some ([ucast v], 0, as'))
         else Some (ascii ''UNKNOWN OPTION %'' @ [c] @ ascii ''!\<newline>'', 0, as))"

function logf :: "u8 list \<Rightarrow> u32 list \<Rightarrow> mem \<Rightarrow> u8 list \<Rightarrow> u8 list option" where
  "logf [] as m stack = Some []"
| "logf (c # fmt) as m stack =
     (if c \<noteq> of_char CHR ''%'' then map_option (\<lambda>out. c # out) (logf fmt as m stack)
      else
        let (long, rest) = (if fmt \<noteq> [] \<and> hd fmt = of_char CHR ''l'' then (True, tl fmt) else (False, fmt))
        in if rest = [] then None
           else Option.bind (convert long (hd rest) as m stack)
             (\<lambda>(out, skip, as').
               if length (tl rest) < skip then None
               else map_option (\<lambda>out'. out @ out') (logf (drop skip (tl rest)) as' m stack)))"
  by pat_completeness auto
termination
  by (relation "measure (\<lambda>(fmt, as, m, stack). length fmt)")
    (auto split: if_splits simp: less_Suc_eq_le)

declare logf.simps [simp del]

section \<open>The serial port\<close>

text \<open>Port accesses: writes in order, and the value the loopback read returns as a parameter.\<close>

definition PORT :: u16 where
  "PORT = 0x3f8"

definition init_serial :: "u8 \<Rightarrow> (u16 \<times> u8) list \<times> int" where
  "init_serial loopback =
     (let setup = [(PORT + 1, 0x00), (PORT + 3, 0x80), (PORT + 0, 0x03), (PORT + 1, 0x00), (PORT + 3, 0x03),
                   (PORT + 2, 0xC7), (PORT + 4, 0x0B), (PORT + 4, 0x1E), (PORT + 0, 0xAE)]
      in if loopback \<noteq> 0xAE then (setup, 1) else (setup @ [(PORT + 4, 0x0F)], 0))"

definition panic :: "string \<Rightarrow> 'a result" where
  "panic reason = Inl (Panic reason)"

section \<open>Digits, abstractly\<close>

text \<open>Least significant digit first.\<close>

fun lsd :: "nat \<Rightarrow> nat \<Rightarrow> nat list" where
  "lsd b n = (if n = 0 \<or> b \<le> 1 then [] else n mod b # lsd b (n div b))"

declare lsd.simps [simp del]

definition value_of :: "nat \<Rightarrow> nat list \<Rightarrow> nat" where
  "value_of b ds = foldl (\<lambda>v d. b * v + d) 0 ds"

lemma lsd_0 [simp]: "lsd b 0 = []"
  by (simp add: lsd.simps)

lemma lsd_step: "0 < n \<Longrightarrow> 1 < b \<Longrightarrow> lsd b n = n mod b # lsd b (n div b)"
  by (subst lsd.simps) simp

lemma value_lsd: "1 < b \<Longrightarrow> value_of b (rev (lsd b n)) = n"
proof (induction b n rule: lsd.induct)
  case (1 b n)
  then show ?case
    by (cases "n = 0") (simp_all add: lsd_step value_of_def)
qed

lemma lsd_digits: "1 < b \<Longrightarrow> d \<in> set (lsd b n) \<Longrightarrow> d < b"
proof (induction b n rule: lsd.induct)
  case (1 b n)
  then show ?case
    by (cases "n = 0") (auto simp: lsd_step)
qed

lemma lsd_length: "1 < b \<Longrightarrow> n < b ^ k \<Longrightarrow> length (lsd b n) \<le> k"
proof (induction k arbitrary: n)
  case (Suc k)
  show ?case
  proof (cases "n = 0")
    case False
    have "n div b < b ^ k"
      using Suc.prems by (simp add: less_mult_imp_div_less mult.commute)
    with Suc False show ?thesis by (simp add: lsd_step)
  qed simp
qed simp

lemma lsd_lead: "1 < b \<Longrightarrow> 0 < n \<Longrightarrow> lsd b n \<noteq> [] \<and> last (lsd b n) \<noteq> 0"
proof (induction b n rule: lsd.induct)
  case (1 b n)
  show ?case
  proof (cases "n div b = 0")
    case True
    then have "n < b"
      using 1(2) by (simp add: div_eq_0_iff)
    with 1 show ?thesis by (simp add: lsd_step)
  next
    case False
    then show ?thesis using 1 by (auto simp: lsd_step)
  qed
qed

lemma lsd_two_digits: "1 < b \<Longrightarrow> b \<le> n \<Longrightarrow> 2 \<le> length (lsd b n)"
proof -
  assume b: "1 < b" "b \<le> n"
  then have "0 < n div b"
    by (simp add: div_greater_zero_iff)
  with b lsd_lead [of b "n div b"] show ?thesis
    by (simp add: lsd_step Suc_le_eq)
qed

definition dchar :: "nat \<Rightarrow> u8" where
  "dchar d = digit_char (of_nat d)"

text \<open>The buffer after the digit loop.\<close>

lemma digit_loop_eq:
  assumes "1 < unat b" "unat b \<le> 16" "i + length (lsd (unat b) (unat num)) \<le> length final"
  shows "digit_loop b num i final =
    (i + length (lsd (unat b) (unat num)),
     take i final @ map dchar (lsd (unat b) (unat num)) @ drop (i + length (lsd (unat b) (unat num))) final)"
  using assms
proof (induction b num i final rule: digit_loop.induct)
  case (1 b num i final)
  show ?case
  proof (cases "num = 0")
    case True
    then show ?thesis by (simp add: digit_loop.simps)
  next
    case False
    then have n: "0 < unat num" and nb: "\<not> b \<le> 1"
      using 1(2) by (auto simp: word_le_nat_alt unat_gt_0)
    have L: "lsd (unat b) (unat num) = unat num mod unat b # lsd (unat b) (unat (num div b))"
      using n 1(2) by (simp add: lsd_step unat_div)
    have i: "i < length final"
      using 1(4) by (simp add: L)
    have d: "digit_char (num mod b) = dchar (unat num mod unat b)"
      by (simp add: dchar_def flip: unat_mod)
    have upd: "take (Suc i) (final[i := c]) = take i final @ [c]" for c
      using i by (simp add: take_Suc_conv_app_nth)
    show ?thesis
      using False nb 1(1) 1(2-4) i
      by (subst digit_loop.simps) (simp add: L d upd)
  qed
qed

lemma reverse_loop_eq:
  assumes "buf = pre @ mid @ post" "j = length pre" "k = of_nat (length pre + length mid) - 1"
    and "length pre + length mid < 2 ^ 32" "1 \<le> length pre \<or> 2 \<le> length mid"
  shows "reverse_loop j k buf = Some (pre @ rev mid @ post)"
  using assms
proof (induction "length mid" arbitrary: pre mid post j k buf rule: less_induct)
  case less
  let ?n = "length pre + length mid"
  have "unat (of_nat ?n :: u32) = ?n"
    using less.prems(4) by (rule unat_of_nat_u32)
  then have k: "unat k = ?n - 1"
    using less.prems(3,5) by (auto simp: unat_sub_if' word_le_nat_alt)
  consider "mid = []" | x where "mid = [x]" | x m y where "mid = x # m @ [y]"
    by (cases mid rule: rev_cases; cases "butlast mid") (auto simp: butlast_append split: if_splits)
  then show ?case
  proof cases
    case 1
    then have "\<not> j \<le> unat k" using k less.prems(2,5) by auto
    then show ?thesis using less.prems(1) 1 by (simp add: reverse_loop.simps)
  next
    case (2 x)
    then have j: "j = unat k" "j < length buf" "buf[j := buf ! unat k, unat k := buf ! j] = buf"
      using less.prems(1,2) k by (simp_all add: nth_append)
    have "unat (k - 1) = unat k - 1"
      using 2 k less.prems(5) by (auto simp: unat_sub_if' word_le_nat_alt)
    then have "\<not> Suc j \<le> unat (k - 1)" using j by simp
    then have "reverse_loop (Suc j) (k - 1) buf = Some buf"
      by (simp add: reverse_loop.simps)
    then show ?thesis
      using j 2 less.prems(1) by (subst reverse_loop.simps) simp
  next
    case (3 x m y)
    have b: "buf ! j = x" "buf ! unat k = y" "j < length buf" "unat k < length buf" "j < unat k"
      using less.prems(1,2) k 3 by (simp_all add: nth_append)
    have swap: "buf[j := y, unat k := x] = (pre @ [y]) @ m @ (x # post)"
      using less.prems(1,2) k 3 by (simp add: list_update_append)
    have "reverse_loop (Suc j) (k - 1) ((pre @ [y]) @ m @ (x # post)) = Some ((pre @ [y]) @ rev m @ (x # post))"
      using less.prems(2-4) 3 by (intro less.hyps) (simp_all add: algebra_simps)
    then show ?thesis
      using b 3 by (subst reverse_loop.simps) (simp add: swap)
  qed
qed

lemma dchar_nonzero: "d < 16 \<Longrightarrow> dchar d \<noteq> 0"
proof -
  assume "d < 16"
  moreover have "\<forall>d\<in>set [0..<16]. dchar d \<noteq> 0"
    by code_simp
  ultimately show ?thesis by simp
qed

lemma dchar_small: "d < 10 \<Longrightarrow> dchar d = 48 + of_nat d"
proof -
  assume "d < 10"
  moreover have "\<forall>d\<in>set [0..<10]. dchar d = 48 + of_nat d"
    by code_simp
  ultimately show ?thesis by simp
qed

lemma unat_low_word: "unat (n :: u64) < 2 ^ 32 \<Longrightarrow> unat (ucast n :: u32) = unat n"
  by (simp add: unsigned_ucast_eq take_bit_eq_mod)

lemma buffer_string_terminated:
  assumes "\<forall>c\<in>set cs. c \<noteq> 0" "rest \<noteq> []"
  shows "buffer_string ((cs @ rest)[length cs := 0]) = cs"
proof -
  obtain r rs where "rest = r # rs" using assms(2) by (cases rest) auto
  then show ?thesis
    using assms(1) by (simp add: buffer_string_def list_update_append takeWhile_append)
qed

lemma log_integer_eq:
  assumes "number < 2 ^ 32" "length final = 64"
  shows "log_integer_to_serial number final =
    Some (if number = 0 then [48] else map dchar (rev (lsd 10 (unat number))))"
proof (cases "number < 10")
  case True
  then have n: "unat number < 10"
    by (simp add: word_less_nat_alt)
  have c: "48 + ucast number = dchar (unat number)"
    using n by (simp add: dchar_small)
  have "buffer_string (([dchar (unat number)] @ tl final)[length [dchar (unat number)] := 0]) = [dchar (unat number)]"
    using n assms(2) dchar_nonzero [of "unat number"] by (intro buffer_string_terminated) (cases final; auto)+
  moreover have "final[0 := dchar (unat number), 1 := 0] = ([dchar (unat number)] @ tl final)[1 := 0]"
    using assms(2) by (cases final) auto
  ultimately have "log_integer_to_serial number final = Some [dchar (unat number)]"
    using True by (simp add: log_integer_to_serial_def c)
  moreover have "dchar 0 = 48" by code_simp
  moreover have "number \<noteq> 0 \<Longrightarrow> lsd 10 (unat number) = [unat number]"
    using n by (simp add: lsd_step unat_gt_0)
  ultimately show ?thesis by auto
next
  case False
  let ?n = "ucast number :: u32" and ?L = "lsd 10 (unat number)"
  have nat: "unat number < 2 ^ 32" "10 \<le> unat number"
    using assms(1) False by (simp_all add: word_less_nat_alt word_le_nat_alt not_less)
  then have un: "unat ?n = unat number"
    by (intro unat_low_word)
  have len: "length ?L \<le> 10" "2 \<le> length ?L"
    using lsd_length [of 10 "unat number" 10] lsd_two_digits [of 10 "unat number"] nat by simp_all
  have loop: "digit_loop 10 ?n 0 final = (length ?L, map dchar ?L @ drop (length ?L) final)"
    using digit_loop_eq [of 10 0 ?n final] len assms(2) un by simp
  have rev: "reverse_loop 0 (of_nat (length ?L) - 1) (map dchar ?L @ drop (length ?L) final) =
      Some (rev (map dchar ?L) @ drop (length ?L) final)"
    using reverse_loop_eq [of _ "[]" "map dchar ?L" "drop (length ?L) final" 0] len by simp
  have "\<forall>c\<in>set (rev (map dchar ?L)). c \<noteq> 0"
    using lsd_digits [of 10] dchar_nonzero by fastforce
  moreover have "drop (length ?L) final \<noteq> []"
    using len assms(2) by simp
  ultimately have "buffer_string ((rev (map dchar ?L) @ drop (length ?L) final)[length ?L := 0]) = rev (map dchar ?L)"
    using buffer_string_terminated [of "rev (map dchar ?L)"] by simp
  moreover have "number \<noteq> 0"
    using False by auto
  ultimately show ?thesis
    using False by (simp add: log_integer_to_serial_def loop rev rev_map)
qed

lemma print_hex_eq:
  assumes "0 < number" "number < 2 ^ 32" "length final = 64"
  shows "print_hex number final = Some (ascii ''0x'' @ map dchar (rev (lsd 16 (unat number))))"
proof -
  let ?n = "ucast number :: u32" and ?L = "lsd 16 (unat number)" and ?f = "final[0 := 48, 1 := 120]"
  have nat: "unat number < 2 ^ 32" "0 < unat number"
    using assms(1,2) by (simp_all add: word_less_nat_alt unat_gt_0)
  then have un: "unat ?n = unat number"
    by (intro unat_low_word)
  have len: "length ?L \<le> 8"
    using lsd_length [of 16 "unat number" 8] nat by simp
  have f: "?f = [48, 120] @ drop 2 final" "2 \<le> length final"
    using assms(3) by (cases final; cases "tl final"; simp)+
  let ?post = "drop (2 + length ?L) final"
  have loop: "digit_loop 16 ?n 2 ?f = (2 + length ?L, [48, 120] @ map dchar ?L @ ?post)"
  proof -
    have t: "take 2 ?f = [48, 120]" "drop (2 + length ?L) ?f = ?post"
      unfolding f(1) by simp_all
    have "digit_loop 16 ?n 2 ?f = (2 + length ?L, take 2 ?f @ map dchar ?L @ drop (2 + length ?L) ?f)"
      using digit_loop_eq [of 16 2 ?n ?f] len assms(3) un by simp
    then show ?thesis by (simp only: t)
  qed
  have rev: "reverse_loop 2 (of_nat (2 + length ?L) - 1) ([48, 120] @ map dchar ?L @ ?post) =
      Some ([48, 120] @ rev (map dchar ?L) @ ?post)"
    by (rule reverse_loop_eq) (use len in simp_all)
  have "\<forall>c\<in>set ([48, 120] @ rev (map dchar ?L)). c \<noteq> 0"
    using lsd_digits [of 16] dchar_nonzero by fastforce
  moreover have "?post \<noteq> []"
    using len assms(3) by simp
  ultimately have "buffer_string ((([48, 120] @ rev (map dchar ?L)) @ ?post)[length ([48, 120] @ rev (map dchar ?L)) := 0]) =
      [48, 120] @ rev (map dchar ?L)"
    by (rule buffer_string_terminated)
  then show ?thesis
    using assms(1) loop rev by (simp add: print_hex_def rev_map)
qed

section \<open>Properties\<close>

text \<open>What a decimal reader makes of a byte string.\<close>

definition decimal_value :: "u8 list \<Rightarrow> nat" where
  "decimal_value out = value_of 10 (map (\<lambda>c. unat c - 48) out)"

lemma dchar_decimal: "d < 10 \<Longrightarrow> unat (dchar d) - 48 = d \<and> 48 \<le> dchar d \<and> dchar d \<le> 57"
proof -
  assume "d < 10"
  moreover have "\<forall>d\<in>set [0..<10]. unat (dchar d) - 48 = d \<and> 48 \<le> dchar d \<and> dchar d \<le> 57"
    by code_simp
  ultimately show ?thesis by simp
qed

lemma decimal_value_lsd: "decimal_value (map dchar (rev (lsd 10 n))) = n"
proof -
  have "map (\<lambda>c. unat c - 48) (map dchar (rev (lsd 10 n))) = rev (lsd 10 n)"
    using lsd_digits [of 10 _ n] dchar_decimal by (auto intro!: map_idI)
  then show ?thesis
    by (simp add: decimal_value_def value_lsd)
qed

text \<open>
  For every 32-bit number, \<open>log_integer_to_serial\<close> writes its decimal representation: reading
  the digits back gives the number, every byte is a digit, and there is no leading zero.
\<close>

theorem decimal_roundtrip:
  assumes "number < 2 ^ 32" and "length final = 64"
  shows "\<exists>out. log_integer_to_serial number final = Some out \<and> decimal_value out = unat number \<and>
    (\<forall>c\<in>set out. 48 \<le> c \<and> c \<le> 57) \<and> (number = 0 \<or> hd out \<noteq> 48)"
proof (cases "number = 0")
  case True
  then show ?thesis
    using log_integer_eq [OF assms] by (simp add: decimal_value_def value_of_def)
next
  case False
  let ?ds = "rev (lsd 10 (unat number))"
  have lead: "?ds \<noteq> []" "hd ?ds \<noteq> 0" "hd ?ds < 10"
    using lsd_lead [of 10 "unat number"] False lsd_digits [of 10 "last (lsd 10 (unat number))" "unat number"]
    by (simp_all add: unat_gt_0 hd_rev)
  then have "hd (map dchar ?ds) \<noteq> 48"
    using dchar_decimal [of "hd ?ds"] by (cases "hd ?ds = 0") (auto simp: hd_map)
  moreover have "\<forall>c\<in>set (map dchar ?ds). 48 \<le> c \<and> c \<le> 57"
    using lsd_digits [of 10 _ "unat number"] dchar_decimal by auto
  ultimately show ?thesis
    using False log_integer_eq [OF assms] decimal_value_lsd [of "unat number"] by simp
qed

theorem decimal_roundtrip_witness:
  "\<exists>out. log_integer_to_serial 4096 (replicate 64 0) = Some out \<and> decimal_value out = 4096 \<and>
    (\<forall>c\<in>set out. 48 \<le> c \<and> c \<le> 57) \<and> ((4096 :: u64) = 0 \<or> hd out \<noteq> 48)"
  using decimal_roundtrip [of 4096 "replicate 64 0"] by simp

lemma logf_literal:
  "of_char CHR ''%'' \<notin> set pre \<Longrightarrow> logf (pre @ fmt) as m stack = map_option (\<lambda>out. pre @ out) (logf fmt as m stack)"
proof (induction pre)
  case Nil
  then show ?case by (simp add: option.map_id [unfolded id_def])
next
  case (Cons c pre)
  then show ?case
    by (simp add: logf.simps option.map_comp comp_def)
qed

lemma unat_ucast_up: "unat (ucast (n :: u32) :: u64) = unat n"
proof -
  have "unat n mod 2 ^ 64 = unat n"
    using unat_lt_u32 [of n] by (intro mod_less) simp
  then show ?thesis
    by (simp add: unsigned_ucast_eq take_bit_eq_mod)
qed

lemma logf_convert:
  assumes "convert False c as m stack = Some (out, 0, as')" "c \<noteq> of_char CHR ''l''"
  shows "logf (of_char CHR ''%'' # c # post) as m stack = map_option (\<lambda>out'. out @ out') (logf post as' m stack)"
  using assms by (subst logf.simps) (simp add: Let_def)



end
