(* ===== verification/Keyboard.thy ===== *)
theory Keyboard
  imports Prelude
begin

text \<open>
  The keyboard of \<open>drivers/keyboard.c\<close> and its consumer in \<open>programs/terminal.c\<close>: scancode decoding
  with the modifier state, the ring buffer of key events shared by the interrupt handler and the
  terminal, and the table from keys to characters.
\<close>

section \<open>Key codes\<close>

text \<open>The enumerators of \<open>kernel_scancode\<close>; an event stores them in a byte.\<close>

abbreviation (input) KEY_NULL :: u8 where
  "KEY_NULL \<equiv> 0"

abbreviation (input) KEY_SPACE :: u8 where
  "KEY_SPACE \<equiv> 1"

abbreviation (input) KEY_BACKSPACE :: u8 where
  "KEY_BACKSPACE \<equiv> 2"

abbreviation (input) KEY_TAB :: u8 where
  "KEY_TAB \<equiv> 3"

abbreviation (input) KEY_ESC :: u8 where
  "KEY_ESC \<equiv> 4"

abbreviation (input) KEY_RETURN :: u8 where
  "KEY_RETURN \<equiv> 5"

abbreviation (input) KEY_SHIFT :: u8 where
  "KEY_SHIFT \<equiv> 6"

abbreviation (input) KEY_CTRL :: u8 where
  "KEY_CTRL \<equiv> 7"

abbreviation (input) KEY_ALT :: u8 where
  "KEY_ALT \<equiv> 8"

abbreviation (input) KEY_CAPSLOCK :: u8 where
  "KEY_CAPSLOCK \<equiv> 9"

abbreviation (input) KEY_1 :: u8 where
  "KEY_1 \<equiv> 10"

abbreviation (input) KEY_2 :: u8 where
  "KEY_2 \<equiv> 11"

abbreviation (input) KEY_3 :: u8 where
  "KEY_3 \<equiv> 12"

abbreviation (input) KEY_4 :: u8 where
  "KEY_4 \<equiv> 13"

abbreviation (input) KEY_5 :: u8 where
  "KEY_5 \<equiv> 14"

abbreviation (input) KEY_6 :: u8 where
  "KEY_6 \<equiv> 15"

abbreviation (input) KEY_7 :: u8 where
  "KEY_7 \<equiv> 16"

abbreviation (input) KEY_8 :: u8 where
  "KEY_8 \<equiv> 17"

abbreviation (input) KEY_9 :: u8 where
  "KEY_9 \<equiv> 18"

abbreviation (input) KEY_0 :: u8 where
  "KEY_0 \<equiv> 19"

abbreviation (input) KEY_A :: u8 where
  "KEY_A \<equiv> 20"

abbreviation (input) KEY_B :: u8 where
  "KEY_B \<equiv> 21"

abbreviation (input) KEY_C :: u8 where
  "KEY_C \<equiv> 22"

abbreviation (input) KEY_D :: u8 where
  "KEY_D \<equiv> 23"

abbreviation (input) KEY_E :: u8 where
  "KEY_E \<equiv> 24"

abbreviation (input) KEY_F :: u8 where
  "KEY_F \<equiv> 25"

abbreviation (input) KEY_G :: u8 where
  "KEY_G \<equiv> 26"

abbreviation (input) KEY_H :: u8 where
  "KEY_H \<equiv> 27"

abbreviation (input) KEY_I :: u8 where
  "KEY_I \<equiv> 28"

abbreviation (input) KEY_J :: u8 where
  "KEY_J \<equiv> 29"

abbreviation (input) KEY_K :: u8 where
  "KEY_K \<equiv> 30"

abbreviation (input) KEY_L :: u8 where
  "KEY_L \<equiv> 31"

abbreviation (input) KEY_M :: u8 where
  "KEY_M \<equiv> 32"

abbreviation (input) KEY_N :: u8 where
  "KEY_N \<equiv> 33"

abbreviation (input) KEY_O :: u8 where
  "KEY_O \<equiv> 34"

abbreviation (input) KEY_P :: u8 where
  "KEY_P \<equiv> 35"

abbreviation (input) KEY_Q :: u8 where
  "KEY_Q \<equiv> 36"

abbreviation (input) KEY_R :: u8 where
  "KEY_R \<equiv> 37"

abbreviation (input) KEY_S :: u8 where
  "KEY_S \<equiv> 38"

abbreviation (input) KEY_T :: u8 where
  "KEY_T \<equiv> 39"

abbreviation (input) KEY_U :: u8 where
  "KEY_U \<equiv> 40"

abbreviation (input) KEY_V :: u8 where
  "KEY_V \<equiv> 41"

abbreviation (input) KEY_W :: u8 where
  "KEY_W \<equiv> 42"

abbreviation (input) KEY_X :: u8 where
  "KEY_X \<equiv> 43"

abbreviation (input) KEY_Y :: u8 where
  "KEY_Y \<equiv> 44"

abbreviation (input) KEY_Z :: u8 where
  "KEY_Z \<equiv> 45"

abbreviation (input) KEY_F1 :: u8 where
  "KEY_F1 \<equiv> 46"

abbreviation (input) KEY_F2 :: u8 where
  "KEY_F2 \<equiv> 47"

abbreviation (input) KEY_F3 :: u8 where
  "KEY_F3 \<equiv> 48"

abbreviation (input) KEY_F4 :: u8 where
  "KEY_F4 \<equiv> 49"

abbreviation (input) KEY_F5 :: u8 where
  "KEY_F5 \<equiv> 50"

abbreviation (input) KEY_F6 :: u8 where
  "KEY_F6 \<equiv> 51"

abbreviation (input) KEY_F7 :: u8 where
  "KEY_F7 \<equiv> 52"

abbreviation (input) KEY_F8 :: u8 where
  "KEY_F8 \<equiv> 53"

abbreviation (input) KEY_F9 :: u8 where
  "KEY_F9 \<equiv> 54"

abbreviation (input) KEY_F10 :: u8 where
  "KEY_F10 \<equiv> 55"

abbreviation (input) KEY_F11 :: u8 where
  "KEY_F11 \<equiv> 56"

abbreviation (input) KEY_F12 :: u8 where
  "KEY_F12 \<equiv> 57"

abbreviation (input) KEY_EQUALS :: u8 where
  "KEY_EQUALS \<equiv> 58"

abbreviation (input) KEY_MINUS :: u8 where
  "KEY_MINUS \<equiv> 59"

abbreviation (input) KEY_PLUS :: u8 where
  "KEY_PLUS \<equiv> 60"

abbreviation (input) KEY_FSLASH :: u8 where
  "KEY_FSLASH \<equiv> 61"

abbreviation (input) KEY_BSLASH :: u8 where
  "KEY_BSLASH \<equiv> 62"

abbreviation (input) KEY_RBRACKET :: u8 where
  "KEY_RBRACKET \<equiv> 63"

abbreviation (input) KEY_LBRACKET :: u8 where
  "KEY_LBRACKET \<equiv> 64"

abbreviation (input) KEY_PERIOD :: u8 where
  "KEY_PERIOD \<equiv> 65"

abbreviation (input) KEY_COMMA :: u8 where
  "KEY_COMMA \<equiv> 66"

abbreviation (input) KEY_BACKTICK :: u8 where
  "KEY_BACKTICK \<equiv> 67"

abbreviation (input) KEY_SINGLE_QUOTE :: u8 where
  "KEY_SINGLE_QUOTE \<equiv> 68"

abbreviation (input) KEY_SEMI_COLON :: u8 where
  "KEY_SEMI_COLON \<equiv> 69"

abbreviation (input) CTRL_MASK :: u8 where
  "CTRL_MASK \<equiv> 1"

abbreviation (input) ALT_MASK :: u8 where
  "ALT_MASK \<equiv> 2"

abbreviation (input) SHIFT_MASK :: u8 where
  "SHIFT_MASK \<equiv> 4"

abbreviation (input) RELEASE_MASK :: u8 where
  "RELEASE_MASK \<equiv> 8"

definition MAX_KEY_BUFFER_SIZE :: nat where
  "MAX_KEY_BUFFER_SIZE = 20"

definition key_lookup :: "u8 list" where
  "key_lookup =
     [KEY_NULL, KEY_ESC, KEY_1, KEY_2, KEY_3, KEY_4, KEY_5,
      KEY_6, KEY_7, KEY_8, KEY_9, KEY_0, KEY_MINUS, KEY_EQUALS,
      KEY_BACKSPACE, KEY_TAB, KEY_Q, KEY_W, KEY_E, KEY_R, KEY_T,
      KEY_Y, KEY_U, KEY_I, KEY_O, KEY_P, KEY_LBRACKET, KEY_RBRACKET,
      KEY_RETURN, KEY_CTRL, KEY_A, KEY_S, KEY_D, KEY_F, KEY_G,
      KEY_H, KEY_J, KEY_K, KEY_L, KEY_SEMI_COLON, KEY_SINGLE_QUOTE, KEY_BACKTICK,
      KEY_SHIFT, KEY_BSLASH, KEY_Z, KEY_X, KEY_C, KEY_V, KEY_B,
      KEY_N, KEY_M, KEY_COMMA, KEY_PERIOD, KEY_FSLASH, KEY_SHIFT, KEY_NULL,
      KEY_ALT, KEY_SPACE, KEY_CAPSLOCK, KEY_F1, KEY_F2, KEY_F3, KEY_F4,
      KEY_F5, KEY_F6, KEY_F7, KEY_F8, KEY_F9, KEY_F10, KEY_NULL,
      KEY_NULL, KEY_NULL, KEY_NULL, KEY_NULL, KEY_NULL, KEY_NULL, KEY_NULL,
      KEY_NULL, KEY_NULL, KEY_NULL, KEY_NULL, KEY_NULL, KEY_NULL, KEY_NULL,
      KEY_NULL, KEY_NULL, KEY_NULL, KEY_F11, KEY_F12]"

text \<open>
  The table has 89 entries but is indexed with up to 127: \<open>beyond\<close> is what the memory after it holds.
\<close>

definition lookup_key :: "(nat \<Rightarrow> u8) \<Rightarrow> nat \<Rightarrow> u8" where
  "lookup_key beyond i = (if i < length key_lookup then key_lookup ! i else beyond i)"

section \<open>The event buffer\<close>

record key_event =
  code :: u8
  masks :: u8

record keyboard =
  key_buffer :: "nat \<Rightarrow> key_event"
  key_buffer_pos :: nat
  key_buffer_tail :: nat
  current_masks :: u8
  key_codes :: "nat \<Rightarrow> u8"

definition handle_masks :: "u8 \<Rightarrow> keyboard \<Rightarrow> bool \<times> keyboard" where
  "handle_masks key s =
     (let set = (\<lambda>m. s\<lparr>key_buffer := (key_buffer s)(key_buffer_pos s :=
                   (key_buffer s (key_buffer_pos s))\<lparr>masks := masks (key_buffer s (key_buffer_pos s)) OR m\<rparr>)\<rparr>)
      in if key = KEY_ALT then (True, set ALT_MASK)
         else if key = KEY_CTRL then (True, set CTRL_MASK)
         else if key = KEY_SHIFT then (True, set SHIFT_MASK)
         else (False, s))"

text \<open>
  Up to four bytes are read from port 0x60, until one is not the extension prefix 0xE0; \<open>port i\<close> is
  the \<open>i\<close>-th byte read. The result is the index the loop stops with.
\<close>

fun read_codes :: "nat \<Rightarrow> nat \<Rightarrow> (nat \<Rightarrow> u8) \<Rightarrow> (nat \<Rightarrow> u8) \<Rightarrow> nat \<times> (nat \<Rightarrow> u8)" where
  "read_codes 0 i port codes = (i, codes)"
| "read_codes (Suc n) i port codes =
     (if port i \<noteq> 0xE0 then (i, codes(i := port i)) else read_codes n (Suc i) port (codes(i := port i)))"

definition handle_keychange :: "(nat \<Rightarrow> u8) \<Rightarrow> (nat \<Rightarrow> u8) \<Rightarrow> keyboard \<Rightarrow> keyboard" where
  "handle_keychange beyond port s =
     (let codes0 = (\<lambda>i. if i < 4 then 0 else key_codes s i);
          (bytes_in, codes) = read_codes 4 0 port codes0;
          raw = codes bytes_in;
          pos = (key_buffer_pos s + 1) mod MAX_KEY_BUFFER_SIZE;
          key = lookup_key beyond (unat raw mod 0x80);
          masks0 = (if raw > 0x80 then 0 OR RELEASE_MASK else 0);
          cur = (if key = KEY_SHIFT then
                   (if masks0 AND RELEASE_MASK \<noteq> 0 then current_masks s AND NOT SHIFT_MASK
                    else current_masks s OR SHIFT_MASK)
                 else current_masks s)
      in s\<lparr>key_codes := codes, key_buffer_pos := pos, current_masks := cur,
           key_buffer := (key_buffer s)(pos := \<lparr>code = key, masks = masks0 OR cur\<rparr>)\<rparr>)"

text \<open>\<open>next_keycode\<close> of \<open>terminal.c\<close>.\<close>

definition next_keycode :: "keyboard \<Rightarrow> key_event \<times> keyboard" where
  "next_keycode s =
     (if key_buffer_tail s = key_buffer_pos s then (\<lparr>code = KEY_NULL, masks = 0\<rparr>, s)
      else
        let t = (key_buffer_tail s + 1) mod MAX_KEY_BUFFER_SIZE
        in (key_buffer s t, s\<lparr>key_buffer_tail := t\<rparr>))"

section \<open>Characters\<close>

text \<open>The switch of \<open>keycode_to_keysym\<close>: key, character with shift, character without.\<close>

definition keysym_table :: "(u8 \<times> u8 \<times> u8) list" where
  "keysym_table =
     [(KEY_A, 65, 97), (KEY_B, 66, 98), (KEY_C, 67, 99), (KEY_D, 68, 100), (KEY_E, 69, 101),
      (KEY_F, 70, 102), (KEY_G, 71, 103), (KEY_H, 72, 104), (KEY_I, 73, 105), (KEY_J, 74, 106),
      (KEY_K, 75, 107), (KEY_L, 76, 108), (KEY_M, 77, 109), (KEY_N, 78, 110), (KEY_O, 79, 111),
      (KEY_P, 80, 112), (KEY_Q, 81, 113), (KEY_R, 82, 114), (KEY_S, 83, 115), (KEY_T, 84, 116),
      (KEY_U, 85, 117), (KEY_V, 86, 118), (KEY_W, 87, 119), (KEY_X, 88, 120), (KEY_Y, 89, 121),
      (KEY_Z, 90, 122), (KEY_1, 33, 49), (KEY_2, 64, 50), (KEY_3, 35, 51), (KEY_4, 36, 52),
      (KEY_5, 37, 53), (KEY_6, 94, 54), (KEY_7, 38, 55), (KEY_8, 42, 56), (KEY_9, 40, 57),
      (KEY_0, 41, 48), (KEY_LBRACKET, 123, 91), (KEY_RBRACKET, 125, 93), (KEY_FSLASH, 63, 47), (KEY_BSLASH, 124, 92),
      (KEY_SINGLE_QUOTE, 34, 39), (KEY_SEMI_COLON, 58, 59), (KEY_PERIOD, 62, 46), (KEY_COMMA, 60, 44), (KEY_EQUALS, 43, 61),
      (KEY_MINUS, 95, 45), (KEY_BACKTICK, 126, 96),
      (KEY_SPACE, 32, 32), (KEY_TAB, 9, 9), (KEY_BACKSPACE, 8, 8), (KEY_RETURN, 10, 10)]"

definition keycode_to_keysym :: "key_event \<Rightarrow> u8" where
  "keycode_to_keysym key =
     (let shifted = masks key AND SHIFT_MASK
      in case map_of keysym_table (code key) of
           Some (up, down) \<Rightarrow> (if shifted \<noteq> 0 then up else down)
         | None \<Rightarrow> 0)"

end
