(* ===== verification/Bytes.thy ===== *)
theory Bytes
  imports Kstring
begin

text \<open>
  Multi-byte fields in byte memory, least significant byte first, as the compiler lays out the
  \<open>uint16_t\<close>, \<open>uint32_t\<close> and \<open>uint64_t\<close> members of packed structs: reading, writing, and which
  accesses do not interfere.
\<close>

section \<open>Accesses\<close>

definition get16 :: "mem \<Rightarrow> u32 \<Rightarrow> u16" where
  "get16 m a = ucast (m a) OR push_bit 8 (ucast (m (a + 1)))"

definition get32 :: "mem \<Rightarrow> u32 \<Rightarrow> u32" where
  "get32 m a = ucast (m a) OR push_bit 8 (ucast (m (a + 1))) OR push_bit 16 (ucast (m (a + 2))) OR
     push_bit 24 (ucast (m (a + 3)))"

definition get64 :: "mem \<Rightarrow> u32 \<Rightarrow> u64" where
  "get64 m a = ucast (get32 m a) OR push_bit 32 (ucast (get32 m (a + 4)))"

definition put16 :: "u32 \<Rightarrow> u16 \<Rightarrow> mem \<Rightarrow> mem" where
  "put16 a v m = m(a := ucast v, a + 1 := ucast (drop_bit 8 v))"

definition put32 :: "u32 \<Rightarrow> u32 \<Rightarrow> mem \<Rightarrow> mem" where
  "put32 a v m = m(a := ucast v, a + 1 := ucast (drop_bit 8 v), a + 2 := ucast (drop_bit 16 v), a + 3 := ucast (drop_bit 24 v))"

section \<open>Round trips\<close>

lemma get16_put16 [simp]: "get16 (put16 a v m) a = v"
  by (rule bit_word_eqI) (auto simp: get16_def put16_def bit_simps)

lemma get32_put32 [simp]: "get32 (put32 a v m) a = v"
proof (rule bit_word_eqI)
  fix n assume "n < LENGTH(32)"
  then have "n < 8 \<or> (8 \<le> n \<and> n < 16) \<or> (16 \<le> n \<and> n < 24) \<or> (24 \<le> n \<and> n < 32)"
    by auto
  then show "bit (get32 (put32 a v m) a) n = bit v n"
    by (auto simp: get32_def put32_def bit_simps)
qed

section \<open>Interference\<close>

text \<open>\<open>off a b\<close> is the offset of \<open>b\<close> from \<open>a\<close>; an access of \<open>k\<close> bytes at \<open>a\<close> reaches offsets below \<open>k\<close>.\<close>

definition off :: "u32 \<Rightarrow> u32 \<Rightarrow> nat" where
  "off a b = unat (b - a)"

named_theorems far \<open>memory updates leave distant bytes alone\<close>

lemma off_eqI: "k < 2 ^ 32 \<Longrightarrow> b = a + of_nat k \<Longrightarrow> off a b = k"
  using dist_add [of k a] by (simp add: off_def)

lemma put16_far [far]: "2 \<le> off a b \<Longrightarrow> put16 a v m b = m b"
  using off_eqI [of 0 b a] off_eqI [of 1 b a] by (auto simp: put16_def)

lemma put32_far [far]: "4 \<le> off a b \<Longrightarrow> put32 a v m b = m b"
  using off_eqI [of 0 b a] off_eqI [of 1 b a] off_eqI [of 2 b a] off_eqI [of 3 b a]
  by (auto simp: put32_def)

lemma memset_far [far]: "unat n \<le> off p a \<Longrightarrow> snd (memset p c n m) a = m a"
  using unat_lt_u32 [of n] by (simp add: memset_def memset_loop_eq off_def)

lemma memset_in: "off p a < unat n \<Longrightarrow> snd (memset p c n m) a = ucast c"
  using unat_lt_u32 [of n] by (simp add: memset_def memset_loop_eq off_def)

lemma memcpy_far [far]: "unat n \<le> off d a \<Longrightarrow> snd (memcpy d s n m) a = m a"
  using unat_lt_u32 [of n] by (simp add: memcpy_eq off_def)

lemma get16_cong: "m a = m' a \<Longrightarrow> m (a + 1) = m' (a + 1) \<Longrightarrow> get16 m a = get16 m' a"
  by (simp add: get16_def)

lemma get32_cong: "(\<And>i. i < 4 \<Longrightarrow> m (a + of_nat i) = m' (a + of_nat i)) \<Longrightarrow> get32 m a = get32 m' a"
proof -
  assume "\<And>i. i < 4 \<Longrightarrow> m (a + of_nat i) = m' (a + of_nat i)"
  from this [of 0] this [of 1] this [of 2] this [of 3] show ?thesis
    by (simp add: get32_def)
qed

lemma off_add: "a \<le> b \<Longrightarrow> b < 2 ^ 32 \<Longrightarrow> off (l + of_nat a) (l + of_nat b) = b - a"
proof -
  assume "a \<le> b" "b < 2 ^ 32"
  moreover have "l + of_nat b = l + of_nat a + of_nat (b - a)"
    using \<open>a \<le> b\<close> by (simp add: of_nat_diff)
  ultimately show ?thesis
    by (intro off_eqI) simp_all
qed

lemma off_behind: "b < a \<Longrightarrow> a < 2 ^ 32 \<Longrightarrow> off (l + of_nat a) (l + of_nat b) = 2 ^ 32 - (a - b)"
proof -
  assume *: "b < a" "a < 2 ^ 32"
  have "(of_nat (2 ^ 32) :: u32) = 0"
    by simp
  then have "of_nat (2 ^ 32 - (a - b)) = (0 :: u32) - of_nat (a - b)"
    using * of_nat_diff [of "a - b" "2 ^ 32", where 'a = "32 word"] by simp
  then have "l + of_nat b = l + of_nat a + of_nat (2 ^ 32 - (a - b))"
    using * by (simp add: of_nat_diff)
  then show ?thesis
    using * by (intro off_eqI) simp_all
qed

text \<open>The offset from a base that lies \<open>n\<close> further on.\<close>

lemma off_shift:
  assumes "n < 2 ^ 32"
  shows "off (p + of_nat n) a = (if n \<le> off p a then off p a - n else 2 ^ 32 - (n - off p a))"
proof -
  have a: "p + of_nat (off p a) = a" "off p a < 2 ^ 32"
    using unat_lt_u32 [of "a - p"] by (simp_all add: off_def)
  show ?thesis
    using off_add [of n "off p a" p] off_behind [of "off p a" n p] assms a(2) unfolding a(1) by simp
qed

text \<open>Accesses at a known offset from a common base.\<close>

lemma off_base [simp]: "k < 2 ^ 32 \<Longrightarrow> off p (p + of_nat k) = k"
  by (rule off_eqI) simp_all

lemma put32_beside:
  assumes "off p a < k \<or> k + 4 \<le> off p a" "k + 4 \<le> 2 ^ 32"
  shows "put32 (p + of_nat k) v m a = m a"
proof -
  have "4 \<le> off (p + of_nat k) a"
    using off_shift [of k p a] assms by (auto split: if_splits)
  then show ?thesis by (simp add: far)
qed

lemma put16_beside:
  assumes "off p a < k \<or> k + 2 \<le> off p a" "k + 2 \<le> 2 ^ 32"
  shows "put16 (p + of_nat k) v m a = m a"
proof -
  have "2 \<le> off (p + of_nat k) a"
    using off_shift [of k p a] assms by (auto split: if_splits)
  then show ?thesis by (simp add: far)
qed

lemma memset_beside:
  assumes "off p a < k \<or> k + unat n \<le> off p a" "k + unat n \<le> 2 ^ 32"
  shows "snd (memset (p + of_nat k) c n m) a = m a"
proof -
  have "unat n \<le> off (p + of_nat k) a"
  proof (cases "k < 2 ^ 32")
    case True
    then show ?thesis
      using off_shift [of k p a] assms by (auto split: if_splits)
  next
    case False
    then show ?thesis using assms by simp
  qed
  then show ?thesis by (simp add: far)
qed

lemma get32_same: "(\<And>i. i < 4 \<Longrightarrow> m (p + of_nat (k + i)) = m' (p + of_nat (k + i))) \<Longrightarrow>
    get32 m (p + of_nat k) = get32 m' (p + of_nat k)"
  by (rule get32_cong) (simp add: add.assoc)

lemma get16_same: "(\<And>i. i < 2 \<Longrightarrow> m (p + of_nat (k + i)) = m' (p + of_nat (k + i))) \<Longrightarrow>
    get16 m (p + of_nat k) = get16 m' (p + of_nat k)"
proof -
  assume *: "\<And>i. i < 2 \<Longrightarrow> m (p + of_nat (k + i)) = m' (p + of_nat (k + i))"
  show ?thesis
    by (rule get16_cong) (use * [of 0] * [of 1] in \<open>simp_all add: ac_simps\<close>)
qed

end
