(* ===== verification/Terminal.thy ===== *)
theory Terminal
  imports Serial Keyboard Bytes
begin

text \<open>
  The terminal of \<open>programs/terminal.c\<close>: the text buffer with its scrolling, \<open>printf\<close>, the line being
  typed, the drawing loops and the commands. Drawing is the list of glyphs handed to
  \<open>fb_put_glyph\<close>. The buffers are \<open>kalloc\<close>ed arrays; they are functions on indices, so an access
  past the end reads or writes the model's continuation of the array instead of foreign memory.
\<close>

section \<open>State\<close>

text \<open>A call of \<open>fb_put_glyph\<close>: character, pixel position, colours; the size is \<open>font_size\<close>.\<close>

record glyph_call =
  g_char :: u8
  g_x :: u16
  g_y :: u16
  g_fg :: u32
  g_bg :: u32

record terminal =
  text_buffer :: "nat \<Rightarrow> u8"
  user_chars :: "int \<Rightarrow> u8"
  user_char_index :: u16
  textbuf_loc :: u16
  cur_lines :: u16
  term_ready :: bool
  max_char_x :: int
  max_char_y :: int
  term_bg :: u32
  term_fg :: u32
  screen :: "glyph_call list"

definition font_size :: u8 where
  "font_size = 1"

definition font_width :: u8 where
  "font_width = font_size * 8"

definition font_height :: u8 where
  "font_height = font_size * 16"

text \<open>Arguments of type \<open>int\<close> are converted to \<open>uint16_t\<close>.\<close>

definition put_glyph :: "u8 \<Rightarrow> int \<Rightarrow> int \<Rightarrow> terminal \<Rightarrow> terminal" where
  "put_glyph ch x y t = t\<lparr>screen := screen t @
     [\<lparr>g_char = ch, g_x = of_int x, g_y = of_int y, g_fg = term_fg t, g_bg = term_bg t\<rparr>]\<rparr>"

section \<open>Scrolling\<close>

text \<open>The search for the newline that ends the first line, over \<open>i = i0, \<dots>, i0 + n - 1\<close>.\<close>

fun first_line_end :: "nat \<Rightarrow> nat \<Rightarrow> (nat \<Rightarrow> u8) \<Rightarrow> nat" where
  "first_line_end 0 i b = 0"
| "first_line_end (Suc n) i b = (if b i = 10 then i + 1 else first_line_end n (i + 1) b)"

text \<open>The move: at most \<open>n\<close> further letters, stopping at a zero.\<close>

fun move_back :: "nat \<Rightarrow> nat \<Rightarrow> nat \<Rightarrow> (nat \<Rightarrow> u8) \<Rightarrow> nat \<times> (nat \<Rightarrow> u8)" where
  "move_back 0 cur e b = (cur, b)"
| "move_back (Suc n) cur e b =
     (if b (cur + e) = 0 then (cur, b) else move_back n (cur + 1) e (b(cur := b (cur + e))))"

partial_function (option) clear_rest :: "nat \<Rightarrow> (nat \<Rightarrow> u8) \<Rightarrow> (nat \<Rightarrow> u8) option" where
  "clear_rest i b = (if b i = 0 then Some b else clear_rest (i + 1) (b(i := 0)))"

declare clear_rest.simps [code]

definition scroll_text_buffer_down :: "terminal \<Rightarrow> terminal option" where
  "scroll_text_buffer_down t =
     (let e = first_line_end (nat (max_char_x t)) 0 (text_buffer t);
          (cur, b) = move_back (nat (max_char_x t * max_char_y t) - e) 0 e (text_buffer t)
      in map_option
           (\<lambda>b'. t\<lparr>text_buffer := b', cur_lines := cur_lines t - 1, textbuf_loc := textbuf_loc t - of_nat e\<rparr>)
           (clear_rest cur b))"

section \<open>Writing\<close>

definition store_char :: "u8 \<Rightarrow> terminal \<Rightarrow> terminal" where
  "store_char ch t = t\<lparr>text_buffer := (text_buffer t)(unat (textbuf_loc t) := ch), textbuf_loc := textbuf_loc t + 1\<rparr>"

definition count_line :: "u8 \<Rightarrow> terminal \<Rightarrow> terminal" where
  "count_line ch t = (if ch = 10 then t\<lparr>cur_lines := cur_lines t + 1\<rparr> else t)"

fun write_text_buffer :: "u8 list \<Rightarrow> terminal \<Rightarrow> terminal option" where
  "write_text_buffer [] t = Some t"
| "write_text_buffer (ch # text) t =
     (let t1 = count_line ch t
      in Option.bind (if int (unat (cur_lines t1)) > max_char_y t1 then scroll_text_buffer_down t1 else Some t1)
           (\<lambda>t2. write_text_buffer text (store_char ch t2)))"

definition write_char_text_buffer :: "u8 \<Rightarrow> terminal \<Rightarrow> terminal option" where
  "write_char_text_buffer ch t =
     (let t1 = count_line ch t
      in map_option (store_char ch)
           (if int (unat (cur_lines t1)) \<ge> max_char_y t1 then scroll_text_buffer_down t1 else Some t1))"

text \<open>The buffer of \<open>term_render_hex\<close> is filled and reversed exactly as in the serial log.\<close>

definition term_render_hex :: "u32 \<Rightarrow> u8 list \<Rightarrow> terminal \<Rightarrow> terminal option" where
  "term_render_hex number final t =
     (if number = 0 then write_text_buffer (ascii ''0x0'') t
      else
        let (i, buf) = digit_loop 16 number 2 (final[0 := 48, 1 := 120])
        in Option.bind (reverse_loop 2 (of_nat i - 1) buf)
             (\<lambda>buf'. write_text_buffer (buffer_string (buf'[i := 0])) t))"

section \<open>Drawing\<close>

definition single_shtoi :: "u8 \<Rightarrow> u32" where
  "single_shtoi num =
     (if num \<ge> 48 \<and> num \<le> 57 then ucast (num - 48)
      else if num \<ge> 97 \<and> num \<le> 102 then 10 + ucast (num - 97)
      else - 1)"

definition colors :: "u32 list" where
  "colors = [0x0, 0xffffff00, 0xff000000, 0x00ff0000, 0x0000ff00, 0xc4a00000, 0x75507b00, 0x06989a00,
     0, 0, 0, 0, 0, 0, 0, 0]"

text \<open>An index outside the table reads the stack around it, \<open>wild\<close>.\<close>

definition color_at :: "(u32 \<Rightarrow> u32) \<Rightarrow> u32 \<Rightarrow> u32" where
  "color_at wild i = (if unat i < length colors then colors ! unat i else wild i)"

definition parse_color :: "(u32 \<Rightarrow> u32) \<Rightarrow> nat \<Rightarrow> terminal \<Rightarrow> terminal" where
  "parse_color wild loc t =
     (let hex_fg = single_shtoi (text_buffer t (loc + 1)); hex_bg = single_shtoi (text_buffer t (loc + 2))
      in t\<lparr>term_fg := color_at wild hex_fg, term_bg := color_at wild hex_bg\<rparr>)"

text \<open>Blanks from column \<open>i\<close> up to the end of the line.\<close>

definition blank_from :: "int \<Rightarrow> int \<Rightarrow> terminal \<Rightarrow> terminal" where
  "blank_from i line t = fold (\<lambda>j. put_glyph 32 (j * uint font_width) (line * uint font_height)) [i..max_char_x t - 1] t"

partial_function (option) draw_loop ::
  "(u32 \<Rightarrow> u32) \<Rightarrow> u16 \<Rightarrow> u16 \<Rightarrow> u16 \<Rightarrow> terminal \<Rightarrow> (u16 \<times> terminal) option" where
  "draw_loop wild print_loc line_x line_num t =
     (let ch = text_buffer t (unat print_loc)
      in if ch = 0 then Some (line_num, t)
         else if ch = 0xFF then draw_loop wild (print_loc + 3) line_x line_num (parse_color wild (unat print_loc) t)
         else if ch = 10 then draw_loop wild (print_loc + 1) 0 (line_num + 1) (blank_from (uint line_x) (uint line_num) t)
         else
           let (x, y) = (if uint line_x mod max_char_x t = 0 \<and> line_x > 0 then (0, line_num + 1) else (line_x, line_num))
           in draw_loop wild (print_loc + 1) (x + 1) y
                (put_glyph ch (uint x * uint font_width) (uint y * uint font_height) t))"

declare draw_loop.simps [code]

definition draw_text_buffer :: "(u32 \<Rightarrow> u32) \<Rightarrow> terminal \<Rightarrow> terminal option" where
  "draw_text_buffer wild t =
     map_option
       (\<lambda>(line_num, t1).
         let t2 = blank_from 0 (uint line_num) t1
         in t2\<lparr>user_chars := (\<lambda>i. if 1 < i \<and> i < max_char_x t2 then 0 else user_chars t2 i)\<rparr>)
       (draw_loop wild 0 0 0 t)"

partial_function (option) draw_user_loop :: "int \<Rightarrow> terminal \<Rightarrow> terminal option" where
  "draw_user_loop index t =
     (if user_chars t index = 0 then Some t
      else draw_user_loop (index + 1)
        (put_glyph (user_chars t index) (index * uint font_width) (uint (cur_lines t) * uint font_height) t))"

declare draw_user_loop.simps [code]

definition draw_user_chars :: "terminal \<Rightarrow> terminal option" where
  "draw_user_chars t = draw_user_loop 0 t"

definition tflush :: "(u32 \<Rightarrow> u32) \<Rightarrow> terminal \<Rightarrow> terminal option" where
  "tflush wild t = Option.bind (draw_text_buffer wild t) draw_user_chars"

section \<open>printf\<close>

text \<open>
  \<open>stack\<close> is the content of the uninitialised digit buffer. A format ending in \<open>%\<close> and a missing
  argument are the result None; \<open>%t\<close> writes the colour escape, and the two digits that follow it are
  written as text and interpreted when the buffer is drawn.
\<close>

function printf ::
  "(u32 \<Rightarrow> u32) \<Rightarrow> u8 list \<Rightarrow> mem \<Rightarrow> u8 list \<Rightarrow> u32 list \<Rightarrow> terminal \<Rightarrow> terminal option" where
  "printf wild stack m [] as t = Some t"
| "printf wild stack m (c # fmt) as t =
     (if c = of_char CHR ''%'' then
        (case fmt of
           [] \<Rightarrow> None
         | d # rest \<Rightarrow>
             if d = of_char CHR ''x'' then
               Option.bind (take32 as) (\<lambda>(v, as'). Option.bind (term_render_hex v stack t) (printf wild stack m rest as'))
             else if d = of_char CHR ''%'' then
               Option.bind (write_char_text_buffer d t) (printf wild stack m rest as)
             else if d = of_char CHR ''t'' then
               Option.bind (write_char_text_buffer 0xFF t) (printf wild stack m rest as)
             else if d = of_char CHR ''s'' then
               Option.bind (take32 as) (\<lambda>(p, as'). Option.bind (cstring p m)
                 (\<lambda>text. Option.bind (write_text_buffer text t) (printf wild stack m rest as')))
             else if d = of_char CHR ''c'' then
               Option.bind (take32 as) (\<lambda>(v, as'). Option.bind (write_char_text_buffer (ucast v) t) (printf wild stack m rest as'))
             else printf wild stack m rest as t)
      else Option.bind (write_char_text_buffer c t)
        (\<lambda>t1. Option.bind (if c = 10 then draw_text_buffer wild t1 else Some t1) (printf wild stack m fmt as)))"
  by pat_completeness auto
termination
  by (relation "measure (\<lambda>(wild, stack, m, fmt, as, t). length fmt)") auto

declare printf.simps [simp del]

section \<open>The line being typed\<close>

definition write_user_char :: "u8 \<Rightarrow> terminal \<Rightarrow> terminal" where
  "write_user_char ch t =
     (if ch = 8 then
        (if user_char_index t \<le> 2 then t
         else
           let i = user_char_index t - 1
           in t\<lparr>user_char_index := i, user_chars := (user_chars t)(uint i := 32)\<rparr>)
      else if uint (user_char_index t) = max_char_x t then t
      else t\<lparr>user_chars := (user_chars t)(uint (user_char_index t) := ch),
             text_buffer := (text_buffer t)(unat (textbuf_loc t) + unat (user_char_index t) := ch),
             user_char_index := user_char_index t + 1\<rparr>)"

text \<open>
  \<open>parse_index\<close> is a \<open>char\<close>, which is signed: after 127 comes - 128. The command is cut at a space, a
  newline or the end.
\<close>

partial_function (option) parse_loop :: "8 word \<Rightarrow> (int \<Rightarrow> u8) \<Rightarrow> (int \<Rightarrow> u8) \<Rightarrow> (int \<Rightarrow> u8) option" where
  "parse_loop i chars command =
     (let ch = chars (sint i)
      in if ch = 0 \<or> ch = 32 \<or> ch = 10 then Some command
         else parse_loop (i + 1) chars (command(sint i - 2 := ch)))"

declare parse_loop.simps [code]

datatype command = Version | Woof | Shutdown | Unknown

text \<open>\<open>strcmp(name, command, strlen(name))\<close> compares only the characters of the name.\<close>

definition matches :: "string \<Rightarrow> (int \<Rightarrow> u8) \<Rightarrow> bool" where
  "matches name cmd \<longleftrightarrow> map (\<lambda>i. cmd (int i)) [0..<length name] = ascii name"

definition which_command :: "(int \<Rightarrow> u8) \<Rightarrow> command" where
  "which_command cmd =
     (if matches ''version'' cmd then Version else if matches ''woof'' cmd then Woof
      else if matches ''shutdown'' cmd then Shutdown else Unknown)"

text \<open>
  The answer. \<open>command\<close> is the address of the block of \<open>max_char_x\<close> bytes that \<open>kalloc\<close> returned for the command,
  \<open>version\<close> that of \<open>KERNEL_VERSION\<close>. \<open>Woof\<close> also asks the kernel for a process, by \<open>int $0x80\<close>; \<open>Shutdown\<close> resets
  the machine, so there is no state after it.
\<close>

definition with_command :: "u32 \<Rightarrow> int \<Rightarrow> (int \<Rightarrow> u8) \<Rightarrow> mem \<Rightarrow> mem" where
  "with_command command n cmd m = (\<lambda>a. if int (off command a) < n then cmd (int (off command a)) else m a)"

definition run_command ::
  "(u32 \<Rightarrow> u32) \<Rightarrow> u8 list \<Rightarrow> mem \<Rightarrow> u32 \<Rightarrow> u32 \<Rightarrow> (int \<Rightarrow> u8) \<Rightarrow> terminal \<Rightarrow> terminal option" where
  "run_command wild stack m version command cmd t =
     (case which_command cmd of
        Version \<Rightarrow> printf wild stack m (ascii ''WordOS kernel version: %t30%s%t10\<newline>'') [version] t
      | Woof \<Rightarrow> printf wild stack m (ascii ''%t54okay%t10\<newline>'') [] t
      | Shutdown \<Rightarrow> None
      | Unknown \<Rightarrow> printf wild stack m (ascii ''Command %t20%s%t10 unknown.\<newline>'') [command] t)"

definition parse_user_chars :: "(u32 \<Rightarrow> u32) \<Rightarrow> u8 list \<Rightarrow> mem \<Rightarrow> u32 \<Rightarrow> u32 \<Rightarrow> terminal \<Rightarrow> terminal option" where
  "parse_user_chars wild stack m version command t =
     Option.bind (parse_loop 2 (user_chars t) (\<lambda>_. 0))
       (\<lambda>cmd. run_command wild stack (with_command command (max_char_x t) cmd m) version command cmd t)"

text \<open>
  One key event of \<open>terminal_loop\<close>. \<open>user_chars\<close> is written to the text buffer up to its terminator.
\<close>

partial_function (option) user_line :: "int \<Rightarrow> terminal \<Rightarrow> u8 list option" where
  "user_line i t = (if user_chars t i = 0 then Some [] else Option.bind (user_line (i + 1) t) (\<lambda>cs. Some (user_chars t i # cs)))"

declare user_line.simps [code]

definition terminal_event ::
  "(u32 \<Rightarrow> u32) \<Rightarrow> u8 list \<Rightarrow> mem \<Rightarrow> u32 \<Rightarrow> u32 \<Rightarrow> key_event \<Rightarrow> terminal \<Rightarrow> terminal option" where
  "terminal_event wild stack m version command event t =
     (if code event = KEY_NULL then Some t
      else
        let keysym = (if masks event AND RELEASE_MASK \<noteq> 0 then 0 else keycode_to_keysym event)
        in if keysym = 0 then Some t
           else
             let t1 = write_user_char keysym t
             in Option.bind
                  (if keysym = 10 then
                     Option.bind (user_line 0 t1) (\<lambda>line. Option.bind (write_text_buffer line t1)
                       (\<lambda>t2. Option.bind (parse_user_chars wild stack m version command t2)
                         (\<lambda>t3. tflush wild (t3\<lparr>user_char_index := 2\<rparr>))))
                   else Some t1)
                  draw_user_chars)"

definition is_term_ready :: "terminal \<Rightarrow> bool" where
  "is_term_ready t = term_ready t"

section \<open>Initialisation\<close>

definition init_terminal :: "(u32 \<Rightarrow> u32) \<Rightarrow> u8 list \<Rightarrow> mem \<Rightarrow> u16 \<Rightarrow> u16 \<Rightarrow> terminal \<Rightarrow> terminal option" where
  "init_terminal wild stack m screen_width screen_height t =
     (let t1 = t\<lparr>max_char_x := uint screen_width div (8 * uint font_size) - 1,
                 max_char_y := uint screen_height div (16 * uint font_size) - 2,
                 text_buffer := (\<lambda>_. 0), user_chars := (\<lambda>_. 0)(0 := of_char CHR ''>'', 1 := 32)\<rparr>
      in Option.bind (printf wild stack m (ascii ''Terminal function: %t70OK!%t10\<newline>'') [] t1)
           (\<lambda>t2. map_option (\<lambda>t3. t3\<lparr>term_ready := True\<rparr>) (tflush wild t2)))"

section \<open>Scrolling drops the first line\<close>

text \<open>The buffer holds the characters \<open>xs\<close> from its start, and zeros after them.\<close>

definition holds :: "(nat \<Rightarrow> u8) \<Rightarrow> u8 list \<Rightarrow> bool" where
  "holds b xs \<longleftrightarrow> 0 \<notin> set xs \<and> (\<forall>i. b i = (if i < length xs then xs ! i else 0))"

lemma first_line_end_eq:
  assumes "\<forall>j<length l. b (i + j) = l ! j" "10 \<notin> set l" "b (i + length l) = 10" "length l < n"
  shows "first_line_end n i b = i + length l + 1"
  using assms
proof (induction l arbitrary: n i)
  case Nil
  then show ?case by (cases n) auto
next
  case (Cons a l)
  obtain m where n: "n = Suc m" using Cons.prems(4) by (cases n) auto
  have "b i \<noteq> 10" using Cons.prems(1,2) by force
  moreover have "first_line_end m (i + 1) b = (i + 1) + length l + 1"
  proof (rule Cons.IH)
    show "\<forall>j<length l. b (i + 1 + j) = l ! j"
    proof (intro allI impI)
      fix j assume "j < length l"
      with Cons.prems(1) have "b (i + Suc j) = (a # l) ! Suc j" by (metis Suc_less_eq length_Cons)
      then show "b (i + 1 + j) = l ! j" by simp
    qed
  qed (use Cons.prems n in auto)
  ultimately show ?case by (simp add: n)
qed

text \<open>Reading past the end of a list gives zero.\<close>

definition padded :: "u8 list \<Rightarrow> nat \<Rightarrow> u8" where
  "padded xs i = (if i < length xs then xs ! i else 0)"

lemma padded_nonzero: "0 \<notin> set xs \<Longrightarrow> i < length xs \<Longrightarrow> padded xs i \<noteq> 0"
  by (metis nth_mem padded_def)

lemma move_back_eq:
  assumes "\<forall>i. b i = (if i < cur then padded xs (i + e) else padded xs i)"
    and "0 \<notin> set xs" "e \<le> length xs" "cur + e \<le> length xs" "length xs - e - cur \<le> n" "1 \<le> e"
  shows "move_back n cur e b =
    (length xs - e, \<lambda>i. if i < length xs - e then padded xs (i + e) else padded xs i)"
  using assms
proof (induction n arbitrary: cur b)
  case 0
  then have "cur = length xs - e" by simp
  with 0(1) show ?case by (simp add: fun_eq_iff)
next
  case (Suc n)
  have at: "b (cur + e) = padded xs (cur + e)"
    using Suc.prems(1,6) by simp
  show ?case
  proof (cases "cur + e = length xs")
    case True
    then have "b (cur + e) = 0" using at by (simp add: padded_def)
    moreover have "cur = length xs - e" using True by simp
    ultimately show ?thesis using Suc.prems(1) by (simp add: fun_eq_iff)
  next
    case False
    then have less: "cur + e < length xs" using Suc.prems(4) by simp
    then have "b (cur + e) \<noteq> 0"
      using at padded_nonzero [OF Suc.prems(2) less] by simp
    moreover have "move_back n (cur + 1) e (b(cur := b (cur + e))) =
        (length xs - e, \<lambda>i. if i < length xs - e then padded xs (i + e) else padded xs i)"
      using Suc.prems less at by (intro Suc.IH) auto
    ultimately show ?thesis by simp
  qed
qed

lemma clear_rest_eq:
  assumes "\<forall>i\<ge>m. b i = padded xs i" "0 \<notin> set xs" "m \<le> length xs"
  shows "clear_rest m b = Some (\<lambda>i. if m \<le> i then 0 else b i)"
  using assms
proof (induction "length xs - m" arbitrary: m b)
  case 0
  then have "b m = 0" "\<forall>i\<ge>m. b i = 0"
    by (simp_all add: padded_def)
  then show ?case
    by (subst clear_rest.simps) (auto simp: fun_eq_iff)
next
  case (Suc k)
  then have less: "m < length xs" by simp
  have "b m \<noteq> 0"
    using Suc.prems(1) padded_nonzero [OF Suc.prems(2) less] by simp
  moreover have "clear_rest (m + 1) (b(m := 0)) = Some (\<lambda>i. if m + 1 \<le> i then 0 else (b(m := 0)) i)"
    using Suc less by (intro Suc.hyps(1)) auto
  ultimately show ?case
    by (subst clear_rest.simps) (auto simp: fun_eq_iff)
qed

lemma scroll_eq:
  assumes b: "holds (text_buffer t) (l @ 10 # rest)" and l: "10 \<notin> set l" "int (length l) < max_char_x t"
    and fit: "int (length (l @ 10 # rest)) \<le> max_char_x t * max_char_y t"
  shows "\<exists>t'. scroll_text_buffer_down t = Some t' \<and> holds (text_buffer t') rest \<and>
    cur_lines t' = cur_lines t - 1 \<and> textbuf_loc t' = textbuf_loc t - of_nat (length l + 1) \<and>
    user_chars t' = user_chars t \<and> screen t' = screen t"
proof -
  let ?xs = "l @ 10 # rest" and ?e = "length l + 1"
  have z: "0 \<notin> set ?xs" and pad: "\<forall>i. text_buffer t i = padded ?xs i"
    using b by (simp_all add: holds_def padded_def)
  have "first_line_end (nat (max_char_x t)) 0 (text_buffer t) = 0 + length l + 1"
    using pad l by (intro first_line_end_eq) (auto simp: padded_def nth_append)
  then have e: "first_line_end (nat (max_char_x t)) 0 (text_buffer t) = ?e" by simp
  let ?n = "nat (max_char_x t * max_char_y t) - ?e" and ?m = "length ?xs - ?e"
  have move: "move_back ?n 0 ?e (text_buffer t) =
      (?m, \<lambda>i. if i < ?m then padded ?xs (i + ?e) else padded ?xs i)"
    by (rule move_back_eq) (use pad z fit in auto)
  have clear: "clear_rest ?m (\<lambda>i. if i < ?m then padded ?xs (i + ?e) else padded ?xs i) =
      Some (\<lambda>i. if ?m \<le> i then 0 else if i < ?m then padded ?xs (i + ?e) else padded ?xs i)"
    by (rule clear_rest_eq) (use z in auto)
  have "holds (\<lambda>i. if ?m \<le> i then 0 else if i < ?m then padded ?xs (i + ?e) else padded ?xs i) rest"
    using z by (auto simp: holds_def padded_def nth_append)
  then show ?thesis
    unfolding scroll_text_buffer_down_def Let_def e move split clear option.map(2)
    by - (rule exI, rule conjI, rule refl, simp)
qed

section \<open>The typed line stays in its buffer\<close>

definition line_ok :: "terminal \<Rightarrow> bool" where
  "line_ok t \<longleftrightarrow> 2 \<le> user_char_index t \<and> uint (user_char_index t) \<le> max_char_x t"

lemma write_user_char_ok:
  assumes "line_ok t" "max_char_x t < 2 ^ 16"
  shows "line_ok (write_user_char ch t) \<and> max_char_x (write_user_char ch t) = max_char_x t \<and>
    (\<forall>i. i < 2 \<or> max_char_x t \<le> i \<longrightarrow> user_chars (write_user_char ch t) i = user_chars t i)"
proof -
  let ?i = "user_char_index t"
  have i: "2 \<le> uint ?i" "uint ?i \<le> max_char_x t"
    using assms(1) by (simp_all add: line_ok_def word_le_def)
  have minus: "uint (?i - 1) = uint ?i - 1"
    using i by (simp add: uint_sub_if')
  have plus: "uint (?i + 1) = uint ?i + 1" if "uint ?i \<noteq> max_char_x t"
    using i that assms(2) by (simp add: uint_plus_if')
  show ?thesis
    using i minus plus
    by (auto simp: write_user_char_def line_ok_def Let_def word_le_def)
qed

section \<open>Properties\<close>

definition demo_terminal :: terminal where
  "demo_terminal = \<lparr>text_buffer = padded [97, 10, 98, 99], user_chars = (\<lambda>_. 0)(0 := 62, 1 := 32), user_char_index = 2,
     textbuf_loc = 4, cur_lines = 1, term_ready = False, max_char_x = 8, max_char_y = 4, term_bg = 0,
     term_fg = 0xf0f0f000, screen = []\<rparr>"

text \<open>
  C30. Scrolling a buffer whose first line ends within the screen width removes exactly that line with
  its newline, moves the remaining text to the start, zeroes everything after it, and adjusts the
  write position and the line count accordingly.
\<close>

theorem scroll_drops_first_line:
  assumes "holds (text_buffer t) (l @ 10 # rest)" and "10 \<notin> set l" and "int (length l) < max_char_x t"
    and "int (length (l @ 10 # rest)) \<le> max_char_x t * max_char_y t"
  shows "\<exists>t'. scroll_text_buffer_down t = Some t' \<and> holds (text_buffer t') rest \<and>
    cur_lines t' = cur_lines t - 1 \<and> textbuf_loc t' = textbuf_loc t - of_nat (length l + 1) \<and>
    user_chars t' = user_chars t \<and> screen t' = screen t"
  by (rule scroll_eq [OF assms])

theorem scroll_drops_first_line_witness:
  "\<exists>t'. scroll_text_buffer_down demo_terminal = Some t' \<and> holds (text_buffer t') [98, 99] \<and>
    cur_lines t' = 0 \<and> textbuf_loc t' = 2 \<and> user_chars t' = user_chars demo_terminal \<and> screen t' = []"
proof -
  have "holds (text_buffer demo_terminal) ([97] @ 10 # [98, 99])"
    by (simp add: holds_def demo_terminal_def padded_def)
  from scroll_drops_first_line [OF this] show ?thesis
    by (simp add: demo_terminal_def)
qed

text \<open>
  Whatever is typed, the input line stays in its buffer: the index stays between the prompt and
  the line width, and the prompt before it and the terminator at the end are never written.
\<close>

theorem typing_stays_in_line:
  assumes "line_ok t" and "max_char_x t < 2 ^ 16"
  shows "line_ok (fold write_user_char cs t) \<and>
    (\<forall>i. i < 2 \<or> max_char_x t \<le> i \<longrightarrow> user_chars (fold write_user_char cs t) i = user_chars t i)"
  using assms
proof (induction cs arbitrary: t)
  case (Cons c cs)
  note step = write_user_char_ok [OF Cons.prems, of c]
  then show ?case
    using Cons.IH [of "write_user_char c t"] Cons.prems(2) by simp
qed simp

theorem typing_stays_in_line_witness:
  "line_ok (fold write_user_char [97, 8, 8, 98] demo_terminal) \<and>
    user_chars (fold write_user_char [97, 8, 8, 98] demo_terminal) 1 = user_chars demo_terminal 1 \<and>
    user_chars (fold write_user_char [97, 8, 8, 98] demo_terminal) 8 = user_chars demo_terminal 8"
proof -
  have m: "max_char_x demo_terminal = 8" and ok: "line_ok demo_terminal" "max_char_x demo_terminal < 2 ^ 16"
    by (simp_all add: line_ok_def demo_terminal_def)
  show ?thesis
    using typing_stays_in_line [OF ok, of "[97, 8, 8, 98]"] unfolding m by (simp only: conj_assoc) simp
qed

end
