(* ===== verification/Heap.thy ===== *)
theory Heap
  imports Kstring
begin

text \<open>
  The kernel heap of \<open>kernel/memory/heap.c\<close>: a contiguous run of blocks from \<open>heap_start\<close> to
  \<open>cur_heap_pos\<close>, each a 16-byte \<open>struct mem_header\<close> followed by its payload. Headers live in a
  typed store \<open>hdr\<close>, payload bytes in \<open>bytes\<close>; the two agree with the single memory of the machine
  as long as no payload write reaches a header, which is what the tiling invariant provides.
\<close>

section \<open>Headers and the heap state\<close>

record mem_header =
  hsize :: u32
  status :: u8
  prev :: u32
  "next" :: u32

abbreviation (input) HEAP_USED :: u8 where
  "HEAP_USED \<equiv> 1"

abbreviation (input) HEAP_FREE :: u8 where
  "HEAP_FREE \<equiv> 0"

definition sizeof_header :: u32 where
  "sizeof_header = 16"

definition HEAP_MIN_SPLIT_SIZE :: u32 where
  "HEAP_MIN_SPLIT_SIZE = 0x20 + sizeof_header"

definition HEAP_START_SIZE :: u32 where
  "HEAP_START_SIZE = 40960"

record heap =
  heap_start :: u32
  cur_heap_pos :: u32
  hdr :: "u32 \<Rightarrow> mem_header"
  bytes :: mem

definition null_header :: mem_header where
  "null_header = \<lparr>hsize = 0, status = 0, prev = 0, next = 0\<rparr>"

definition upd_hdr :: "u32 \<Rightarrow> (mem_header \<Rightarrow> mem_header) \<Rightarrow> heap \<Rightarrow> heap" where
  "upd_hdr a f h = h\<lparr>hdr := (hdr h)(a := f (hdr h a))\<rparr>"

text \<open>The pages at \<open>start\<close> come from \<open>page_kalloc\<close>; they are zeroed, so every header in them is null.\<close>

definition init_heap :: "u32 \<Rightarrow> mem \<Rightarrow> heap" where
  "init_heap start m = \<lparr>heap_start = start, cur_heap_pos = start, hdr = (\<lambda>_. null_header),
     bytes = snd (memset start 0 HEAP_START_SIZE m)\<rparr>"

section \<open>Allocation\<close>

definition round20 :: "u32 \<Rightarrow> u32" where
  "round20 sz = (0x20 - 1 + sz) AND NOT (0x20 - 1)"

definition split_block :: "u32 \<Rightarrow> u32 \<Rightarrow> heap \<Rightarrow> heap" where
  "split_block cur sz h =
     (let split = cur + sz + sizeof_header; c = hdr h cur;
          h1 = upd_hdr split (\<lambda>_. \<lparr>hsize = hsize c - sz - sizeof_header, status = HEAP_FREE,
                 prev = prev c, next = next c\<rparr>) h
      in upd_hdr cur (\<lambda>x. x\<lparr>next := split, hsize := sz\<rparr>) h1)"

definition take_block :: "u32 \<Rightarrow> u32 \<Rightarrow> u32 \<Rightarrow> heap \<Rightarrow> u32 \<times> heap" where
  "take_block cur past sz h =
     (let h1 = (if hsize (hdr h cur) - sz \<ge> HEAP_MIN_SPLIT_SIZE then split_block cur sz h else h)
      in (cur + sizeof_header, upd_hdr cur (\<lambda>x. x\<lparr>status := HEAP_USED, prev := past\<rparr>) h1))"

definition extend_heap :: "u32 \<Rightarrow> u32 \<Rightarrow> heap \<Rightarrow> u32 \<times> heap" where
  "extend_heap past sz h =
     (let cur = cur_heap_pos h;
          h1 = upd_hdr cur (\<lambda>x. x\<lparr>prev := past\<rparr>) h;
          h2 = (if past \<noteq> 0 then upd_hdr past (\<lambda>x. x\<lparr>next := cur\<rparr>) h1 else h1);
          h3 = upd_hdr cur (\<lambda>x. x\<lparr>hsize := sz, status := HEAP_USED\<rparr>) h2
      in (cur + sizeof_header, h3\<lparr>cur_heap_pos := cur + sz + sizeof_header\<rparr>))"

partial_function (option) kalloc_loop :: "u32 \<Rightarrow> u32 \<Rightarrow> u32 \<Rightarrow> heap \<Rightarrow> (u32 \<times> heap) option" where
  "kalloc_loop cur past sz h =
     (if cur < cur_heap_pos h then
        (if hsize (hdr h cur) \<ge> sz \<and> status (hdr h cur) = HEAP_FREE then Some (take_block cur past sz h)
         else kalloc_loop (cur + (hsize (hdr h cur) + sizeof_header)) cur sz h)
      else Some (extend_heap past sz h))"

declare kalloc_loop.simps [code]

definition kalloc :: "u32 \<Rightarrow> heap \<Rightarrow> (u32 \<times> heap) option" where
  "kalloc sz h = kalloc_loop (heap_start h) 0 (round20 sz) h"

section \<open>Freeing\<close>

definition merge_next :: "u32 \<Rightarrow> heap \<Rightarrow> heap" where
  "merge_next node h =
     (let nn = next (hdr h node)
      in if nn \<noteq> 0 \<and> status (hdr h nn) = HEAP_FREE then
           let h1 = upd_hdr node (\<lambda>x. x\<lparr>hsize := hsize x + (hsize (hdr h nn) + sizeof_header)\<rparr>) h;
               h2 = upd_hdr nn (\<lambda>x. x\<lparr>hsize := 0\<rparr>) h1
           in upd_hdr node (\<lambda>x. x\<lparr>next := next (hdr h2 nn)\<rparr>) h2
         else h)"

definition merge_prev :: "u32 \<Rightarrow> u32 \<Rightarrow> heap \<Rightarrow> heap" where
  "merge_prev node np h =
     (if np \<noteq> 0 \<and> status (hdr h np) = HEAP_FREE then
        let h1 = upd_hdr np (\<lambda>x. x\<lparr>hsize := hsize x + (hsize (hdr h node) + sizeof_header)\<rparr>) h;
            h2 = upd_hdr node (\<lambda>x. x\<lparr>hsize := 0, prev := 0\<rparr>) h1;
            h3 = upd_hdr np (\<lambda>x. x\<lparr>next := next (hdr h2 node)\<rparr>) h2;
            nn = next (hdr h3 node)
        in if nn \<noteq> 0 then upd_hdr node (\<lambda>x. x\<lparr>next := 0\<rparr>) (upd_hdr nn (\<lambda>x. x\<lparr>prev := np\<rparr>) h3)
           else h3
      else h)"

text \<open>\<open>node_prev\<close> is read before the merge with the next block.\<close>

definition kfree :: "u32 \<Rightarrow> heap \<Rightarrow> heap" where
  "kfree p h =
     (let node = p - sizeof_header;
          h1 = upd_hdr node (\<lambda>x. x\<lparr>status := HEAP_FREE\<rparr>) h;
          np = prev (hdr h1 node)
      in merge_prev node np (merge_next node h1))"

section \<open>Resizing\<close>

text \<open>Growing into the free next block; \<open>nn\<close> is that block, whose header may be wiped.\<close>

definition grow_block :: "u32 \<Rightarrow> u32 \<Rightarrow> u32 \<Rightarrow> heap \<Rightarrow> heap" where
  "grow_block node nn sz h =
     (let old_size = hsize (hdr h node);
          h1 = upd_hdr node (\<lambda>x. x\<lparr>hsize := sz\<rparr>) h
      in if hsize (hdr h1 nn) + old_size = sz then
           let h2 = upd_hdr node (\<lambda>x. x\<lparr>next := next (hdr h1 nn)\<rparr>) h1
           in upd_hdr nn (\<lambda>_. null_header) h2
                \<lparr>bytes := snd (memset nn 0 (hsize (hdr h2 nn) + sizeof_header) (bytes h2))\<rparr>
         else
           let new_next = node + hsize (hdr h1 node) + sizeof_header;
               h2 = upd_hdr new_next (\<lambda>x. x\<lparr>status := HEAP_FREE\<rparr>) h1;
               h3 = upd_hdr new_next (\<lambda>x. x\<lparr>hsize := hsize (hdr h2 nn) + old_size - sz\<rparr>) h2;
               h4 = upd_hdr new_next (\<lambda>x. x\<lparr>next := next (hdr h3 (next (hdr h3 node)))\<rparr>) h3;
               h5 = upd_hdr new_next (\<lambda>x. x\<lparr>prev := node\<rparr>) h4
           in upd_hdr node (\<lambda>x. x\<lparr>next := new_next\<rparr>) h5)"

definition move_block :: "u32 \<Rightarrow> u32 \<Rightarrow> heap \<Rightarrow> (u32 \<times> heap) option" where
  "move_block p sz h =
     map_option
       (\<lambda>(new_addr, h1).
         let n = hsize (hdr h1 (p - sizeof_header));
             h2 = h1\<lparr>bytes := snd (memcpy new_addr p n (bytes h1))\<rparr>
         in (new_addr, kfree p h2))
       (kalloc sz h)"

definition rekalloc :: "u32 \<Rightarrow> u32 \<Rightarrow> heap \<Rightarrow> (u32 \<times> heap) option" where
  "rekalloc p size0 h =
     (let sz = round20 size0; node = p - sizeof_header; nn = next (hdr h node)
      in if nn = 0 then move_block p sz h
         else if status (hdr h nn) = HEAP_FREE then
           (if hsize (hdr h nn) + hsize (hdr h node) \<ge> sz
            then Some (node + sizeof_header, grow_block node nn sz h)
            else Some (0, h))
         else move_block p sz h)"

section \<open>Tilings\<close>

text \<open>\<open>tiles H a xs b\<close>: the blocks with headers at \<open>xs\<close> cover \<open>a\<close> to \<open>b\<close> without gap or overlap.\<close>

fun tiles :: "(u32 \<Rightarrow> mem_header) \<Rightarrow> u32 \<Rightarrow> u32 list \<Rightarrow> u32 \<Rightarrow> bool" where
  "tiles H a [] b \<longleftrightarrow> a = b"
| "tiles H a (x # xs) b \<longleftrightarrow> x = a \<and> unat a + 16 + unat (hsize (H a)) \<le> unat b \<and>
     tiles H (a + 16 + hsize (H a)) xs b"

definition block_end :: "(u32 \<Rightarrow> mem_header) \<Rightarrow> u32 \<Rightarrow> nat" where
  "block_end H x = unat x + 16 + unat (hsize (H x))"

lemma unat_block_next:
  "unat a + 16 + unat z < 2 ^ 32 \<Longrightarrow> unat (a + 16 + z :: u32) = unat a + 16 + unat z"
  by (simp add: unat_plus_if')

lemma tiles_next:
  assumes "tiles H a (x # xs) b"
  shows "unat (a + 16 + hsize (H a)) = block_end H a" "unat a + 16 \<le> unat b" "a < b"
proof -
  have le: "unat a + 16 + unat (hsize (H a)) \<le> unat b"
    using assms by simp
  then show "unat (a + 16 + hsize (H a)) = block_end H a"
    using unat_lt_u32 [of b] unat_block_next by (simp add: block_end_def)
  from le show "unat a + 16 \<le> unat b" "a < b"
    by (simp_all add: word_less_nat_alt)
qed

lemma tiles_le: "tiles H a xs b \<Longrightarrow> unat a \<le> unat b"
  by (cases xs) auto

lemma tiles_append: "tiles H a (xs @ ys) b \<longleftrightarrow> (\<exists>m. tiles H a xs m \<and> tiles H m ys b \<and> unat m \<le> unat b)"
proof (induction xs arbitrary: a)
  case Nil
  then show ?case using tiles_le by auto
next
  case (Cons x xs)
  show ?case
  proof
    assume L: "tiles H a ((x # xs) @ ys) b"
    then obtain m where m: "tiles H (a + 16 + hsize (H a)) xs m" "tiles H m ys b" "unat m \<le> unat b"
      using Cons.IH by auto
    have "unat (a + 16 + hsize (H a)) = block_end H a"
      using tiles_next(1) [of H a x "xs @ ys" b] L by simp
    with m tiles_le [OF m(1)] L show "\<exists>m. tiles H a (x # xs) m \<and> tiles H m ys b \<and> unat m \<le> unat b"
      by (auto simp: block_end_def)
  next
    assume "\<exists>m. tiles H a (x # xs) m \<and> tiles H m ys b \<and> unat m \<le> unat b"
    then show "tiles H a ((x # xs) @ ys) b"
      using Cons.IH by (auto intro: order_trans)
  qed
qed

lemma tiles_cong:
  "tiles H a xs b \<Longrightarrow> \<forall>x\<in>set xs. hsize (H' x) = hsize (H x) \<Longrightarrow> tiles H' a xs b"
  by (induction xs arbitrary: a) auto

lemma tiles_bounds:
  "tiles H a xs b \<Longrightarrow> x \<in> set xs \<Longrightarrow> unat a \<le> unat x \<and> block_end H x \<le> unat b"
proof (induction xs arbitrary: a)
  case (Cons y ys)
  show ?case
  proof (cases "x = a")
    case True
    then show ?thesis using Cons.prems by (simp add: block_end_def)
  next
    case False
    then have "unat (a + 16 + hsize (H a)) \<le> unat x \<and> block_end H x \<le> unat b"
      using Cons by auto
    then show ?thesis
      using tiles_next(1) [OF Cons.prems(1)] by (simp add: block_end_def)
  qed
qed simp

lemma tiles_apart:
  "tiles H a xs b \<Longrightarrow> x \<in> set xs \<Longrightarrow> y \<in> set xs \<Longrightarrow> x \<noteq> y \<Longrightarrow>
   block_end H x \<le> unat y \<or> block_end H y \<le> unat x"
proof (induction xs arbitrary: a)
  case (Cons z zs)
  have t: "tiles H (a + 16 + hsize (H a)) zs b" "z = a"
    using Cons.prems(1) by simp_all
  have nx: "unat (a + 16 + hsize (H a)) = block_end H a"
    by (rule tiles_next(1) [OF Cons.prems(1)])
  have after: "block_end H a \<le> unat w" if "w \<in> set zs" for w
    using tiles_bounds [OF t(1) that] nx by simp
  show ?case
    using Cons.prems(2-4) Cons.IH [OF t(1)] after t(2) by auto
qed simp

lemma tiles_unique: "tiles H a xs b \<Longrightarrow> tiles H a ys b \<Longrightarrow> xs = ys"
proof (induction xs arbitrary: a ys)
  case Nil
  then show ?case using tiles_next(3) by (cases ys) auto
next
  case (Cons x xs)
  then show ?case using tiles_next(3) [of H b x xs b] by (cases ys) auto
qed

lemma block_end_gt: "unat x + 16 \<le> block_end H x"
  by (simp add: block_end_def)

section \<open>The heap invariant\<close>

definition heap_ok :: "heap \<Rightarrow> u32 list \<Rightarrow> bool" where
  "heap_ok h bs \<longleftrightarrow> tiles (hdr h) (heap_start h) bs (cur_heap_pos h)"

text \<open>The live payloads: address and length of every block in use.\<close>

definition live :: "heap \<Rightarrow> u32 list \<Rightarrow> (u32 \<times> u32) set" where
  "live h bs = {(x + 16, hsize (hdr h x)) | x. x \<in> set bs \<and> status (hdr h x) \<noteq> HEAP_FREE}"

definition fits :: "heap \<Rightarrow> u32 \<Rightarrow> u32 \<Rightarrow> bool" where
  "fits h sz x \<longleftrightarrow> sz \<le> hsize (hdr h x) \<and> status (hdr h x) = HEAP_FREE"

named_theorems heap_simps \<open>reading the heap state after an operation\<close>

lemma upd_hdr_fields [heap_simps]:
  "hdr (upd_hdr a f h) x = (if x = a then f (hdr h a) else hdr h x)"
  "heap_start (upd_hdr a f h) = heap_start h" "cur_heap_pos (upd_hdr a f h) = cur_heap_pos h"
  "bytes (upd_hdr a f h) = bytes h"
  by (simp_all add: upd_hdr_def)

lemma kalloc_loop_cases:
  assumes "tiles (hdr h) cur bs (cur_heap_pos h)"
  shows "(\<exists>xs c ys. bs = xs @ c # ys \<and> fits h sz c \<and> (\<forall>x\<in>set xs. \<not> fits h sz x) \<and>
      kalloc_loop cur past sz h = Some (take_block c (last (past # xs)) sz h)) \<or>
    (\<forall>x\<in>set bs. \<not> fits h sz x) \<and> kalloc_loop cur past sz h = Some (extend_heap (last (past # bs)) sz h)"
  using assms
proof (induction bs arbitrary: cur past)
  case Nil
  then show ?case by (subst kalloc_loop.simps) simp
next
  case (Cons b bs)
  have b: "b = cur" "cur < cur_heap_pos h"
    using Cons.prems tiles_next(3) [OF Cons.prems] by simp_all
  show ?case
  proof (cases "fits h sz cur")
    case True
    then have "kalloc_loop cur past sz h = Some (take_block cur (last (past # [])) sz h)"
      using b by (subst kalloc_loop.simps) (simp add: fits_def)
    with True b show ?thesis
      by (intro disjI1 exI [of _ "[]"] exI [of _ cur] exI [of _ bs]) simp
  next
    case False
    then have eq: "kalloc_loop cur past sz h = kalloc_loop (cur + 16 + hsize (hdr h cur)) cur sz h"
      using b by (subst kalloc_loop.simps) (auto simp: fits_def sizeof_header_def algebra_simps)
    have "tiles (hdr h) (cur + 16 + hsize (hdr h cur)) bs (cur_heap_pos h)"
      using Cons.prems by simp
    from Cons.IH [OF this, of cur] show ?thesis
    proof (elim disjE exE conjE)
      fix xs c ys
      assume "bs = xs @ c # ys" "fits h sz c" "\<forall>x\<in>set xs. \<not> fits h sz x"
        "kalloc_loop (cur + 16 + hsize (hdr h cur)) cur sz h = Some (take_block c (last (cur # xs)) sz h)"
      then show ?thesis
        using False b by (intro disjI1 exI [of _ "cur # xs"] exI [of _ c] exI [of _ ys]) (simp add: eq)
    qed (use False b in \<open>simp add: eq\<close>)
  qed
qed

lemma tiles_distinct: "tiles H a xs b \<Longrightarrow> distinct xs"
proof (induction xs arbitrary: a)
  case (Cons x xs)
  have t: "tiles H (a + 16 + hsize (H a)) xs b" "x = a"
    using Cons.prems by simp_all
  have "a \<notin> set xs"
    using tiles_bounds [OF t(1)] tiles_next(1) [OF Cons.prems] block_end_gt [of a H] by force
  then show ?case
    using Cons.IH [OF t(1)] t(2) by simp
qed simp

lemma heap_ok_block:
  assumes "heap_ok h bs" "x \<in> set bs"
  shows "unat (heap_start h) \<le> unat x" "block_end (hdr h) x \<le> unat (cur_heap_pos h)"
    "unat (x + 16) = unat x + 16"
proof -
  show "unat (heap_start h) \<le> unat x" and le: "block_end (hdr h) x \<le> unat (cur_heap_pos h)"
    using tiles_bounds [of "hdr h" _ bs _ x] assms by (auto simp: heap_ok_def)
  then have "unat x + 16 < 2 ^ 32"
    using block_end_gt [of x "hdr h"] unat_lt_u32 [of "cur_heap_pos h"] by linarith
  then show "unat (x + 16) = unat x + 16"
    by (simp add: unat_plus_if')
qed

text \<open>Replacing one block of a tiling by blocks that cover the same range.\<close>

lemma tiles_replace:
  assumes "tiles H a (xs @ c # ys) b" and "tiles H' c zs (c + 16 + hsize (H c))"
    and "\<forall>x\<in>set (xs @ ys). hsize (H' x) = hsize (H x)"
  shows "tiles H' a (xs @ zs @ ys) b"
proof -
  obtain m where m: "tiles H a xs m" "tiles H m (c # ys) b" "unat m \<le> unat b"
    using assms(1) unfolding tiles_append by blast
  then have c: "m = c" "tiles H (c + 16 + hsize (H c)) ys b"
    by simp_all
  have "tiles H' a xs c" "tiles H' (c + 16 + hsize (H c)) ys b"
    using assms(3) m c by (auto intro: tiles_cong)
  moreover from this have "unat (c + 16 + hsize (H c)) \<le> unat b"
    by (rule_tac tiles_le)
  ultimately show ?thesis
    unfolding tiles_append using assms(2) m(3) c(1) by blast
qed

lemma split_sizes:
  assumes "sz \<le> z" "HEAP_MIN_SPLIT_SIZE \<le> z - sz" "unat c + 16 + unat z < 2 ^ 32"
  shows "unat (c + 16 + sz :: u32) = unat c + 16 + unat sz"
    "unat (c + 16 + sz) + 16 + unat (z - sz - 16) = unat c + 16 + unat z"
    "c + 16 + sz + 16 + (z - sz - 16) = c + 16 + z"
    "unat (c + 16 + z) = unat c + 16 + unat z"
proof -
  have z: "unat (z - sz) = unat z - unat sz" "unat sz \<le> unat z" "48 \<le> unat (z - sz)"
    using assms(1,2) by (simp_all add: unat_sub_if' word_le_nat_alt HEAP_MIN_SPLIT_SIZE_def sizeof_header_def)
  then have w: "unat (z - sz - 16) = unat z - unat sz - 16"
    using unat_sub_if' [of "z - sz" "16 :: u32"] by simp
  show *: "unat (c + 16 + sz) = unat c + 16 + unat sz"
    using unat_block_next [of c sz] assms(3) z by linarith
  show "unat (c + 16 + sz) + 16 + unat (z - sz - 16) = unat c + 16 + unat z"
    unfolding * w using z by linarith
  show "unat (c + 16 + z) = unat c + 16 + unat z"
    by (rule unat_block_next [OF assms(3)])
qed (simp add: algebra_simps)

lemma take_block_ok:
  assumes ok: "heap_ok h (xs @ c # ys)" and fits: "fits h sz c"
  shows "\<exists>h' bs'. take_block c past sz h = (c + 16, h') \<and> heap_ok h' bs' \<and> set (xs @ c # ys) \<subseteq> set bs' \<and>
    (\<forall>x\<in>set (xs @ ys). hdr h' x = hdr h x) \<and> status (hdr h' c) = HEAP_USED \<and> sz \<le> hsize (hdr h' c) \<and>
    (\<forall>x\<in>set bs' - set (xs @ c # ys). status (hdr h' x) = HEAP_FREE) \<and> bytes h' = bytes h"
proof (cases "HEAP_MIN_SPLIT_SIZE \<le> hsize (hdr h c) - sz")
  case False
  define h' where "h' = upd_hdr c (\<lambda>x. x\<lparr>status := HEAP_USED, prev := past\<rparr>) h"
  have "c \<notin> set (xs @ ys)"
    using tiles_distinct ok by (force simp: heap_ok_def)
  moreover have "heap_ok h' (xs @ c # ys)"
    using ok by (auto simp: heap_ok_def h'_def heap_simps elim!: tiles_cong)
  moreover have "take_block c past sz h = (c + 16, h')"
    using False by (simp add: take_block_def h'_def sizeof_header_def)
  ultimately show ?thesis
    using fits by (intro exI [of _ h'] exI [of _ "xs @ c # ys"]) (auto simp: h'_def heap_simps fits_def)
next
  case True
  let ?z = "hsize (hdr h c)" and ?s = "c + 16 + sz"
  have t: "tiles (hdr h) (heap_start h) (xs @ c # ys) (cur_heap_pos h)"
    using ok by (simp add: heap_ok_def)
  have bound: "unat c + 16 + unat ?z \<le> unat (cur_heap_pos h)"
    using heap_ok_block(2) [OF ok, of c] by (simp add: block_end_def)
  then have sizes: "sz \<le> ?z" "HEAP_MIN_SPLIT_SIZE \<le> ?z - sz" "unat c + 16 + unat ?z < 2 ^ 32"
    using True fits unat_lt_u32 [of "cur_heap_pos h"] by (simp_all add: fits_def)
  note s = split_sizes [OF sizes]
  have c_out: "c \<notin> set (xs @ ys)"
    using tiles_distinct [OF t] by auto
  have s_out: "?s \<notin> set (xs @ c # ys)"
  proof
    assume a: "?s \<in> set (xs @ c # ys)"
    moreover have "?s \<noteq> c" using s(1) by force
    ultimately have "block_end (hdr h) c \<le> unat ?s \<or> block_end (hdr h) ?s \<le> unat c"
      using tiles_apart [OF t, of c ?s] by auto
    then show False
      using s(1,2) block_end_gt [of ?s "hdr h"] by (auto simp: block_end_def)
  qed
  define h' where "h' = upd_hdr c (\<lambda>x. x\<lparr>status := HEAP_USED, prev := past\<rparr>) (split_block c sz h)"
  have eq: "take_block c past sz h = (c + 16, h')"
    using True by (simp add: take_block_def h'_def sizeof_header_def)
  have hs: "c + sz + 16 = ?s" by (simp add: algebra_simps)
  have hc: "hsize (hdr h' c) = sz" "status (hdr h' c) = HEAP_USED"
    and hsp: "hsize (hdr h' ?s) = ?z - sz - 16" "status (hdr h' ?s) = HEAP_FREE"
    and other: "\<And>x. x \<noteq> c \<Longrightarrow> x \<noteq> ?s \<Longrightarrow> hdr h' x = hdr h x"
    and rest: "heap_start h' = heap_start h" "cur_heap_pos h' = cur_heap_pos h" "bytes h' = bytes h"
    using s_out by (auto simp: h'_def split_block_def Let_def heap_simps sizeof_header_def hs)
  have same: "\<forall>x\<in>set (xs @ ys). hdr h' x = hdr h x"
  proof
    fix x assume "x \<in> set (xs @ ys)"
    then have "x \<noteq> c" "x \<noteq> ?s" using c_out s_out by auto
    then show "hdr h' x = hdr h x" by (rule other)
  qed
  have "tiles (hdr h') c [c, ?s] (c + 16 + ?z)"
    using s by (simp add: hc hsp)
  then have "tiles (hdr h') (heap_start h) (xs @ [c, ?s] @ ys) (cur_heap_pos h)"
    using same by (intro tiles_replace [OF t]) simp_all
  then have "heap_ok h' (xs @ [c, ?s] @ ys)"
    by (simp add: heap_ok_def rest)
  with eq same show ?thesis
    by (intro exI [of _ h'] exI [of _ "xs @ [c, ?s] @ ys"]) (auto simp: hc hsp rest)
qed

lemma extend_heap_ok:
  assumes ok: "heap_ok h bs" and past: "past = 0 \<or> past \<in> set bs"
    and room: "unat (cur_heap_pos h) + 16 + unat sz < 2 ^ 32"
  shows "\<exists>h'. extend_heap past sz h = (cur_heap_pos h + 16, h') \<and> heap_ok h' (bs @ [cur_heap_pos h]) \<and>
    (\<forall>x\<in>set bs. hsize (hdr h' x) = hsize (hdr h x) \<and> status (hdr h' x) = status (hdr h x)) \<and>
    cur_heap_pos h \<notin> set bs \<and> hsize (hdr h' (cur_heap_pos h)) = sz \<and>
    status (hdr h' (cur_heap_pos h)) = HEAP_USED \<and> bytes h' = bytes h"
proof -
  let ?c = "cur_heap_pos h"
  have out: "?c \<notin> set bs"
    using heap_ok_block(2) [OF ok, of ?c] block_end_gt [of ?c "hdr h"] by force
  define h' where "h' = snd (extend_heap past sz h)"
  have eq: "extend_heap past sz h = (?c + 16, h')"
    by (simp add: extend_heap_def Let_def h'_def sizeof_header_def)
  have h': "hsize (hdr h' ?c) = sz" "status (hdr h' ?c) = HEAP_USED"
      "heap_start h' = heap_start h" "cur_heap_pos h' = ?c + 16 + sz" "bytes h' = bytes h"
      "\<And>x. x \<noteq> ?c \<Longrightarrow> hsize (hdr h' x) = hsize (hdr h x) \<and> status (hdr h' x) = status (hdr h x)"
    by (auto simp: h'_def extend_heap_def Let_def heap_simps sizeof_header_def algebra_simps)
  have "\<forall>x\<in>set bs. hsize (hdr h' x) = hsize (hdr h x)"
    using out h'(6) by metis
  then have "tiles (hdr h') (heap_start h) bs ?c"
    using ok by (auto simp: heap_ok_def elim!: tiles_cong)
  then have "tiles (hdr h') (heap_start h') (bs @ [?c]) (cur_heap_pos h')"
    unfolding tiles_append using room by (auto simp: h'(1,3,4) unat_block_next)
  then have "heap_ok h' (bs @ [?c])"
    by (simp add: heap_ok_def)
  moreover have "\<forall>x\<in>set bs. hsize (hdr h' x) = hsize (hdr h x) \<and> status (hdr h' x) = status (hdr h x)"
    using out h'(6) by metis
  ultimately show ?thesis
    using eq out h'(1,2,5) by blast
qed

text \<open>Allocation from any tiling: the block returned was free or new, everything live stays live.\<close>

definition kalloc_ok :: "u32 \<Rightarrow> heap \<Rightarrow> u32 list \<Rightarrow> u32 \<times> heap \<Rightarrow> u32 list \<Rightarrow> bool" where
  "kalloc_ok sz h bs r bs' \<longleftrightarrow>
     (case r of (p, h') \<Rightarrow> heap_ok h' bs' \<and> bytes h' = bytes h \<and> p - 16 \<in> set bs' \<and>
        status (hdr h' (p - 16)) = HEAP_USED \<and> sz \<le> hsize (hdr h' (p - 16)) \<and>
        live h' bs' = insert (p, hsize (hdr h' (p - 16))) (live h bs) \<and>
        (\<forall>x\<in>set bs. status (hdr h x) \<noteq> HEAP_FREE \<longrightarrow> x \<noteq> p - 16))"

lemma liveI: "x \<in> set bs \<Longrightarrow> status (hdr h x) \<noteq> HEAP_FREE \<Longrightarrow> (x + 16, hsize (hdr h x)) \<in> live h bs"
  by (auto simp: live_def)

lemma live_insert:
  assumes "set bs \<subseteq> set bs'" "c \<in> set bs'" "status (hdr h' c) \<noteq> HEAP_FREE"
    and "\<forall>x\<in>set bs - {c}. hsize (hdr h' x) = hsize (hdr h x) \<and> status (hdr h' x) = status (hdr h x)"
    and "\<forall>x\<in>set bs' - insert c (set bs). status (hdr h' x) = HEAP_FREE"
    and "c \<in> set bs \<Longrightarrow> status (hdr h c) = HEAP_FREE"
  shows "live h' bs' = insert (c + 16, hsize (hdr h' c)) (live h bs)"
proof (intro equalityI subsetI)
  fix e assume "e \<in> live h' bs'"
  then obtain x where x: "e = (x + 16, hsize (hdr h' x))" "x \<in> set bs'" "status (hdr h' x) \<noteq> HEAP_FREE"
    by (auto simp: live_def)
  show "e \<in> insert (c + 16, hsize (hdr h' c)) (live h bs)"
  proof (cases "x = c")
    case False
    then have "x \<in> set bs" using x assms(5) by blast
    with False x assms(4) have "hsize (hdr h' x) = hsize (hdr h x)" "status (hdr h x) \<noteq> HEAP_FREE"
      by auto
    with x \<open>x \<in> set bs\<close> show ?thesis by (auto simp: live_def)
  qed (use x in simp)
next
  fix e assume e: "e \<in> insert (c + 16, hsize (hdr h' c)) (live h bs)"
  show "e \<in> live h' bs'"
  proof (cases "e = (c + 16, hsize (hdr h' c))")
    case False
    then obtain x where x: "e = (x + 16, hsize (hdr h x))" "x \<in> set bs" "status (hdr h x) \<noteq> HEAP_FREE"
      using e by (auto simp: live_def)
    then have "x \<noteq> c" using assms(6) by auto
    then have "hsize (hdr h' x) = hsize (hdr h x)" "status (hdr h' x) = status (hdr h x)"
      using x assms(4) by auto
    then show ?thesis
      using x assms(1) liveI [of x bs' h'] by auto
  qed (use assms(2,3) liveI in auto)
qed

lemma kalloc_correct:
  assumes ok: "heap_ok h bs" and room: "unat (cur_heap_pos h) + 16 + unat (round20 sz) < 2 ^ 32"
  shows "\<exists>r bs'. kalloc sz h = Some r \<and> kalloc_ok (round20 sz) h bs r bs'"
proof -
  have t: "tiles (hdr h) (heap_start h) bs (cur_heap_pos h)"
    using ok by (simp add: heap_ok_def)
  from kalloc_loop_cases [OF t, of "round20 sz" 0] show ?thesis
  proof (elim disjE exE conjE)
    fix xs c ys
    assume bs: "bs = xs @ c # ys" and c: "fits h (round20 sz) c"
      and eq: "kalloc_loop (heap_start h) 0 (round20 sz) h = Some (take_block c (last (0 # xs)) (round20 sz) h)"
    have c_out: "c \<notin> set (xs @ ys)"
      using tiles_distinct [OF t] bs by auto
    obtain h' bs' where h': "take_block c (last (0 # xs)) (round20 sz) h = (c + 16, h')" "heap_ok h' bs'"
        "set bs \<subseteq> set bs'" "\<forall>x\<in>set (xs @ ys). hdr h' x = hdr h x" "status (hdr h' c) = HEAP_USED"
        "round20 sz \<le> hsize (hdr h' c)" "\<forall>x\<in>set bs' - set bs. status (hdr h' x) = HEAP_FREE" "bytes h' = bytes h"
      using take_block_ok [OF ok [unfolded bs] c] unfolding bs by blast
    have "live h' bs' = insert (c + 16, hsize (hdr h' c)) (live h bs)"
      using h' c bs by (intro live_insert) (auto simp: fits_def)
    then have "kalloc_ok (round20 sz) h bs (c + 16, h') bs'"
      using h' c bs by (auto simp: kalloc_ok_def fits_def)
    then show ?thesis
      using eq h'(1) by (auto simp: kalloc_def)
  next
    assume eq: "kalloc_loop (heap_start h) 0 (round20 sz) h = Some (extend_heap (last (0 # bs)) (round20 sz) h)"
    have "last (0 # bs) = 0 \<or> last (0 # bs) \<in> set bs" by simp
    from extend_heap_ok [OF ok this room] obtain h' where
      h': "extend_heap (last (0 # bs)) (round20 sz) h = (cur_heap_pos h + 16, h')" "heap_ok h' (bs @ [cur_heap_pos h])"
        "\<forall>x\<in>set bs. hsize (hdr h' x) = hsize (hdr h x) \<and> status (hdr h' x) = status (hdr h x)"
        "cur_heap_pos h \<notin> set bs" "hsize (hdr h' (cur_heap_pos h)) = round20 sz"
        "status (hdr h' (cur_heap_pos h)) = HEAP_USED" "bytes h' = bytes h"
      by blast
    have "live h' (bs @ [cur_heap_pos h]) = insert (cur_heap_pos h + 16, hsize (hdr h' (cur_heap_pos h))) (live h bs)"
      using h' by (intro live_insert) auto
    then have "kalloc_ok (round20 sz) h bs (cur_heap_pos h + 16, h') (bs @ [cur_heap_pos h])"
      using h' by (auto simp: kalloc_ok_def)
    then show ?thesis
      using eq h'(1) by (auto simp: kalloc_def)
  qed
qed

section \<open>Disjoint payloads\<close>

definition apart :: "u32 \<times> u32 \<Rightarrow> u32 \<times> u32 \<Rightarrow> bool" where
  "apart e f \<longleftrightarrow> unat (fst e) + unat (snd e) \<le> unat (fst f) \<or> unat (fst f) + unat (snd f) \<le> unat (fst e)"

lemma live_apart:
  assumes "heap_ok h bs" "e \<in> live h bs" "f \<in> live h bs" "e \<noteq> f"
  shows "apart e f"
proof -
  obtain x y where x: "e = (x + 16, hsize (hdr h x))" "x \<in> set bs"
    and y: "f = (y + 16, hsize (hdr h y))" "y \<in> set bs"
    using assms(2,3) by (auto simp: live_def)
  then have "x \<noteq> y" using assms(4) by auto
  then have "block_end (hdr h) x \<le> unat y \<or> block_end (hdr h) y \<le> unat x"
    using tiles_apart x(2) y(2) assms(1) unfolding heap_ok_def by blast
  then show ?thesis
    using heap_ok_block(3) [OF assms(1) x(2)] heap_ok_block(3) [OF assms(1) y(2)]
    by (auto simp: apart_def x(1) y(1) block_end_def)
qed

lemma round20_bounds:
  assumes "unat sz + 31 < 2 ^ 32"
  shows "unat sz \<le> unat (round20 sz)" "unat (round20 sz) \<le> unat sz + 31"
proof -
  have "round20 sz = (sz + mask 5) AND NOT (mask 5)"
    by (simp add: round20_def add.commute mask_eq_exp_minus_1)
  then have "unat (round20 sz) = (unat sz + (32 - 1)) div 32 * 32"
    using unat_align_up [of sz 5] assms by simp
  then show "unat sz \<le> unat (round20 sz)" "unat (round20 sz) \<le> unat sz + 31"
    using round_up_bounds [of 32 "unat sz"] by simp_all
qed

section \<open>Freeing keeps the tiling\<close>

lemma tiles_successor:
  assumes "tiles H a bs b" "c \<in> set bs" "d \<in> set bs" "d = c + 16 + hsize (H c)"
  shows "\<exists>xs ys. bs = xs @ c # d # ys"
proof -
  obtain xs zs where bs: "bs = xs @ c # zs"
    using assms(2) by (metis split_list)
  obtain m where m: "tiles H m (c # zs) b"
    using assms(1) unfolding bs tiles_append by blast
  then have t: "tiles H d zs b"
    using assms(4) by simp
  show ?thesis
  proof (cases zs)
    case Nil
    then have "d = b" using t by simp
    then have False
      using tiles_bounds [OF assms(1,3)] block_end_gt [of d H] by simp
    then show ?thesis ..
  next
    case (Cons z ys)
    then show ?thesis using t bs by auto
  qed
qed

lemma successor_end:
  assumes "tiles H a bs b" "c \<in> set bs" "d \<in> set bs" "d = c + 16 + hsize (H c)"
  shows "block_end H c = unat d" "c \<noteq> d"
proof -
  obtain xs ys where bs: "bs = xs @ c # d # ys"
    using tiles_successor [OF assms] by blast
  obtain m where m: "tiles H m (c # d # ys) b"
    using assms(1) unfolding bs tiles_append by blast
  then have "m = c" by simp
  then show "block_end H c = unat d"
    using tiles_next(1) [OF m] assms(4) by simp
  then show "c \<noteq> d"
    using block_end_gt [of c H] by auto
qed

lemma merge_pair_ok:
  assumes ok: "heap_ok h bs" and cd: "c \<in> set bs" "d \<in> set bs" "d = c + 16 + hsize (hdr h c)"
    and st: "status (hdr h c) = HEAP_FREE" "status (hdr h d) = HEAP_FREE" "status (hdr h' c) = HEAP_FREE"
    and pos: "heap_start h' = heap_start h" "cur_heap_pos h' = cur_heap_pos h"
    and c: "hsize (hdr h' c) = hsize (hdr h c) + (hsize (hdr h d) + 16)"
    and other: "\<And>x. x \<noteq> c \<Longrightarrow> x \<noteq> d \<Longrightarrow> hsize (hdr h' x) = hsize (hdr h x) \<and> status (hdr h' x) = status (hdr h x)"
  shows "\<exists>bs'. heap_ok h' bs' \<and> set bs' = set bs - {d} \<and> live h' bs' = live h bs"
proof -
  have t: "tiles (hdr h) (heap_start h) bs (cur_heap_pos h)"
    using ok by (simp add: heap_ok_def)
  obtain xs ys where bs: "bs = xs @ c # d # ys"
    using tiles_successor [OF t cd] by blast
  have dist: "c \<noteq> d" "c \<notin> set xs" "c \<notin> set ys" "d \<notin> set xs" "d \<notin> set ys"
    using tiles_distinct [OF t] by (auto simp: bs)
  obtain m where m: "tiles (hdr h) (heap_start h) xs m" "tiles (hdr h) m (c # d # ys) (cur_heap_pos h)"
      "unat m \<le> unat (cur_heap_pos h)"
    using t unfolding bs tiles_append by blast
  have same: "\<forall>x\<in>set xs. hsize (hdr h' x) = hsize (hdr h x)" "\<forall>x\<in>set ys. hsize (hdr h' x) = hsize (hdr h x)"
    using other dist by metis+
  have mc: "m = c" using m(2) by simp
  have le: "unat c + 16 + unat (hsize (hdr h c)) + 16 + unat (hsize (hdr h d)) \<le> unat (cur_heap_pos h)"
    using m(2) tiles_next(1) [OF m(2)] by (simp add: mc block_end_def cd(3))
  then have "unat (hsize (hdr h' c)) = unat (hsize (hdr h c)) + (unat (hsize (hdr h d)) + 16)"
    using unat_lt_u32 [of "cur_heap_pos h"] by (simp add: c unat_plus_if')
  moreover have nx: "c + 16 + hsize (hdr h' c) = d + 16 + hsize (hdr h d)"
    by (simp add: c cd(3) algebra_simps)
  moreover have "tiles (hdr h) (d + 16 + hsize (hdr h d)) ys (cur_heap_pos h)"
    using m(2) by (simp add: mc cd(3))
  then have "tiles (hdr h') (d + 16 + hsize (hdr h d)) ys (cur_heap_pos h)"
    by (rule tiles_cong) (rule same(2))
  ultimately have "tiles (hdr h') c (c # ys) (cur_heap_pos h)"
    using le by (simp only: tiles.simps nx) simp
  moreover have "tiles (hdr h') (heap_start h) xs c"
    using m(1) same(1) mc by (auto intro: tiles_cong)
  ultimately have "heap_ok h' (xs @ c # ys)"
    using m(3) mc unfolding heap_ok_def pos tiles_append by blast
  moreover have "live h' (xs @ c # ys) = live h bs"
    using st other dist by (auto simp: live_def bs) metis+
  ultimately show ?thesis
    using dist by (intro exI [of _ "xs @ c # ys"]) (auto simp: bs)
qed

lemma merge_next_ok:
  assumes ok: "heap_ok h bs" and node: "node \<in> set bs" "status (hdr h node) = HEAP_FREE"
    and link: "next (hdr h node) = 0 \<or> next (hdr h node) = node + 16 + hsize (hdr h node) \<and> next (hdr h node) \<in> set bs"
  shows "\<exists>bs'. heap_ok (merge_next node h) bs' \<and> node \<in> set bs' \<and> status (hdr (merge_next node h) node) = HEAP_FREE \<and>
    live (merge_next node h) bs' = live h bs \<and>
    (\<forall>x\<in>set bs. block_end (hdr h) x \<le> unat node \<longrightarrow> x \<in> set bs' \<and> hdr (merge_next node h) x = hdr h x)"
proof (cases "next (hdr h node) \<noteq> 0 \<and> status (hdr h (next (hdr h node))) = HEAP_FREE")
  case False
  then have "merge_next node h = h"
    by (auto simp: merge_next_def)
  then show ?thesis
    using ok node by (intro exI [of _ bs]) simp
next
  case True
  let ?n = "next (hdr h node)" and ?h = "merge_next node h"
  have n: "?n = node + 16 + hsize (hdr h node)" "?n \<in> set bs"
    using link True by auto
  note adj = successor_end [OF ok [unfolded heap_ok_def] node(1) n(2,1)]
  then have ne: "?n \<noteq> node" by simp
  have h': "hsize (hdr ?h node) = hsize (hdr h node) + (hsize (hdr h ?n) + 16)" "status (hdr ?h node) = HEAP_FREE"
      "heap_start ?h = heap_start h" "cur_heap_pos ?h = cur_heap_pos h"
    and other: "\<And>x. x \<noteq> node \<Longrightarrow> x \<noteq> ?n \<Longrightarrow> hdr ?h x = hdr h x"
    using True ne node(2) by (simp_all add: merge_next_def Let_def heap_simps sizeof_header_def)
  have "\<exists>bs'. heap_ok ?h bs' \<and> set bs' = set bs - {?n} \<and> live ?h bs' = live h bs"
    by (rule merge_pair_ok [OF ok node(1) n(2,1) node(2) _ h'(2-4,1)]) (use True other in auto)
  then obtain bs' where bs': "heap_ok ?h bs'" "set bs' = set bs - {?n}" "live ?h bs' = live h bs"
    by blast
  have before: "x \<noteq> node \<and> x \<noteq> ?n" if "x \<in> set bs" "block_end (hdr h) x \<le> unat node" for x
    using that(2) adj(1) block_end_gt [of x "hdr h"] block_end_gt [of node "hdr h"] by auto
  show ?thesis
    using bs' node(1) ne h'(2) before other by (intro exI [of _ bs']) auto
qed

lemma merge_prev_ok:
  assumes ok: "heap_ok h bs" and node: "node \<in> set bs" "status (hdr h node) = HEAP_FREE"
    and link: "np = 0 \<or> node = np + 16 + hsize (hdr h np) \<and> np \<in> set bs"
  shows "\<exists>bs'. heap_ok (merge_prev node np h) bs' \<and> live (merge_prev node np h) bs' = live h bs"
proof (cases "np \<noteq> 0 \<and> status (hdr h np) = HEAP_FREE")
  case False
  then have "merge_prev node np h = h"
    by (auto simp: merge_prev_def)
  then show ?thesis
    using ok by (intro exI [of _ bs]) simp
next
  case True
  let ?h = "merge_prev node np h"
  have n: "node = np + 16 + hsize (hdr h np)" "np \<in> set bs"
    using link True by auto
  have ne: "node \<noteq> np"
    using successor_end(2) [OF ok [unfolded heap_ok_def] n(2) node(1) n(1)] by simp
  have h': "hsize (hdr ?h np) = hsize (hdr h np) + (hsize (hdr h node) + 16)" "status (hdr ?h np) = HEAP_FREE"
      "heap_start ?h = heap_start h" "cur_heap_pos ?h = cur_heap_pos h"
    and other: "\<And>x. x \<noteq> np \<Longrightarrow> x \<noteq> node \<Longrightarrow> hsize (hdr ?h x) = hsize (hdr h x) \<and> status (hdr ?h x) = status (hdr h x)"
    using True ne by (auto simp: merge_prev_def Let_def heap_simps sizeof_header_def)
  have "\<exists>bs'. heap_ok ?h bs' \<and> set bs' = set bs - {node} \<and> live ?h bs' = live h bs"
    by (rule merge_pair_ok [OF ok n(2) node(1) n(1) _ node(2) h'(2-4,1)]) (use True other in auto)
  then show ?thesis by blast
qed

text \<open>
  The links \<open>kfree\<close> follows are right when each is NULL or points to the block physically next to
  the one freed.
\<close>

definition links_adjacent :: "heap \<Rightarrow> u32 list \<Rightarrow> u32 \<Rightarrow> bool" where
  "links_adjacent h bs x \<longleftrightarrow>
     (next (hdr h x) = 0 \<or> next (hdr h x) = x + 16 + hsize (hdr h x) \<and> next (hdr h x) \<in> set bs) \<and>
     (prev (hdr h x) = 0 \<or> x = prev (hdr h x) + 16 + hsize (hdr h (prev (hdr h x))) \<and> prev (hdr h x) \<in> set bs)"

lemma kfree_ok:
  assumes ok: "heap_ok h bs" and x: "x \<in> set bs" and links: "links_adjacent h bs x"
  shows "\<exists>bs'. heap_ok (kfree (x + 16) h) bs' \<and> live (kfree (x + 16) h) bs' = live h bs - {(x + 16, hsize (hdr h x))}"
proof -
  define h1 where "h1 = upd_hdr x (\<lambda>n. n\<lparr>status := HEAP_FREE\<rparr>) h"
  let ?np = "prev (hdr h x)"
  have eq: "kfree (x + 16) h = merge_prev x ?np (merge_next x h1)"
    by (simp add: kfree_def Let_def sizeof_header_def h1_def heap_simps)
  have ok1: "heap_ok h1 bs"
    using ok by (auto simp: heap_ok_def h1_def heap_simps elim!: tiles_cong)
  have st1: "status (hdr h1 x) = HEAP_FREE" and hs: "\<And>y. hsize (hdr h1 y) = hsize (hdr h y)"
    and nx: "next (hdr h1 x) = next (hdr h x)"
    by (simp_all add: h1_def heap_simps)
  have live1: "live h1 bs = live h bs - {(x + 16, hsize (hdr h x))}"
    using x by (auto simp: live_def h1_def heap_simps)
  obtain bs2 where bs2: "heap_ok (merge_next x h1) bs2" "x \<in> set bs2" "status (hdr (merge_next x h1) x) = HEAP_FREE"
      "live (merge_next x h1) bs2 = live h1 bs"
      "\<forall>y\<in>set bs. block_end (hdr h1) y \<le> unat x \<longrightarrow> y \<in> set bs2 \<and> hdr (merge_next x h1) y = hdr h1 y"
    using merge_next_ok [OF ok1 x st1] links by (auto simp: links_adjacent_def nx hs)
  have "?np = 0 \<or> x = ?np + 16 + hsize (hdr (merge_next x h1) ?np) \<and> ?np \<in> set bs2"
  proof (cases "?np = 0")
    case False
    then have np: "x = ?np + 16 + hsize (hdr h1 ?np)" "?np \<in> set bs"
      using links by (auto simp: links_adjacent_def hs)
    have "block_end (hdr h1) ?np \<le> unat x"
      using successor_end(1) [OF ok1 [unfolded heap_ok_def] np(2) x np(1)] by simp
    then show ?thesis
      using bs2(5) np by auto
  qed simp
  from merge_prev_ok [OF bs2(1-3) this] show ?thesis
    by (simp add: eq bs2(4) live1)
qed

section \<open>The allocator contract\<close>

text \<open>
  What the kernel's clients of the heap rely on: an allocation with room returns, and the new block
  is at least as long as asked and apart from every block in use.
\<close>

locale block_allocator =
  fixes alloc :: "u32 \<Rightarrow> 'h \<Rightarrow> (u32 \<times> 'h) option"
    and blocks :: "'h \<Rightarrow> (u32 \<times> u32) set"
    and inv :: "'h \<Rightarrow> bool"
    and room :: "u32 \<Rightarrow> 'h \<Rightarrow> bool"
  assumes alloc_returns: "inv h \<Longrightarrow> room n h \<Longrightarrow>
      \<exists>p k h'. alloc n h = Some (p, h') \<and> inv h' \<and> n \<le> k \<and> (p, k) \<notin> blocks h \<and>
        blocks h' = insert (p, k) (blocks h)"
    and blocks_apart: "inv h \<Longrightarrow> e \<in> blocks h \<Longrightarrow> f \<in> blocks h \<Longrightarrow> e \<noteq> f \<Longrightarrow> apart e f"
begin

lemma alloc_apart:
  assumes "inv h" "room n h"
  shows "\<exists>p k h'. alloc n h = Some (p, h') \<and> inv h' \<and> n \<le> k \<and> blocks h' = insert (p, k) (blocks h) \<and>
    (\<forall>e\<in>blocks h. apart e (p, k))"
proof -
  obtain p k h' where *: "alloc n h = Some (p, h')" "inv h'" "n \<le> k" "(p, k) \<notin> blocks h"
      "blocks h' = insert (p, k) (blocks h)"
    using alloc_returns [OF assms] by blast
  then have "apart e (p, k)" if "e \<in> blocks h" for e
    using that by (intro blocks_apart [of h']) auto
  with * show ?thesis by blast
qed

text \<open>Two allocations in a row.\<close>

lemma alloc_twice_apart:
  assumes "inv h" "room n h" "alloc n h = Some (p, h1)" "room m h1" "alloc m h1 = Some (q, h2)"
  shows "\<exists>k l. n \<le> k \<and> m \<le> l \<and> apart (p, k) (q, l) \<and> {(p, k), (q, l)} \<subseteq> blocks h2"
proof -
  obtain k where k: "inv h1" "n \<le> k" "blocks h1 = insert (p, k) (blocks h)"
    using alloc_apart [OF assms(1,2)] assms(3) by auto
  obtain l where l: "m \<le> l" "blocks h2 = insert (q, l) (blocks h1)" "\<forall>e\<in>blocks h1. apart e (q, l)"
    using alloc_apart [OF k(1) assms(4)] assms(5) by auto
  show ?thesis
    using k l by (intro exI [of _ k] exI [of _ l]) auto
qed

end

definition heap_inv :: "heap \<Rightarrow> bool" where
  "heap_inv h \<longleftrightarrow> (\<exists>bs. heap_ok h bs)"

definition heap_blocks :: "heap \<Rightarrow> (u32 \<times> u32) set" where
  "heap_blocks h = {e. \<exists>bs. heap_ok h bs \<and> e \<in> live h bs}"

definition heap_room :: "u32 \<Rightarrow> heap \<Rightarrow> bool" where
  "heap_room n h \<longleftrightarrow> unat (cur_heap_pos h) + unat n + 47 < 2 ^ 32"

lemma heap_ok_unique: "heap_ok h bs \<Longrightarrow> heap_ok h bs' \<Longrightarrow> bs' = bs"
  unfolding heap_ok_def by (rule tiles_unique)

lemma heap_blocks_eq: "heap_ok h bs \<Longrightarrow> heap_blocks h = live h bs"
  using heap_ok_unique by (auto simp: heap_blocks_def)

lemma kalloc_returns:
  assumes "heap_inv h" "heap_room n h"
  shows "\<exists>p k h'. kalloc n h = Some (p, h') \<and> heap_inv h' \<and> n \<le> k \<and> (p, k) \<notin> heap_blocks h \<and>
    heap_blocks h' = insert (p, k) (heap_blocks h) \<and> bytes h' = bytes h"
proof -
  obtain bs where ok: "heap_ok h bs"
    using assms(1) by (auto simp: heap_inv_def)
  have b: "unat n \<le> unat (round20 n)" "unat (round20 n) \<le> unat n + 31"
    using assms(2) by (intro round20_bounds; simp add: heap_room_def)+
  then have "unat (cur_heap_pos h) + 16 + unat (round20 n) < 2 ^ 32"
    using assms(2) by (simp add: heap_room_def)
  from kalloc_correct [OF ok this] obtain p h' bs' where r: "kalloc n h = Some (p, h')"
      "kalloc_ok (round20 n) h bs (p, h') bs'"
    by auto
  let ?k = "hsize (hdr h' (p - 16))"
  have k: "heap_ok h' bs'" "bytes h' = bytes h" "round20 n \<le> ?k" "live h' bs' = insert (p, ?k) (live h bs)"
      "\<forall>x\<in>set bs. status (hdr h x) \<noteq> HEAP_FREE \<longrightarrow> x \<noteq> p - 16"
    using r(2) by (simp_all add: kalloc_ok_def)
  have "(p, ?k) \<notin> live h bs"
    using k(5) by (auto simp: live_def)
  moreover have "n \<le> ?k"
    using b(1) k(3) by (simp add: word_le_nat_alt)
  ultimately show ?thesis
    using r(1) k heap_blocks_eq [OF ok] heap_blocks_eq [OF k(1)] by (auto simp: heap_inv_def)
qed

interpretation heap: block_allocator kalloc heap_blocks heap_inv heap_room
proof unfold_locales
  fix h n assume "heap_inv h" "heap_room n h"
  then show "\<exists>p k h'. kalloc n h = Some (p, h') \<and> heap_inv h' \<and> n \<le> k \<and> (p, k) \<notin> heap_blocks h \<and>
      heap_blocks h' = insert (p, k) (heap_blocks h)"
    using kalloc_returns by blast
next
  fix h e f assume "heap_inv h" "e \<in> heap_blocks h" "f \<in> heap_blocks h" "e \<noteq> f"
  then show "apart e f"
    using heap_blocks_eq live_apart unfolding heap_inv_def by metis
qed

section \<open>Moving a block\<close>

lemma kfree_bytes: "bytes (kfree p h) = bytes h"
  by (simp add: kfree_def merge_next_def merge_prev_def Let_def heap_simps)

lemma apart_range:
  assumes "apart (p, k) (q, l)" "i < unat k" "j < unat l" "unat p + unat k \<le> 2 ^ 32" "unat q + unat l \<le> 2 ^ 32"
  shows "p + of_nat i \<noteq> q + of_nat j"
proof -
  have "unat (p + of_nat i) = unat p + i" "unat (q + of_nat j) = unat q + j"
    using assms by (simp_all add: unat_plus_if' unat_of_nat_u32)
  then show ?thesis
    using assms by (auto simp: apart_def)
qed

lemma live_bound:
  assumes "heap_ok h bs" "(p, k) \<in> live h bs"
  shows "unat p + unat k < 2 ^ 32"
proof -
  obtain x where x: "p = x + 16" "k = hsize (hdr h x)" "x \<in> set bs"
    using assms(2) by (auto simp: live_def)
  show ?thesis
    using heap_ok_block [OF assms(1) x(3)] unat_lt_u32 [of "cur_heap_pos h"]
    by (simp add: x block_end_def)
qed

text \<open>When \<open>rekalloc\<close> has to move: the old contents arrive, nothing else in use is written.\<close>

lemma move_block_ok:
  assumes ok: "heap_ok h bs" and x: "x \<in> set bs" "status (hdr h x) \<noteq> HEAP_FREE"
    and grow: "hsize (hdr h x) \<le> sz" and room: "heap_room sz h"
  shows "\<exists>q h'. move_block (x + 16) sz h = Some (q, h') \<and>
    (\<forall>i<unat (hsize (hdr h x)). bytes h' (q + of_nat i) = bytes h (x + 16 + of_nat i)) \<and>
    (\<forall>e\<in>live h bs. \<forall>i<unat (snd e). bytes h' (fst e + of_nat i) = bytes h (fst e + of_nat i))"
proof -
  have b: "unat sz \<le> unat (round20 sz)" "unat (round20 sz) \<le> unat sz + 31"
    using room by (intro round20_bounds; simp add: heap_room_def)+
  then have "unat (cur_heap_pos h) + 16 + unat (round20 sz) < 2 ^ 32"
    using room by (simp add: heap_room_def)
  from kalloc_correct [OF ok this] obtain q h1 bs1 where r: "kalloc sz h = Some (q, h1)"
      "kalloc_ok (round20 sz) h bs (q, h1) bs1"
    by auto
  let ?k = "hsize (hdr h1 (q - 16))" and ?n = "hsize (hdr h x)"
  have k: "heap_ok h1 bs1" "bytes h1 = bytes h" "round20 sz \<le> ?k" "live h1 bs1 = insert (q, ?k) (live h bs)"
      "\<forall>x\<in>set bs. status (hdr h x) \<noteq> HEAP_FREE \<longrightarrow> x \<noteq> q - 16"
    using r(2) by (simp_all add: kalloc_ok_def)
  have new: "(q, ?k) \<notin> live h bs"
    using k(5) by (auto simp: live_def)
  have fresh: "e \<in> live h bs \<Longrightarrow> apart (q, ?k) e" for e
    using new k(4) by (intro live_apart [OF k(1)]) auto
  have old: "(x + 16, ?n) \<in> live h bs"
    using x by (rule liveI)
  then have "(x + 16, ?n) \<in> live h1 bs1" using k(4) by simp
  then obtain y where "x + 16 = y + 16" "?n = hsize (hdr h1 y)"
    by (auto simp: live_def)
  then have n1: "hsize (hdr h1 x) = ?n" by simp
  have nk: "unat ?n \<le> unat ?k"
    using grow b k(3) by (simp add: word_le_nat_alt)
  have bq: "unat q + unat ?k < 2 ^ 32"
    using live_bound [OF k(1)] k(4) by simp
  have bx: "unat (x + 16) + unat ?n < 2 ^ 32"
    using live_bound [OF ok old] .
  define h' where "h' = kfree (x + 16) (h1\<lparr>bytes := snd (memcpy q (x + 16) ?n (bytes h1))\<rparr>)"
  have eq: "move_block (x + 16) sz h = Some (q, h')"
    using r(1) n1 by (simp add: move_block_def h'_def sizeof_header_def Let_def)
  have by': "bytes h' = snd (memcpy q (x + 16) ?n (bytes h))"
    by (simp add: h'_def kfree_bytes k(2))
  have copied: "bytes h' (q + of_nat i) = bytes h (x + 16 + of_nat i)" if "i < unat ?n" for i
  proof -
    have "unat ?n \<le> unat (q - (x + 16))"
      using fresh [OF old] bx nk unat_lt_u32 [of q]
      by (auto simp: apart_def unat_sub_if')
    then show ?thesis
      using memcpy_forward_safe that by (simp add: by')
  qed
  have kept: "bytes h' (fst e + of_nat i) = bytes h (fst e + of_nat i)" if "e \<in> live h bs" "i < unat (snd e)" for e i
  proof -
    have "unat (fst e + of_nat i - q) \<ge> unat ?n"
    proof (rule ccontr)
      assume "\<not> unat ?n \<le> unat (fst e + of_nat i - q)"
      then have "unat (fst e + of_nat i - q) < unat ?k" using nk by simp
      moreover have "apart (q, ?k) (fst e, snd e)" "unat (fst e) + unat (snd e) < 2 ^ 32"
        using fresh [OF that(1)] live_bound [OF ok, of "fst e" "snd e"] that(1) by simp_all
      ultimately have "q + of_nat (unat (fst e + of_nat i - q)) \<noteq> fst e + of_nat i"
        using that(2) bq by (intro apart_range [of q ?k "fst e" "snd e"]) simp_all
      then show False by simp
    qed
    then show ?thesis
      by (simp add: by' memcpy_eq)
  qed
  show ?thesis
    using eq copied kept by blast
qed

section \<open>Properties\<close>

text \<open>A heap at 0x1000 with up to three headers, used by the witnesses and the trace below.\<close>

definition demo_heap :: "u32 \<Rightarrow> mem_header \<Rightarrow> mem_header \<Rightarrow> mem_header \<Rightarrow> heap" where
  "demo_heap pos x y z = \<lparr>heap_start = 0x1000, cur_heap_pos = pos,
     hdr = (\<lambda>_. null_header)(0x1000 := x, 0x1030 := y, 0x10B0 := z), bytes = (\<lambda>_. 0)\<rparr>"

definition demo_used :: heap where
  "demo_used = demo_heap 0x1030 \<lparr>hsize = 32, status = 1, prev = 0, next = 0\<rparr> null_header null_header"

lemma demo_used_ok: "heap_ok demo_used [0x1000]"
  by (simp add: heap_ok_def demo_used_def demo_heap_def)

lemma demo_used_live: "live demo_used [0x1000] = {(0x1010, 32)}"
  by (auto simp: live_def demo_used_def demo_heap_def)



text \<open>
  C17. Freeing a block whose links are NULL or point to its physical neighbours removes exactly that
  block from the live ones, and the heap is tiled again, whichever neighbours were merged.
\<close>

theorem kfree_releases:
  assumes "heap_ok h bs" and "x \<in> set bs" and "links_adjacent h bs x"
  shows "\<exists>bs'. heap_ok (kfree (x + 16) h) bs' \<and>
    live (kfree (x + 16) h) bs' = live h bs - {(x + 16, hsize (hdr h x))}"
  by (rule kfree_ok [OF assms])

theorem kfree_releases_witness:
  "\<exists>bs'. heap_ok (kfree 0x1010 demo_used) bs' \<and> live (kfree 0x1010 demo_used) bs' = {}"
proof -
  have "links_adjacent demo_used [0x1000] 0x1000"
    by (simp add: links_adjacent_def demo_used_def demo_heap_def)
  from kfree_releases [OF demo_used_ok _ this] show ?thesis
    by (simp add: demo_used_live) (simp add: demo_used_def demo_heap_def)
qed



lemmas demo_eval = demo_heap_def kalloc_def round20_def null_header_def take_block_def extend_heap_def
  split_block_def upd_hdr_def sizeof_header_def HEAP_MIN_SPLIT_SIZE_def kfree_def merge_next_def
  merge_prev_def Let_def

text \<open>The steps of a run that allocates 160 and 32 bytes and reuses the first block for 32 and 96.\<close>

lemma demo1: "kalloc 160 (demo_heap 0x1000 null_header null_header null_header) =
   Some (0x1010, demo_heap 0x10B0 \<lparr>hsize = 160, status = 1, prev = 0, next = 0\<rparr> null_header null_header)"
  by (simp add: demo_eval, subst kalloc_loop.simps, simp add: demo_eval fun_upd_twist)

lemma demo2: "kalloc 32 (demo_heap 0x10B0 \<lparr>hsize = 160, status = 1, prev = 0, next = 0\<rparr> null_header null_header) =
   Some (0x10C0, demo_heap 0x10E0 \<lparr>hsize = 160, status = 1, prev = 0, next = 0x10B0\<rparr> null_header
     \<lparr>hsize = 32, status = 1, prev = 0x1000, next = 0\<rparr>)"
  by (simp add: demo_eval, (subst kalloc_loop.simps, simp add: demo_eval)+, auto simp: fun_eq_iff)

lemma demo3: "kalloc 32 (kfree 0x1010 (demo_heap 0x10E0 \<lparr>hsize = 160, status = 1, prev = 0, next = 0x10B0\<rparr> null_header
     \<lparr>hsize = 32, status = 1, prev = 0x1000, next = 0\<rparr>)) =
   Some (0x1010, demo_heap 0x10E0 \<lparr>hsize = 32, status = 1, prev = 0, next = 0x1030\<rparr>
     \<lparr>hsize = 112, status = 0, prev = 0, next = 0x10B0\<rparr> \<lparr>hsize = 32, status = 1, prev = 0x1000, next = 0\<rparr>)"
  by (simp add: demo_eval, subst kalloc_loop.simps, simp add: demo_eval, auto simp: fun_eq_iff)

lemma demo4: "kalloc 96 (demo_heap 0x10E0 \<lparr>hsize = 32, status = 1, prev = 0, next = 0x1030\<rparr>
     \<lparr>hsize = 112, status = 0, prev = 0, next = 0x10B0\<rparr> \<lparr>hsize = 32, status = 1, prev = 0x1000, next = 0\<rparr>) =
   Some (0x1040, demo_heap 0x10E0 \<lparr>hsize = 32, status = 1, prev = 0, next = 0x1030\<rparr>
     \<lparr>hsize = 112, status = 1, prev = 0x1000, next = 0x10B0\<rparr> \<lparr>hsize = 32, status = 1, prev = 0x1000, next = 0\<rparr>)"
  by (simp add: demo_eval, (subst kalloc_loop.simps, simp add: demo_eval)+, auto simp: fun_eq_iff)

lemma demo5: "kalloc 64 (kfree 0x10C0 (kfree 0x1010 (demo_heap 0x10E0 \<lparr>hsize = 32, status = 1, prev = 0, next = 0x1030\<rparr>
     \<lparr>hsize = 112, status = 1, prev = 0x1000, next = 0x10B0\<rparr> \<lparr>hsize = 32, status = 1, prev = 0x1000, next = 0\<rparr>))) =
   Some (0x1010, demo_heap 0x10E0 \<lparr>hsize = 80, status = 1, prev = 0, next = 0\<rparr>
     \<lparr>hsize = 112, status = 1, prev = 0x1000, next = 0x10B0\<rparr> \<lparr>hsize = 0, status = 0, prev = 0, next = 0\<rparr>)"
  by (simp add: demo_eval, subst kalloc_loop.simps, simp add: demo_eval, auto simp: fun_eq_iff)


end
