(* ===== verification/Arraylist.thy ===== *)
theory Arraylist
  imports Heap Bytes
begin

text \<open>
  The growable array of \<open>utils/arraylist.c\<close> in the bytes of the kernel heap. The struct has the
  element size at offset 0, the 16-bit count and capacity at 4 and 6, and the elements from offset
  8 on, where the member \<open>data\<close> is.
\<close>

section \<open>The operations\<close>

definition al_dt_size :: "mem \<Rightarrow> u32 \<Rightarrow> u32" where
  "al_dt_size m al = get32 m al"

definition al_count :: "mem \<Rightarrow> u32 \<Rightarrow> u16" where
  "al_count m al = get16 m (al + 4)"

definition al_max_count :: "mem \<Rightarrow> u32 \<Rightarrow> u16" where
  "al_max_count m al = get16 m (al + 6)"

definition sizeof_array_list :: u32 where
  "sizeof_array_list = 12"

definition create_array_list :: "u16 \<Rightarrow> heap \<Rightarrow> (u32 \<times> heap) option" where
  "create_array_list data_type_size h =
     map_option
       (\<lambda>(al, h1). (al, h1\<lparr>bytes :=
          put32 al (ucast data_type_size)
            (put16 (al + 6) 1 (snd (memset al 0 (ucast data_type_size + sizeof_array_list) (bytes h1))))\<rparr>))
       (kalloc (ucast data_type_size + sizeof_array_list) h)"

text \<open>
  Growing: \<open>rekalloc\<close> can answer NULL, and the store to \<open>new_al->max_count\<close> is then a page fault.
\<close>

definition al_grow :: "u32 \<Rightarrow> heap \<Rightarrow> (u32 \<times> heap) outcome" where
  "al_grow al h =
     (let new_max = ucast (al_max_count (bytes h) al) * 2; new_size = new_max * al_dt_size (bytes h) al + sizeof_array_list
      in Option.bind (rekalloc al new_size h)
           (\<lambda>(new_al, h1). if new_al = 0 then Some (Inl (PageFault 6))
              else Some (Inr (new_al, h1\<lparr>bytes := put16 (new_al + 6) (ucast (new_max :: u32)) (bytes h1)\<rparr>))))"

definition al_store :: "u32 \<Rightarrow> u32 \<Rightarrow> mem \<Rightarrow> mem" where
  "al_store al item m =
     (let data_addr = al + 8 + ucast (al_count m al) * al_dt_size m al;
          m1 = snd (memcpy data_addr item (al_dt_size m al) m)
      in put16 (al + 4) (al_count m1 al + 1) m1)"

definition al_add_item :: "u32 \<Rightarrow> u32 \<Rightarrow> heap \<Rightarrow> (u32 \<times> heap) outcome" where
  "al_add_item al item h =
     bind_out (if al_count (bytes h) al = al_max_count (bytes h) al then al_grow al h else Some (Inr (al, h)))
       (\<lambda>(al1, h1). Some (Inr (al1, h1\<lparr>bytes := al_store al1 item (bytes h1)\<rparr>)))"

text \<open>The bound is \<open>index > count\<close>: one past the end is let through.\<close>

definition al_get :: "u32 \<Rightarrow> u32 \<Rightarrow> mem \<Rightarrow> u32" where
  "al_get al index m =
     (if index > ucast (al_count m al) then 0 else al + 8 + index * al_dt_size m al)"

fun shift_items :: "nat \<Rightarrow> u32 \<Rightarrow> u32 \<Rightarrow> mem \<Rightarrow> u32 \<times> mem" where
  "shift_items 0 p d m = (p, m)"
| "shift_items (Suc n) p d m = shift_items n (p + d) d (snd (memcpy p (p + d) d m))"

text \<open>The loop variable is an \<open>int\<close>. A NULL start faults at the first access, if there is one.\<close>

definition al_delete_item :: "u32 \<Rightarrow> u32 \<Rightarrow> mem \<Rightarrow> mem result" where
  "al_delete_item al index m =
     (let start = al_get al index m; d = al_dt_size m al; n = nat (uint (al_count m al) - 1 - sint index)
      in if start = 0 \<and> d \<noteq> 0 then Inl (PageFault (if n = 0 then 0 else d))
         else let (p, m1) = shift_items n start d m; m2 = snd (memset p 0 d m1)
              in Inr (put16 (al + 4) (al_count m2 al - 1) m2))"

section \<open>Contents\<close>

definition al_size :: "mem \<Rightarrow> u32 \<Rightarrow> nat" where
  "al_size m al = unat (al_dt_size m al)"

definition al_length :: "mem \<Rightarrow> u32 \<Rightarrow> nat" where
  "al_length m al = unat (al_count m al)"

text \<open>The elements of a list, one after the other, as bytes; and element \<open>i\<close>.\<close>

definition payload :: "mem \<Rightarrow> u32 \<Rightarrow> u8 list" where
  "payload m al = map (\<lambda>k. m (al + 8 + of_nat k)) [0..<al_length m al * al_size m al]"

text \<open>The storage of the list, which has room for \<open>max_count\<close> elements, does not wrap.\<close>

definition al_ok :: "mem \<Rightarrow> u32 \<Rightarrow> bool" where
  "al_ok m al \<longleftrightarrow> al_length m al \<le> unat (al_max_count m al) \<and>
     8 + unat (al_max_count m al) * al_size m al < 2 ^ 31"

text \<open>Bytes from offset 8 on do not matter for the header, nor the header's for them.\<close>

lemma header_cong:
  assumes "\<And>k. k < 8 \<Longrightarrow> m' (al + of_nat k) = m (al + of_nat k)"
  shows "al_dt_size m' al = al_dt_size m al" "al_count m' al = al_count m al" "al_max_count m' al = al_max_count m al"
    "al_size m' al = al_size m al" "al_length m' al = al_length m al"
proof -
  have "al_dt_size m' al = al_dt_size m al"
    unfolding al_dt_size_def by (rule get32_cong) (simp add: assms)
  moreover have "al_count m' al = al_count m al"
    unfolding al_count_def using assms [of 4] assms [of 5] by (intro get16_cong) (simp_all add: add.assoc)
  moreover have "al_max_count m' al = al_max_count m al"
    unfolding al_max_count_def using assms [of 6] assms [of 7] by (intro get16_cong) (simp_all add: add.assoc)
  ultimately show "al_dt_size m' al = al_dt_size m al" "al_count m' al = al_count m al" "al_max_count m' al = al_max_count m al"
    "al_size m' al = al_size m al" "al_length m' al = al_length m al"
    by (simp_all add: al_size_def al_length_def)
qed

text \<open>Writing the count changes the count alone.\<close>

lemma put_count:
  "al_count (put16 (al + 4) c m) al = c"
  "al_dt_size (put16 (al + 4) c m) al = al_dt_size m al"
  "al_max_count (put16 (al + 4) c m) al = al_max_count m al"
  "4 \<le> k \<Longrightarrow> k < 2 ^ 31 \<Longrightarrow> put16 (al + 4) c m (al + 4 + of_nat k) = m (al + 4 + of_nat k)"
proof -
  show "al_count (put16 (al + 4) c m) al = c"
    by (simp add: al_count_def)
  show "al_dt_size (put16 (al + 4) c m) al = al_dt_size m al"
    unfolding al_dt_size_def
  proof (rule get32_cong)
    fix i :: nat assume "i < 4"
    then have "2 \<le> off (al + of_nat 4) (al + of_nat i)"
      by (subst off_behind) simp_all
    then show "put16 (al + 4) c m (al + of_nat i) = m (al + of_nat i)"
      by (simp add: far)
  qed
  have "2 \<le> off (al + 4) (al + 6)" "2 \<le> off (al + 4) (al + 6 + 1)"
    using off_eqI [of 2 "al + 6" "al + 4"] off_eqI [of 3 "al + 6 + 1" "al + 4"] by (simp_all add: add.assoc)
  then show "al_max_count (put16 (al + 4) c m) al = al_max_count m al"
    unfolding al_max_count_def by (intro get16_cong) (simp_all add: far)
  show "put16 (al + 4) c m (al + 4 + of_nat k) = m (al + 4 + of_nat k)" if "4 \<le> k" "k < 2 ^ 31"
    using that off_eqI [of k "al + 4 + of_nat k" "al + 4"] by (simp add: far)
qed

section \<open>Appending\<close>

lemma al_base: "al + 8 + of_nat k = (al + of_nat (8 + k) :: u32)"
  by simp

lemma data_addr_eq:
  "al + 8 + ucast (al_count m al) * al_dt_size m al = al + of_nat (8 + al_length m al * al_size m al)"
  by (simp add: al_length_def al_size_def)

lemma in_storage:
  assumes "al_ok m al" "i < al_length m al" "j < al_size m al"
  shows "i * al_size m al + j < al_length m al * al_size m al"
    "al_length m al * al_size m al \<le> unat (al_max_count m al) * al_size m al"
proof -
  have "Suc i * al_size m al \<le> al_length m al * al_size m al"
    using assms(2) by (intro mult_right_mono) simp_all
  then show "i * al_size m al + j < al_length m al * al_size m al"
    using assms(3) by simp
  show "al_length m al * al_size m al \<le> unat (al_max_count m al) * al_size m al"
    using assms(1) by (intro mult_right_mono) (simp_all add: al_ok_def)
qed

lemma al_store_ok:
  assumes ok: "al_ok m al" and room: "al_length m al < unat (al_max_count m al)"
    and src: "al_size m al \<le> off item (al + of_nat (8 + al_length m al * al_size m al))"
  shows "payload (al_store al item m) al = payload m al @ map (\<lambda>j. m (item + of_nat j)) [0..<al_size m al]"
    and "al_ok (al_store al item m) al" and "al_length (al_store al item m) al = Suc (al_length m al)"
    and "al_size (al_store al item m) al = al_size m al"
proof -
  let ?d = "al_size m al" and ?n = "al_length m al" and ?M = "unat (al_max_count m al)"
  let ?p = "al + of_nat (8 + ?n * ?d)"
  define m1 where "m1 = snd (memcpy ?p item (al_dt_size m al) m)"
  have "Suc ?n * ?d \<le> ?M * ?d"
    using room by (intro mult_right_mono) simp_all
  then have bnd: "8 + ?n * ?d + ?d < 2 ^ 31"
    using ok by (simp add: al_ok_def)
  have old: "m1 (al + of_nat k) = m (al + of_nat k)" if "k < 8 + ?n * ?d" for k
  proof -
    have "?d \<le> off ?p (al + of_nat k)"
      using that bnd by (subst off_behind) simp_all
    then show ?thesis by (simp add: m1_def far al_size_def)
  qed
  have new: "m1 (al + of_nat (8 + ?n * ?d + j)) = m (item + of_nat j)" if "j < ?d" for j
  proof -
    have "m1 (?p + of_nat j) = m (item + of_nat j)"
      unfolding m1_def using src that by (intro memcpy_forward_safe) (simp_all add: al_size_def off_def)
    then show ?thesis by (simp add: add.assoc)
  qed
  have hd1: "al_dt_size m1 al = al_dt_size m al" "al_count m1 al = al_count m al" "al_max_count m1 al = al_max_count m al"
    using header_cong [of m1 al m] old by simp_all
  have st: "al_store al item m = put16 (al + 4) (al_count m al + 1) m1"
    unfolding al_store_def data_addr_eq Let_def m1_def [symmetric] hd1 ..
  have len: "unat (al_count m al + 1) = Suc ?n"
  proof -
    have "unat (al_max_count m al) < 2 ^ 16"
      using unsigned_less [of "al_max_count m al"] by simp
    then show ?thesis
      using room by (simp add: al_length_def unat_word_ariths)
  qed
  show len': "al_length (al_store al item m) al = Suc ?n" "al_size (al_store al item m) al = ?d"
    by (simp_all add: st al_length_def al_size_def put_count hd1 len)
  then show "al_ok (al_store al item m) al"
    using ok room by (simp add: al_ok_def) (simp add: st put_count hd1)
  have byte: "al_store al item m (al + of_nat (8 + k)) = m1 (al + of_nat (8 + k))" if "8 + k < 2 ^ 31" for k
  proof -
    have "al + of_nat (8 + k) = al + 4 + of_nat (4 + k)"
      by simp
    then show ?thesis
      using that put_count(4) [of "4 + k" al "al_count m al + 1" m1] by (simp only: st)
  qed
  show "payload (al_store al item m) al = payload m al @ map (\<lambda>j. m (item + of_nat j)) [0..<?d]"
  proof (rule nth_equalityI)
    fix k assume "k < length (payload (al_store al item m) al)"
    then have k: "k < ?n * ?d + ?d"
      using len' by (simp add: payload_def)
    then have "payload (al_store al item m) al ! k = m1 (al + of_nat (8 + k))"
      using len' bnd byte [of k] by (simp only: payload_def al_base) simp
    also have "\<dots> = (payload m al @ map (\<lambda>j. m (item + of_nat j)) [0..<?d]) ! k"
    proof (cases "k < ?n * ?d")
      case True
      then show ?thesis
        using old [of "8 + k"] by (simp only: payload_def al_base nth_append) simp
    next
      case False
      then obtain j where j: "k = ?n * ?d + j" "j < ?d"
        using k by (metis le_add_diff_inverse nat_add_left_cancel_less not_less)
      then show ?thesis
        using new [of j] by (simp add: payload_def nth_append add.assoc)
    qed
    finally show "payload (al_store al item m) al ! k = (payload m al @ map (\<lambda>j. m (item + of_nat j)) [0..<?d]) ! k" .
  qed (use len' in \<open>simp add: payload_def\<close>)
qed

section \<open>Deleting\<close>

lemma length_payload: "length (payload m al) = al_length m al * al_size m al"
  by (simp add: payload_def)

lemma payload_nth: "k < al_length m al * al_size m al \<Longrightarrow> payload m al ! k = m (al + of_nat (8 + k))"
  by (simp add: payload_def add.assoc)

lemma shift_items_eq:
  "(n + 2) * unat d \<le> 2 ^ 32 \<Longrightarrow> shift_items n p d m =
     (p + of_nat n * d, \<lambda>a. if off p a < n * unat d then m (a + d) else m a)"
proof (induction n arbitrary: p m)
  case 0
  then show ?case by simp
next
  case (Suc n)
  let ?d = "unat d"
  define m1 where "m1 = snd (memcpy p (p + d) d m)"
  have bnd: "n * ?d + ?d + ?d + ?d \<le> 2 ^ 32"
    using Suc.prems by (simp add: algebra_simps)
  have m1: "m1 a = (if off p a < ?d then m (a + d) else m a)" for a
  proof (cases "off p a < ?d")
    case True
    have "unat (p - (p + d)) = 2 ^ 32 - ?d"
      using off_behind [of 0 ?d p] True unat_lt_u32 [of d] by (simp add: off_def)
    have "m1 (p + of_nat (off p a)) = m (p + d + of_nat (off p a))"
    proof -
      have "?d \<le> 2 ^ 32 - ?d"
        using bnd by linarith
      then show ?thesis
        unfolding m1_def using True \<open>unat (p - (p + d)) = 2 ^ 32 - ?d\<close> by (intro memcpy_forward_safe) simp_all
    qed
    then show ?thesis
      using True by (simp add: off_def algebra_simps)
  qed (simp add: m1_def far)
  have step: "(if off (p + d) a < n * ?d then m1 (a + d) else m1 a) = (if off p a < Suc n * ?d then m (a + d) else m a)" for a
  proof -
    have a: "p + of_nat (off p a) = a" "off p a < 2 ^ 32"
      using unat_lt_u32 [of "a - p"] by (simp_all add: off_def)
    have pd: "p + of_nat ?d = p + d"
      by simp
    consider "off p a < ?d" | "?d \<le> off p a" "off p a < Suc n * ?d" | "Suc n * ?d \<le> off p a"
      by linarith
    then show ?thesis
    proof cases
      case 1
      then have "off (p + d) a = 2 ^ 32 - (?d - off p a)"
        using off_behind [of "off p a" ?d p] unat_lt_u32 [of d] unfolding a(1) pd by simp
      moreover have "n * ?d \<le> 2 ^ 32 - (?d - off p a)"
        using bnd 1 by linarith
      ultimately show ?thesis using 1 by (simp add: m1)
    next
      case 2
      have o: "off (p + d) a = off p a - ?d"
        using off_add [of ?d "off p a" p] 2 a(2) unfolding a(1) pd by simp
      have "a + d = p + of_nat (off p a + ?d)"
        by (simp add: off_def)
      then have "off p (a + d) = off p a + ?d"
        using 2 bnd off_eqI [of "off p a + ?d" "a + d" p] by simp
      moreover have "off p a - ?d < n * ?d"
        using 2 by (simp add: less_diff_conv2)
      ultimately show ?thesis using 2 o by (simp add: m1)
    next
      case 3
      have "off (p + d) a = off p a - ?d"
        using off_add [of ?d "off p a" p] 3 a(2) unfolding a(1) pd by simp
      moreover have "\<not> off p a - ?d < n * ?d" "\<not> off p a < ?d"
        using 3 by (simp_all add: less_diff_conv2)
      ultimately show ?thesis using 3 by (simp add: m1)
    qed
  qed
  have "(n + 2) * ?d \<le> 2 ^ 32"
    using Suc.prems by simp
  then have "shift_items n (p + d) d m1 = (p + of_nat (Suc n) * d, \<lambda>a. if off p a < Suc n * ?d then m (a + d) else m a)"
    using Suc.IH [of "p + d" m1] step by (simp add: algebra_simps)
  then show ?case
    by (simp only: shift_items.simps m1_def)
qed

text \<open>Removing a block of \<open>d\<close> elements at position \<open>i\<close>.\<close>

definition cut_out :: "nat \<Rightarrow> nat \<Rightarrow> 'b list \<Rightarrow> 'b list" where
  "cut_out i d xs = take i xs @ drop (i + d) xs"

lemma al_delete_ok:
  assumes ok: "al_ok m al" and i: "unat index < al_length m al" and al: "al \<noteq> 0" "unat al < 2 ^ 31"
  shows "\<exists>m'. al_delete_item al index m = Inr m' \<and>
    payload m' al = cut_out (unat index * al_size m al) (al_size m al) (payload m al) \<and>
    al_length m' al = al_length m al - 1 \<and> al_size m' al = al_size m al \<and> al_ok m' al"
proof -
  let ?d = "al_size m al" and ?n = "al_length m al" and ?i = "unat index"
  let ?k = "?n - 1 - ?i"
  define p where "p = al + of_nat (8 + ?i * ?d)"
  have dw: "unat (al_dt_size m al) = ?d"
    by (simp add: al_size_def)
  have n16: "?n < 2 ^ 16"
    using unsigned_less [of "al_count m al"] by (simp add: al_length_def)
  have "?n * ?d \<le> unat (al_max_count m al) * ?d"
    using ok by (intro mult_right_mono) (simp_all add: al_ok_def)
  moreover have "8 + unat (al_max_count m al) * ?d < 2 ^ 31"
    using ok by (simp add: al_ok_def)
  ultimately have bnd: "8 + ?n * ?d < 2 ^ 31"
    by linarith
  have nk: "?n = ?i + ?k + 1"
    using i by simp
  have split: "?n * ?d = ?i * ?d + ?k * ?d + ?d"
    by (subst nk) (simp add: add_mult_distrib)
  have start: "al_get al index m = p"
  proof -
    have "\<not> index > ucast (al_count m al)"
      using i n16 by (simp add: word_less_nat_alt al_length_def unsigned_ucast_eq take_bit_nat_eq_self)
    moreover have "al + 8 + index * al_dt_size m al = p"
      by (simp add: p_def al_size_def)
    ultimately show ?thesis by (simp add: al_get_def)
  qed
  have "p \<noteq> 0"
  proof -
    have "p = of_nat (unat al + (8 + ?i * ?d))"
      by (simp add: p_def)
    moreover have "unat al + (8 + ?i * ?d) < 2 ^ 32"
      using al(2) bnd split by simp
    ultimately have "unat p = unat al + (8 + ?i * ?d)"
      using unat_of_nat_u32 by metis
    then show ?thesis by auto
  qed
  have k: "nat (uint (al_count m al) - 1 - sint index) = ?k"
  proof -
    have "sint index = int ?i"
    proof -
      have "unat index < 2 ^ 31"
        using i n16 by simp
      then have "int (unat index) < int (2 ^ 31)"
        by (simp only: of_nat_less_iff)
      then have "uint index < 2 ^ 31"
        by simp
      then show ?thesis
        using signed_take_bit_int_eq_self [of 31 "uint index"] order_trans [OF _ uint_ge_0, of "- (2 ^ 31)" index]
        by (simp add: sint_uint)
    qed
    moreover have "nat (int c - 1 - int j) = c - 1 - j" for c j :: nat
      by arith
    from this [of ?n ?i] have "nat (uint (al_count m al) - 1 - uint index) = ?k"
      by (simp add: al_length_def)
    ultimately show ?thesis by simp
  qed
  define m1 where "m1 = (\<lambda>a. if off p a < ?k * ?d then m (a + al_dt_size m al) else m a)"
  define q where "q = p + of_nat ?k * al_dt_size m al"
  define m2 where "m2 = snd (memset q 0 (al_dt_size m al) m1)"
  have sh: "shift_items ?k p (al_dt_size m al) m = (q, m1)"
    using shift_items_eq [of ?k "al_dt_size m al" p m] bnd split dw by (simp add: q_def m1_def)
  have eq: "al_delete_item al index m = Inr (put16 (al + 4) (al_count m2 al - 1) m2)"
    unfolding al_delete_item_def Let_def start k sh m2_def using \<open>p \<noteq> 0\<close> by simp
  have q: "q = al + of_nat (8 + (?i + ?k) * ?d)"
  proof -
    have dt: "al_dt_size m al = of_nat ?d"
      by (simp add: al_size_def)
    show ?thesis
      unfolding q_def p_def dt by (simp only: of_nat_add of_nat_mult add_mult_distrib add.assoc)
  qed
  have lin: "8 + ?i * ?d + ?k * ?d + ?d < 2147483648" "(?i + ?k) * ?d = ?i * ?d + ?k * ?d"
    using bnd unfolding split by (simp_all add: add_mult_distrib)
  have num: "(2 :: nat) ^ 32 = 4294967296"
    by simp
  have far_p: "?k * ?d \<le> off p (al + of_nat t)" if "t < 8 + ?i * ?d" for t
  proof -
    have "off p (al + of_nat t) = 2 ^ 32 - (8 + ?i * ?d - t)"
      unfolding p_def by (rule off_behind) (use that lin num in linarith)+
    then show ?thesis
      using that lin num by linarith
  qed
  have far_q: "m2 (al + of_nat t) = m1 (al + of_nat t)" if "t < 8 + (?i + ?k) * ?d" for t
  proof -
    have "off q (al + of_nat t) = 2 ^ 32 - (8 + (?i + ?k) * ?d - t)"
      unfolding q by (rule off_behind) (use that lin num in linarith)+
    then have "?d \<le> off q (al + of_nat t)"
      using that lin num by linarith
    then show ?thesis by (simp add: m2_def far dw)
  qed
  have low: "m2 (al + of_nat t) = m (al + of_nat t)" if "t < 8 + ?i * ?d" for t
  proof -
    have "t < 8 + (?i + ?k) * ?d"
      using that lin by linarith
    then show ?thesis
      using far_q [of t] far_p [OF that] by (simp add: m1_def not_less)
  qed
  have mid: "m2 (al + of_nat t) = m (al + of_nat (t + ?d))" if t: "8 + ?i * ?d \<le> t" "t < 8 + (?i + ?k) * ?d" for t
  proof -
    have "off p (al + of_nat t) = t - (8 + ?i * ?d)"
      unfolding p_def by (rule off_add) (use t lin num in linarith)+
    then have "off p (al + of_nat t) < ?k * ?d"
      using t lin by linarith
    then have "m1 (al + of_nat t) = m (al + of_nat t + al_dt_size m al)"
      by (simp add: m1_def)
    then show ?thesis
      using far_q [OF t(2)] by (simp add: al_size_def add.assoc)
  qed
  note hd2 = header_cong [of m2 al m, OF low]
  define m' where "m' = put16 (al + 4) (al_count m2 al - 1) m2"
  have len': "al_length m' al = ?n - 1" "al_size m' al = ?d" "al_max_count m' al = al_max_count m al"
  proof -
    have "al_count m al \<noteq> 0"
      using i by (auto simp: al_length_def)
    then show "al_length m' al = ?n - 1"
      using hd2 by (simp add: m'_def al_length_def put_count unat_minus_one)
  qed (use hd2 in \<open>simp_all add: m'_def al_size_def put_count\<close>)
  have byte: "m' (al + of_nat (8 + t)) = m2 (al + of_nat (8 + t))" if "8 + t < 2 ^ 31" for t
  proof -
    have "al + of_nat (8 + t) = al + 4 + of_nat (4 + t)"
      by simp
    then show ?thesis
      using that put_count(4) [of "4 + t" al "al_count m2 al - 1" m2] by (simp only: m'_def)
  qed
  have nd: "(?n - 1) * ?d = (?i + ?k) * ?d"
    using nk by simp
  have "payload m' al = cut_out (?i * ?d) ?d (payload m al)"
  proof (rule nth_equalityI)
    have lp: "length (payload m' al) = ?i * ?d + ?k * ?d" "length (payload m al) = ?i * ?d + ?k * ?d + ?d"
      unfolding length_payload len' nd split lin(2) by simp_all
    then show "length (payload m' al) = length (cut_out (?i * ?d) ?d (payload m al))"
      unfolding cut_out_def by simp
    fix t assume "t < length (payload m' al)"
    then have t: "t < ?i * ?d + ?k * ?d"
      unfolding lp .
    have "payload m' al ! t = m' (al + of_nat (8 + t))"
      using t unfolding lin(2) [symmetric] by (intro payload_nth) (simp only: len' nd)
    also have "\<dots> = m2 (al + of_nat (8 + t))"
      by (rule byte) (use t lin in simp)
    finally have *: "payload m' al ! t = m2 (al + of_nat (8 + t))" .
    show "payload m' al ! t = cut_out (?i * ?d) ?d (payload m al) ! t"
    proof (cases "t < ?i * ?d")
      case True
      have "payload m al ! t = m (al + of_nat (8 + t))"
        by (rule payload_nth) (use True split in linarith)
      then show ?thesis
        unfolding * cut_out_def using low [of "8 + t"] True lp by (simp add: nth_append)
    next
      case False
      have "payload m al ! (t + ?d) = m (al + of_nat (8 + (t + ?d)))"
        by (rule payload_nth) (use t split in linarith)
      moreover have "m2 (al + of_nat (8 + t)) = m (al + of_nat (8 + t + ?d))"
        by (rule mid) (use False t lin in linarith)+
      moreover have "cut_out (?i * ?d) ?d (payload m al) ! t = payload m al ! (t + ?d)"
        unfolding cut_out_def using False t lp by (simp add: nth_append add.commute)
      ultimately show ?thesis
        unfolding * by (simp only: add.assoc)
    qed
  qed
  moreover have "al_ok m' al"
    using ok len' by (simp add: al_ok_def) linarith
  ultimately show ?thesis
    using eq len' by (simp add: m'_def)
qed

section \<open>Properties\<close>

text \<open>
  Adding an element to a list with spare capacity keeps the list where it is and appends exactly
  the bytes of the element to its contents, however large the elements are; the list stays well
  formed and no block of the heap is touched. The element must not end inside the free slot.
\<close>

theorem al_add_appends:
  assumes "al_ok (bytes h) al" and "al_length (bytes h) al < unat (al_max_count (bytes h) al)"
    and "al_size (bytes h) al \<le> off item (al + of_nat (8 + al_length (bytes h) al * al_size (bytes h) al))"
  shows "\<exists>m'. al_add_item al item h = Some (Inr (al, h\<lparr>bytes := m'\<rparr>)) \<and> al_ok m' al \<and>
    payload m' al = payload (bytes h) al @ map (\<lambda>j. bytes h (item + of_nat j)) [0..<al_size (bytes h) al] \<and>
    al_length m' al = Suc (al_length (bytes h) al)"
proof -
  have "al_count (bytes h) al \<noteq> al_max_count (bytes h) al"
    using assms(2) by (auto simp: al_length_def)
  then show ?thesis
    using al_store_ok [OF assms]
    by (intro exI [of _ "al_store al item (bytes h)"]) (simp add: al_add_item_def)
qed


text \<open>A list of two-byte elements at 0x1000 with three of them and room for four.\<close>

definition demo_list :: mem where
  "demo_list = put32 0x1000 2 (put16 0x1004 3 (put16 0x1006 4 (\<lambda>a. ucast a)))"

lemma demo_list_fields:
  "al_dt_size demo_list 0x1000 = 2" "al_count demo_list 0x1000 = 3" "al_max_count demo_list 0x1000 = 4"
  by (simp_all add: al_dt_size_def al_count_def al_max_count_def demo_list_def get32_def get16_def put32_def put16_def)

lemma demo_list_ok: "al_ok demo_list 0x1000" "al_length demo_list 0x1000 = 3" "al_size demo_list 0x1000 = 2"
  by (simp_all add: al_ok_def al_length_def al_size_def demo_list_fields)

lemma al_add_appends_witness:
  "\<exists>m'. al_add_item 0x1000 0x2000 (init_heap 0x900 demo_list\<lparr>bytes := demo_list\<rparr>) =
      Some (Inr (0x1000, init_heap 0x900 demo_list\<lparr>bytes := m'\<rparr>)) \<and> al_ok m' 0x1000 \<and>
    payload m' 0x1000 = payload demo_list 0x1000 @ [0, 1] \<and> al_length m' 0x1000 = 4"
proof -
  have "off 0x2000 (0x1000 + of_nat (8 + 3 * 2)) = 0xFFFFF00E"
    by (simp add: off_def)
  moreover have "map (\<lambda>j. demo_list (0x2000 + of_nat j)) [0..<2] = [0, 1]"
    by (simp add: demo_list_def put32_def put16_def upt_rec)
  ultimately show ?thesis
    using al_add_appends [of "init_heap 0x900 demo_list\<lparr>bytes := demo_list\<rparr>" "0x1000" "0x2000"] demo_list_ok demo_list_fields
    by simp
qed


end
