(* ===== verification/Framebuffer.thy ===== *)
theory Framebuffer
  imports Bytes
begin

text \<open>
  The framebuffer of \<open>drivers/framebuffer.c\<close> and of \<open>multiboot/mb_parse.c\<close>: pixel addresses, filled
  squares, and the glyphs of the PSF font. The screen is byte memory; a pixel is three bytes, blue
  first.
\<close>

section \<open>State\<close>

text \<open>
  \<open>framebuffer_pitch\<close>, \<open>framebuffer_width\<close> and \<open>framebuffer_height\<close> are fields of the boot loader's tag \<open>fb\<close>;
  \<open>bypp\<close> is the static of \<open>mb_parse.c\<close>, \<open>bpp\<close> the global of \<open>framebuffer.c\<close>.
\<close>

record framebuffer =
  fb_virt_addr :: u32
  framebuffer_pitch :: u32
  framebuffer_width :: u32
  framebuffer_height :: u32
  framebuffer_bpp :: u8
  framebuffer_type :: u8
  bypp :: u32
  bpp :: u8
  screen_width :: u16
  screen_height :: u16
  font_start :: u32

definition fb_set_width :: "u16 \<Rightarrow> framebuffer \<Rightarrow> framebuffer" where
  "fb_set_width w f = f\<lparr>screen_width := w\<rparr>"

definition fb_set_bpp :: "u8 \<Rightarrow> framebuffer \<Rightarrow> framebuffer" where
  "fb_set_bpp b f = f\<lparr>bpp := b\<rparr>"

definition fb_set_height :: "u16 \<Rightarrow> framebuffer \<Rightarrow> framebuffer" where
  "fb_set_height h f = f\<lparr>screen_height := h\<rparr>"

text \<open>
  \<open>init_framebuffer\<close>: \<open>mapped\<close> is the address that \<open>pae_kalloc\<close> returns for the pages of the screen. An
  unknown type resets the machine, which the model shows as a fault.
\<close>

definition init_framebuffer :: "u32 \<Rightarrow> framebuffer \<Rightarrow> framebuffer result" where
  "init_framebuffer mapped f =
     (if framebuffer_type f = 0 then Inl (Panic ''Framebuffer in INDEXED_COLOR'')
      else if framebuffer_type f = 2 then Inl (Panic ''Framebuffer in TEXT_MODE'')
      else if framebuffer_type f \<noteq> 1 then Inl (Panic ''triple fault'')
      else let f1 = f\<lparr>fb_virt_addr := mapped, bypp := ucast (framebuffer_bpp f div 8)\<rparr>
           in Inr (fb_set_height (ucast (framebuffer_height f)) (fb_set_width (ucast (framebuffer_width f))
                (fb_set_bpp (ucast (bypp f1)) f1))))"

section \<open>Pixels\<close>

text \<open>Coordinates past the edge are clamped to one past the last row or column.\<close>

definition get_pixel_addr :: "framebuffer \<Rightarrow> u32 \<Rightarrow> u32 \<Rightarrow> u32" where
  "get_pixel_addr f x y =
     (let x1 = (if x > framebuffer_width f then framebuffer_width f else x);
          y1 = (if y > framebuffer_height f then framebuffer_height f else y)
      in fb_virt_addr f + y1 * framebuffer_pitch f + x1 * bypp f)"

definition paint :: "u32 \<Rightarrow> u8 \<times> u8 \<times> u8 \<Rightarrow> mem \<Rightarrow> mem" where
  "paint a rgb m = (case rgb of (r, g, b) \<Rightarrow> m(a := b, a + 1 := g, a + 2 := r))"

definition fill_row :: "framebuffer \<Rightarrow> nat \<Rightarrow> u8 \<times> u8 \<times> u8 \<Rightarrow> u32 \<Rightarrow> mem \<Rightarrow> mem" where
  "fill_row f w rgb pix_loc = fold (\<lambda>xw. paint (pix_loc + ucast (bpp f) * of_nat xw) rgb) [0..<w]"

definition fill_square :: "framebuffer \<Rightarrow> u32 \<Rightarrow> u16 \<Rightarrow> u16 \<Rightarrow> u8 \<times> u8 \<times> u8 \<Rightarrow> mem \<Rightarrow> mem" where
  "fill_square f addr width height rgb =
     fold (\<lambda>yh. fill_row f (unat width) rgb (addr + of_nat yh * framebuffer_pitch f)) [0..<unat height]"

text \<open>\<open>put_pixel\<close> masks the channels with 256 and 22 and stores two of them in the same byte.\<close>

definition put_pixel :: "framebuffer \<Rightarrow> u32 \<Rightarrow> u32 \<Rightarrow> u32 \<Rightarrow> mem \<Rightarrow> mem" where
  "put_pixel f x y c m =
     (let a = get_pixel_addr f x y
      in m(a := ucast (drop_bit 22 c AND 256), a + 1 := ucast (drop_bit 16 c AND 22), a + 1 := ucast (drop_bit 8 c AND 22)))"

section \<open>Glyphs\<close>

text \<open>The font header has two magic bytes, the mode and the glyph size; a \<open>char\<close> is sign-extended.\<close>

definition charsize :: "framebuffer \<Rightarrow> mem \<Rightarrow> u8" where
  "charsize f m = m (font_start f + 3)"

definition get_glyph :: "framebuffer \<Rightarrow> mem \<Rightarrow> int \<Rightarrow> u32" where
  "get_glyph f m num = font_start f + 4 + of_int (num * uint (charsize f m))"

definition channels :: "u32 \<Rightarrow> u8 \<times> u8 \<times> u8" where
  "channels c = (ucast (drop_bit 24 c), ucast (drop_bit 16 c AND 255), ucast (drop_bit 8 c AND 255))"

fun glyph_row :: "framebuffer \<Rightarrow> nat \<Rightarrow> u32 \<Rightarrow> u32 \<Rightarrow> u32 \<Rightarrow> u32 \<Rightarrow> u16 \<Rightarrow> mem \<Rightarrow> mem" where
  "glyph_row f 0 gaddr pixel_addr fg bg sz m = m"
| "glyph_row f (Suc j) gaddr pixel_addr fg bg sz m =
     glyph_row f j gaddr (pixel_addr + ucast sz * ucast (bpp f)) fg bg sz
       (fill_square f pixel_addr sz sz (if bit (m gaddr) j then channels fg else channels bg) m)"

fun glyph_rows :: "framebuffer \<Rightarrow> nat \<Rightarrow> u32 \<Rightarrow> u16 \<Rightarrow> u16 \<Rightarrow> u32 \<Rightarrow> u32 \<Rightarrow> u16 \<Rightarrow> mem \<Rightarrow> mem" where
  "glyph_rows f 0 gaddr x y fg bg sz m = m"
| "glyph_rows f (Suc n) gaddr x y fg bg sz m =
     glyph_rows f n (gaddr + 1) x (y + sz) fg bg sz
       (glyph_row f 8 gaddr (get_pixel_addr f (ucast x) (ucast y)) fg bg sz m)"

definition fb_put_glyph :: "framebuffer \<Rightarrow> u8 \<Rightarrow> u16 \<Rightarrow> u16 \<Rightarrow> u32 \<Rightarrow> u32 \<Rightarrow> u16 \<Rightarrow> mem \<Rightarrow> mem" where
  "fb_put_glyph f glyph x y fg bg sz m =
     glyph_rows f (unat (charsize f m)) (get_glyph f m (sint glyph)) x y fg bg sz m"

definition init_font :: "u32 \<Rightarrow> framebuffer \<Rightarrow> framebuffer" where
  "init_font psf_start f = f\<lparr>font_start := psf_start\<rparr>"

text \<open>The check of \<open>init_font\<close>, whose outcome is only logged: the signature bytes of a PSF font.\<close>

definition font_ok :: "framebuffer \<Rightarrow> mem \<Rightarrow> bool" where
  "font_ok f m \<longleftrightarrow> m (font_start f) = 0x36 \<and> m (font_start f + 1) = 0x04"

section \<open>What a square paints\<close>

definition chan :: "u8 \<times> u8 \<times> u8 \<Rightarrow> nat \<Rightarrow> u8" where
  "chan rgb k = (case rgb of (r, g, b) \<Rightarrow> if k = 0 then b else if k = 1 then g else r)"

lemma paint_eq: "paint p rgb m a = (if off p a < 3 then chan rgb (off p a) else m a)"
proof -
  obtain r g b where rgb: "rgb = (r, g, b)"
    by (cases rgb)
  have a: "a = p + of_nat (off p a)"
    by (simp add: off_def)
  consider "off p a = 0" | "off p a = 1" | "off p a = 2" | "3 \<le> off p a"
    by linarith
  then show ?thesis
  proof cases
    case 4
    then have "a \<noteq> p" "a \<noteq> p + 1" "a \<noteq> p + 2"
      using off_eqI [of 0 p p] off_eqI [of 1 "p + 1" p] off_eqI [of 2 "p + 2" p] by auto
    then show ?thesis
      using 4 by (simp add: paint_def rgb)
  qed (use a in \<open>simp_all add: paint_def rgb chan_def\<close>)
qed

lemma fill_row_eq:
  assumes B: "3 \<le> unat (bpp f)" and bnd: "n * unat (bpp f) + 3 \<le> 2 ^ 32"
  shows "fill_row f n rgb p m a =
    (if off p a < n * unat (bpp f) \<and> off p a mod unat (bpp f) < 3 then chan rgb (off p a mod unat (bpp f)) else m a)"
  using bnd
proof (induction n)
  case 0
  then show ?case by (simp add: fill_row_def)
next
  case (Suc n)
  let ?B = "unat (bpp f)" and ?o = "off p a"
  have lin: "n * ?B + ?B + 3 \<le> 4294967296"
    using Suc.prems by simp
  have step: "fill_row f (Suc n) rgb p m = paint (p + of_nat (n * ?B)) rgb (fill_row f n rgb p m)"
    by (simp add: fill_row_def mult.commute)
  have sh: "off (p + of_nat (n * ?B)) a = (if n * ?B \<le> ?o then ?o - n * ?B else 4294967296 - (n * ?B - ?o))"
    using off_shift [of "n * ?B" p a] lin by simp
  have IH: "fill_row f n rgb p m a = (if ?o < n * ?B \<and> ?o mod ?B < 3 then chan rgb (?o mod ?B) else m a)"
    using Suc.IH lin by simp
  show ?case
  proof (cases "n * ?B \<le> ?o")
    case True
    then obtain r where r: "?o = n * ?B + r"
      using le_Suc_ex by blast
    show ?thesis
    proof (cases "r < ?B")
      case True
      then have "?o mod ?B = r"
        unfolding r by simp
      then show ?thesis
        unfolding step paint_eq sh IH using True r B by simp
    next
      case False
      then show ?thesis
        unfolding step paint_eq sh IH using r B by simp
    qed
  next
    case False
    then have "\<not> 4294967296 - (n * ?B - ?o) < 3" "?o < Suc n * ?B"
      using lin by (simp_all add: trans_less_add2)
    then show ?thesis
      unfolding step paint_eq sh IH using False by simp
  qed
qed

text \<open>The square of \<open>w\<close> by \<open>h\<close> pixels at offset 0, with lines \<open>P\<close> bytes and pixels \<open>B\<close> bytes apart.\<close>

definition in_square :: "nat \<Rightarrow> nat \<Rightarrow> nat \<Rightarrow> nat \<Rightarrow> nat \<Rightarrow> bool" where
  "in_square B P w h d \<longleftrightarrow> d div P < h \<and> d mod P < w * B \<and> d mod P mod B < 3"

lemma fill_lines_eq:
  assumes B: "3 \<le> unat (bpp f)" and w: "w * unat (bpp f) + 3 \<le> P" and P: "P = unat (framebuffer_pitch f)"
    and bnd: "(h + 1) * P \<le> 2 ^ 32"
  shows "fold (\<lambda>yh. fill_row f w rgb (p + of_nat yh * framebuffer_pitch f)) [0..<h] m a =
    (if in_square (unat (bpp f)) P w h (off p a) then chan rgb (off p a mod P mod unat (bpp f)) else m a)"
  using bnd
proof (induction h)
  case 0
  then show ?case by (simp add: in_square_def)
next
  case (Suc h)
  let ?B = "unat (bpp f)" and ?o = "off p a"
  let ?F = "fold (\<lambda>yh. fill_row f w rgb (p + of_nat yh * framebuffer_pitch f))"
  have lin: "h * P + P + P \<le> 4294967296"
    using Suc.prems by simp
  have step: "?F [0..<Suc h] m = fill_row f w rgb (p + of_nat (h * P)) (?F [0..<h] m)"
    by (simp add: P)
  have sh: "off (p + of_nat (h * P)) a = (if h * P \<le> ?o then ?o - h * P else 4294967296 - (h * P - ?o))"
  proof -
    have "h * P < 2 ^ 32"
      using lin w by simp
    then show ?thesis
      using off_shift [of "h * P" p a] by simp
  qed
  have wB: "w * ?B + 3 \<le> 2 ^ 32"
    using w lin by simp
  let ?q = "p + of_nat (h * P)"
  have here: "?F [0..<Suc h] m a =
      (if off ?q a < w * ?B \<and> off ?q a mod ?B < 3 then chan rgb (off ?q a mod ?B) else ?F [0..<h] m a)"
    unfolding step by (rule fill_row_eq [OF B wB])
  have IH: "?F [0..<h] m a = (if in_square ?B P w h ?o then chan rgb (?o mod P mod ?B) else m a)"
    using Suc.IH lin by simp
  have P0: "0 < P" using w by simp
  show ?case
  proof (cases "h * P \<le> ?o")
    case True
    then obtain r where r: "?o = h * P + r"
      using le_Suc_ex by blast
    show ?thesis
    proof (cases "r < P")
      case True
      then have dm: "?o mod P = r" "?o div P = h"
        unfolding r by simp_all
      show ?thesis
        unfolding here sh IH in_square_def dm using r by simp
    next
      case False
      then have "Suc h * P \<le> ?o"
        using r by simp
      then have "Suc h \<le> ?o div P"
        using P0 by (simp add: less_eq_div_iff_mult_less_eq)
      then show ?thesis
        unfolding here sh IH in_square_def using r False w by simp
    qed
  next
    case False
    then have "?o div P < h"
      using P0 by (simp add: div_less_iff_less_mult)
    moreover have "\<not> 4294967296 - (h * P - ?o) < w * ?B"
      using lin w by linarith
    ultimately show ?thesis
      unfolding here sh IH in_square_def using False by simp
  qed
qed

lemma fill_square_eq:
  assumes "3 \<le> unat (bpp f)" "unat w * unat (bpp f) + 3 \<le> unat (framebuffer_pitch f)"
    and "(unat h + 1) * unat (framebuffer_pitch f) \<le> 2 ^ 32"
  shows "fill_square f p w h rgb m a =
    (if in_square (unat (bpp f)) (unat (framebuffer_pitch f)) (unat w) (unat h) (off p a)
     then chan rgb (off p a mod unat (framebuffer_pitch f) mod unat (bpp f)) else m a)"
  unfolding fill_square_def by (rule fill_lines_eq [OF assms(1,2) refl assms(3)])

section \<open>What a glyph paints\<close>

text \<open>The colour a byte of the font asks for at column \<open>c\<close> of \<open>n\<close> columns.\<close>

definition ink :: "u32 \<Rightarrow> u32 \<Rightarrow> u8 \<Rightarrow> nat \<Rightarrow> nat \<Rightarrow> u8 \<times> u8 \<times> u8" where
  "ink fg bg w n c = (if bit w (n - 1 - c) then channels fg else channels bg)"

lemma shifted_column:
  fixes d :: nat
  assumes "k \<le> d mod P" "0 < P"
  shows "(d - k) div P = d div P" "(d - k) mod P = d mod P - k"
proof -
  have "d - k = d div P * P + (d mod P - k)"
    using assms(1) by (metis div_mod_decomp le_add_diff_inverse2 add.commute diff_add_assoc)
  moreover have "d mod P - k < P"
    using assms(2) by (simp add: less_imp_diff_less)
  ultimately show "(d - k) div P = d div P" "(d - k) mod P = d mod P - k"
    by simp_all
qed

lemma shifted_wrap:
  fixes d :: nat
  assumes "d mod P < k" "k \<le> d" "k \<le> P" "0 < P"
  shows "(d - k) mod P = P + d mod P - k"
proof -
  have "d div P \<noteq> 0"
    using assms by (metis div_mod_decomp mult_is_0 add_0 not_less)
  then obtain y where y: "d div P = Suc y"
    by (cases "d div P") auto
  have "d = Suc y * P + d mod P"
    using y by (metis div_mod_decomp)
  then have "d - k = y * P + (P + d mod P - k)"
    using assms by simp
  moreover have "P + d mod P - k < P"
    using assms by simp
  ultimately show ?thesis by simp
qed

lemma glyph_row_eq:
  assumes B: "3 \<le> unat (bpp f)" and P: "P = unat (framebuffer_pitch f)" and s: "0 < unat sz"
    and line: "8 * (unat sz * unat (bpp f)) + 3 \<le> P" and bnd: "(unat sz + 2) * P \<le> 2 ^ 32"
    and j: "j \<le> 8" and font: "unat sz * P + j * (unat sz * unat (bpp f)) \<le> off p gaddr"
  shows "glyph_row f j gaddr p fg bg sz m a =
    (let d = off p a in
     if in_square (unat (bpp f)) P (j * unat sz) (unat sz) d
     then chan (ink fg bg (m gaddr) j (d mod P div (unat sz * unat (bpp f)))) (d mod P mod unat (bpp f)) else m a)"
  using j font
proof (induction j arbitrary: p m)
  case 0
  then show ?case by (simp add: in_square_def)
next
  case (Suc j)
  let ?B = "unat (bpp f)" and ?s = "unat sz"
  define k where "k = ?s * ?B"
  define d where "d = off p a"
  have k: "0 < k" "8 * k + 3 \<le> P" "?s * P + P + P \<le> 4294967296" "Suc j \<le> 8"
    using B s line bnd Suc.prems by (simp_all add: k_def)
  have P0: "0 < P" using k by simp
  define m1 where "m1 = fill_square f p sz sz (if bit (m gaddr) j then channels fg else channels bg) m"
  have m1: "m1 b = (if in_square ?B P ?s ?s (off p b)
      then chan (if bit (m gaddr) j then channels fg else channels bg) (off p b mod P mod ?B) else m b)" for b
    unfolding m1_def P by (rule fill_square_eq) (use B k in \<open>simp_all add: P k_def\<close>)
  have "?s * P \<le> off p gaddr"
    using Suc.prems by simp
  then have "?s \<le> off p gaddr div P"
    using P0 by (simp add: less_eq_div_iff_mult_less_eq)
  then have g: "m1 gaddr = m gaddr"
    by (simp add: m1 in_square_def)
  let ?p = "p + of_nat k"
  have sh: "off ?p b = (if k \<le> off p b then off p b - k else 4294967296 - (k - off p b))" for b
    using off_shift [of k p b] k by simp
  have "?s * P + j * k \<le> off ?p gaddr"
    using Suc.prems unfolding sh by (simp add: k_def)
  then have IH: "glyph_row f j gaddr ?p fg bg sz m1 a =
      (if in_square ?B P (j * ?s) ?s (off ?p a)
       then chan (ink fg bg (m gaddr) j (off ?p a mod P div k)) (off ?p a mod P mod ?B) else m1 a)"
    using Suc.IH [of ?p m1] Suc.prems g by (simp add: k_def Let_def)
  have eq: "glyph_row f (Suc j) gaddr p fg bg sz m a = glyph_row f j gaddr ?p fg bg sz m1 a"
    by (simp add: m1_def k_def)
  have wide: "Suc j * ?s * ?B = k + j * k" "j * ?s * ?B = j * k"
    by (simp_all add: k_def algebra_simps)
  have jk: "j * k \<le> 7 * k"
    using k by (intro mult_right_mono) simp_all
  show ?case
  proof (cases "k \<le> d mod P")
    case True
    then have "k \<le> d"
      using mod_less_eq_dividend [of d P] by linarith
    then have d': "off ?p a div P = d div P" "off ?p a mod P = d mod P - k"
      unfolding sh d_def [symmetric] using shifted_column [OF True P0] by simp_all
    have kB: "(d mod P - k) mod ?B = d mod P mod ?B"
    proof -
      obtain r where "d mod P = k + r"
        using True le_Suc_ex by blast
      then show ?thesis by (simp add: k_def)
    qed
    have kk: "(d mod P - k) div k = d mod P div k - 1"
      using True k(1) by (simp add: le_div_geq)
    have "1 \<le> d mod P div k"
      using True k(1) by (simp add: less_eq_div_iff_mult_less_eq)
    then have "ink fg bg (m gaddr) j (d mod P div k - 1) = ink fg bg (m gaddr) (Suc j) (d mod P div k)"
      by (simp add: ink_def)
    moreover have "m1 a = m a"
      using True by (simp add: m1 in_square_def d_def [symmetric] flip: k_def)
    moreover have "d mod P - k < j * k \<longleftrightarrow> d mod P < k + j * k"
      using True by linarith
    ultimately show ?thesis
      unfolding eq IH in_square_def d' kB kk wide d_def [symmetric] k_def [symmetric] Let_def by simp
  next
    case False
    have "\<not> in_square ?B P (j * ?s) ?s (off ?p a)"
    proof (cases "k \<le> d")
      case True
      have "off ?p a mod P = P + d mod P - k"
        unfolding sh d_def [symmetric] using shifted_wrap [of d P k] False True k by simp
      then show ?thesis
        unfolding in_square_def wide using jk k False by linarith
    next
      case False
      have "?s * P \<le> off ?p a"
        unfolding sh d_def [symmetric] using False k by simp
      then have "?s \<le> off ?p a div P"
        using P0 by (simp add: less_eq_div_iff_mult_less_eq)
      then show ?thesis
        by (simp add: in_square_def)
    qed
    then have old: "glyph_row f (Suc j) gaddr p fg bg sz m a = m1 a"
      unfolding eq IH by (rule if_not_P)
    have col: "d mod P div k = 0" "d mod P < k" "d mod P < k + j * k"
      using False by simp_all
    show ?thesis
      unfolding old m1 in_square_def d_def [symmetric] k_def [symmetric] wide Let_def col(1) ink_def
      using col(2,3) by simp
  qed
qed

lemma pixel_inside:
  assumes "unat x \<le> unat (framebuffer_width f)" "unat y \<le> unat (framebuffer_height f)"
  shows "get_pixel_addr f x y = fb_virt_addr f + y * framebuffer_pitch f + x * bypp f"
  using assms by (simp add: get_pixel_addr_def word_less_nat_alt not_less)

lemma next_glyph_line:
  fixes y sz :: u16
  assumes "unat x \<le> unat (framebuffer_width f)" "unat y + unat sz \<le> unat (framebuffer_height f)"
    and "unat y + unat sz < 65536"
  shows "get_pixel_addr f x (ucast (y + sz)) =
    get_pixel_addr f x (ucast y) + of_nat (unat sz * unat (framebuffer_pitch f))"
proof -
  have sum: "(ucast (y + sz) :: u32) = ucast y + ucast sz"
    by (rule word_unat_eq_iff [THEN iffD2])
      (use assms(3) in \<open>simp add: unat_word_ariths unsigned_ucast_eq take_bit_nat_eq_self\<close>)
  have y: "unat (ucast y :: u32) = unat y"
    using unat_lt_u16 [of y] by (simp add: unsigned_ucast_eq take_bit_nat_eq_self)
  have ysz: "unat (ucast y + ucast sz :: u32) = unat y + unat sz"
    using assms(3) unfolding sum [symmetric]
    by (simp add: unat_word_ariths unsigned_ucast_eq take_bit_nat_eq_self)
  have "get_pixel_addr f x (ucast y + ucast sz) =
      fb_virt_addr f + (ucast y + ucast sz) * framebuffer_pitch f + x * bypp f"
    by (rule pixel_inside) (use assms ysz in simp_all)
  moreover have "get_pixel_addr f x (ucast y) = fb_virt_addr f + ucast y * framebuffer_pitch f + x * bypp f"
    by (rule pixel_inside) (use assms y in simp_all)
  ultimately show ?thesis
    unfolding sum by (simp add: algebra_simps)
qed

lemma far_rows:
  fixes d :: nat
  assumes "0 < P" "s * P \<le> d"
  shows "(d - s * P) div P = d div P - s" "(d - s * P) mod P = d mod P" "s \<le> d div P"
proof -
  obtain r where "d = s * P + r"
    using assms(2) le_Suc_ex by blast
  then show "(d - s * P) div P = d div P - s" "(d - s * P) mod P = d mod P" "s \<le> d div P"
    using assms(1) by simp_all
qed

lemma glyph_rows_eq:
  assumes B: "3 \<le> unat (bpp f)" and P: "P = unat (framebuffer_pitch f)" and s: "0 < unat sz"
    and line: "8 * (unat sz * unat (bpp f)) + 3 \<le> P" and bnd: "(n * unat sz + 2) * P \<le> 2 ^ 32"
    and x: "unat x \<le> unat (framebuffer_width f)"
    and y: "unat y + n * unat sz \<le> unat (framebuffer_height f)" "unat y + n * unat sz < 65536"
    and font: "\<And>i. i < n \<Longrightarrow> (n * unat sz + 1) * P \<le> off (get_pixel_addr f (ucast x) (ucast y)) (gaddr + of_nat i)"
  shows "glyph_rows f n gaddr x y fg bg sz m a =
    (let d = off (get_pixel_addr f (ucast x) (ucast y)) a in
     if in_square (unat (bpp f)) P (8 * unat sz) (n * unat sz) d
     then chan (ink fg bg (m (gaddr + of_nat (d div P div unat sz))) 8 (d mod P div (unat sz * unat (bpp f))))
       (d mod P mod unat (bpp f)) else m a)"
  using bnd y font
proof (induction n arbitrary: gaddr y m)
  case 0
  then show ?case by (simp add: in_square_def)
next
  case (Suc n)
  let ?B = "unat (bpp f)" and ?s = "unat sz"
  define k where "k = ?s * ?B"
  define p where "p = get_pixel_addr f (ucast x) (ucast y)"
  define d where "d = off p a"
  define S where "S = ?s * P"
  define T where "T = n * ?s * P"
  define m1 where "m1 = glyph_row f 8 gaddr p fg bg sz m"
  have P0: "0 < P" and kP: "8 * k + 3 \<le> P"
    using line by (simp_all add: k_def)
  have lin: "S + T + P + P \<le> 4294967296"
    using Suc.prems(1) by (simp add: S_def T_def algebra_simps)
  have far: "S + T + P \<le> off p (gaddr + of_nat i)" if "i < Suc n" for i
    using Suc.prems(4) [OF that] by (simp add: p_def S_def T_def algebra_simps)
  have x': "unat (ucast x :: u32) \<le> unat (framebuffer_width f)"
    using x unat_lt_u16 [of x] by (simp add: unsigned_ucast_eq take_bit_nat_eq_self)
  have p': "get_pixel_addr f (ucast x) (ucast (y + sz)) = p + of_nat S"
    unfolding p_def S_def P by (rule next_glyph_line) (use x' Suc.prems(2,3) in simp_all)
  have sh: "off (p + of_nat S) b = (if S \<le> off p b then off p b - S else 4294967296 - (S - off p b))" for b
    using off_shift [of S p b] lin P0 by simp
  have m1: "m1 b = (if in_square ?B P (8 * ?s) ?s (off p b)
      then chan (ink fg bg (m gaddr) 8 (off p b mod P div k)) (off p b mod P mod ?B) else m b)" for b
  proof -
    have "(?s + 2) * P \<le> 2 ^ 32" "?s * P + 8 * k \<le> off p gaddr"
      using lin kP far [of 0] by (simp_all add: S_def [symmetric])
    then show ?thesis
      using glyph_row_eq [OF B P s line, of 8 p gaddr fg bg m b] by (simp add: m1_def k_def Let_def)
  qed
  have keep: "m1 b = m b" if "S \<le> off p b" for b
    using far_rows(3) [OF P0, of ?s "off p b"] that by (simp add: m1 in_square_def S_def)
  have IH: "glyph_rows f n (gaddr + 1) x (y + sz) fg bg sz m1 a =
      (if in_square ?B P (8 * ?s) (n * ?s) (off (p + of_nat S) a)
       then chan (ink fg bg (m1 (gaddr + 1 + of_nat (off (p + of_nat S) a div P div ?s))) 8
           (off (p + of_nat S) a mod P div k)) (off (p + of_nat S) a mod P mod ?B)
       else m1 a)"
  proof -
    have bnd: "(n * ?s + 2) * P \<le> 2 ^ 32"
      using lin by (simp add: T_def)
    have "unat (y + sz) = unat y + ?s"
      using Suc.prems(3) by (simp add: unat_word_ariths take_bit_nat_eq_self)
    then have y': "unat (y + sz) + n * ?s \<le> unat (framebuffer_height f)" "unat (y + sz) + n * ?s < 65536"
      using Suc.prems(2,3) by simp_all
    have fnt: "(n * ?s + 1) * P \<le> off (get_pixel_addr f (ucast x) (ucast (y + sz))) (gaddr + 1 + of_nat i)"
      if "i < n" for i
      using far [of "Suc i"] that unfolding p' sh by (simp add: T_def algebra_simps)
    show ?thesis
      using Suc.IH [OF bnd y' fnt, of m1] unfolding p' k_def Let_def by simp
  qed
  have eq: "glyph_rows f (Suc n) gaddr x y fg bg sz m a = glyph_rows f n (gaddr + 1) x (y + sz) fg bg sz m1 a"
    by (simp add: m1_def p_def)
  show ?case
  proof (cases "S \<le> d")
    case True
    have fr: "(d - S) div P = d div P - ?s" "(d - S) mod P = d mod P" "?s \<le> d div P"
      using far_rows [OF P0, of ?s d] True by (simp_all add: S_def)
    have q: "(d div P - ?s) div ?s = d div P div ?s - 1" "1 \<le> d div P div ?s"
      using fr(3) s by (simp_all add: le_div_geq less_eq_div_iff_mult_less_eq)
    have g: "gaddr + 1 + of_nat (d div P div ?s - 1) = gaddr + of_nat (d div P div ?s)"
      using q(2) by (simp add: of_nat_diff)
    have glyph: "m1 (gaddr + of_nat (d div P div ?s)) = m (gaddr + of_nat (d div P div ?s))"
      if "d div P < ?s + n * ?s"
    proof -
      have "d div P div ?s < Suc n"
        using that s by (simp add: div_less_iff_less_mult)
      then show ?thesis
        using keep far [of "d div P div ?s"] by simp
    qed
    have sq: "in_square ?B P (8 * ?s) (n * ?s) (d - S) = in_square ?B P (8 * ?s) (Suc n * ?s) d"
      using fr(3) unfolding in_square_def fr(1,2) by auto
    have d': "off (p + of_nat S) a = d - S"
      using True unfolding sh by (simp add: d_def)
    show ?thesis
    proof (cases "in_square ?B P (8 * ?s) (Suc n * ?s) d")
      case True
      then have "d div P < ?s + n * ?s"
        by (simp add: in_square_def)
      then show ?thesis
        unfolding eq IH p_def [symmetric] d_def [symmetric] k_def [symmetric] Let_def d' sq fr(1,2) q(1) g
          if_P [OF True] using glyph by simp
    next
      case F: False
      show ?thesis
        unfolding eq IH p_def [symmetric] d_def [symmetric] Let_def d' sq if_not_P [OF F]
        using keep True by (simp add: d_def)
    qed
  next
    case False
    have "T \<le> off (p + of_nat S) a"
      using False lin unfolding sh by (simp add: d_def)
    then have "n * ?s \<le> off (p + of_nat S) a div P"
      using P0 by (simp add: T_def less_eq_div_iff_mult_less_eq)
    then have "\<not> in_square ?B P (8 * ?s) (n * ?s) (off (p + of_nat S) a)"
      by (simp add: in_square_def)
    then have old: "glyph_rows f (Suc n) gaddr x y fg bg sz m a = m1 a"
      unfolding eq IH by (rule if_not_P)
    have "d div P < ?s"
      using False P0 by (simp add: S_def div_less_iff_less_mult)
    then have "d div P div ?s = 0" "d div P < ?s" "d div P < Suc n * ?s"
      by simp_all
    then show ?thesis
      unfolding old m1 in_square_def p_def [symmetric] d_def [symmetric] k_def [symmetric] Let_def by simp
  qed
qed


text \<open>
  C22. Inside the screen and away from the font, \<open>fb_put_glyph\<close> paints exactly the glyph: eight columns by
  \<open>charsize\<close> rows of squares of the given size. A byte of the square of column \<open>c\<close> and row \<open>r\<close> becomes the
  channel of the foreground colour when the font's bit for that cell is set and of the background
  colour otherwise; the padding of each pixel and every byte outside the glyph stay as they were.
\<close>

theorem put_glyph_paints:
  assumes "3 \<le> unat (bpp f)" and "P = unat (framebuffer_pitch f)" and "0 < unat sz"
    and "n = unat (charsize f m)" and "p = get_pixel_addr f (ucast x) (ucast y)"
    and "8 * (unat sz * unat (bpp f)) + 3 \<le> P" and "(n * unat sz + 2) * P \<le> 2 ^ 32"
    and "unat x \<le> unat (framebuffer_width f)"
    and "unat y + n * unat sz \<le> unat (framebuffer_height f)" "unat y + n * unat sz < 65536"
    and "\<And>i. i < n \<Longrightarrow> (n * unat sz + 1) * P \<le> off p (get_glyph f m (sint glyph) + of_nat i)"
  shows "fb_put_glyph f glyph x y fg bg sz m a =
    (let line = off p a div P; byte = off p a mod P;
         r = line div unat sz; c = byte div (unat sz * unat (bpp f));
         font = m (get_glyph f m (sint glyph) + of_nat r)
     in if line < n * unat sz \<and> byte < 8 * unat sz * unat (bpp f) \<and> byte mod unat (bpp f) < 3
        then chan (if bit font (7 - c) then channels fg else channels bg) (byte mod unat (bpp f))
        else m a)"
proof -
  have "fb_put_glyph f glyph x y fg bg sz m a =
      glyph_rows f n (get_glyph f m (sint glyph)) x y fg bg sz m a"
    by (simp add: fb_put_glyph_def assms(4))
  then show ?thesis
    using glyph_rows_eq [OF assms(1,2,3,6,7,8,9,10), of "get_glyph f m (sint glyph)" fg bg m a] assms(5,11)
    by (simp add: Let_def in_square_def ink_def)
qed

text \<open>A screen of 40 by 16 pixels at 0x1000 and a font of two rows at 0x9000 whose glyph 1 is 0xC0, 0x01.\<close>

definition tiny_screen :: framebuffer where
  "tiny_screen = \<lparr>fb_virt_addr = 0x1000, framebuffer_pitch = 160, framebuffer_width = 40, framebuffer_height = 16,
     framebuffer_bpp = 32, framebuffer_type = 1, bypp = 4, bpp = 4, screen_width = 40, screen_height = 16,
     font_start = 0x9000\<rparr>"

definition tiny_font :: mem where
  "tiny_font = (\<lambda>_. 0)(0x9003 := 2, 0x9006 := 0xC0, 0x9007 := 1)"

lemma tiny_font_glyph: "get_glyph tiny_screen tiny_font 1 = 0x9006"
  by (simp add: get_glyph_def charsize_def tiny_screen_def tiny_font_def)

theorem put_glyph_paints_witness:
  "fb_put_glyph tiny_screen 1 2 3 0x11223300 0x44556600 2 tiny_font (0x1000 + 3 * 160 + 2 * 4) = 0x33 \<and>
   fb_put_glyph tiny_screen 1 2 3 0x11223300 0x44556600 2 tiny_font (0x1000 + 5 * 160 + 2 * 4 + 1) = 0x55"
proof -
  have far: "i < (2 :: nat) \<Longrightarrow> (2 * 2 + 1) * 160 \<le> off 0x11E8 (0x9006 + of_nat i)" for i
    by (auto simp: less_2_cases_iff off_def)
  have sz: "unat (2 :: u16) = 2"
    by simp
  have fields: "unat (bpp tiny_screen) = 4" "unat (framebuffer_pitch tiny_screen) = 160"
    "unat (charsize tiny_screen tiny_font) = 2" "get_pixel_addr tiny_screen 2 3 = 0x11E8"
    "unat (framebuffer_width tiny_screen) = 40" "unat (framebuffer_height tiny_screen) = 16"
    by (simp_all add: tiny_screen_def charsize_def tiny_font_def get_pixel_addr_def)
  have *: "fb_put_glyph tiny_screen 1 2 3 0x11223300 0x44556600 2 tiny_font a =
    (let line = off 0x11E8 a div 160; byte = off 0x11E8 a mod 160; r = line div unat (2 :: u16);
         c = byte div (unat (2 :: u16) * unat (bpp tiny_screen));
         font = tiny_font (get_glyph tiny_screen tiny_font (sint (1 :: u8)) + of_nat r)
     in if line < 2 * unat (2 :: u16) \<and> byte < 8 * unat (2 :: u16) * unat (bpp tiny_screen) \<and>
           byte mod unat (bpp tiny_screen) < 3
        then chan (if bit font (7 - c) then channels 0x11223300 else channels 0x44556600)
          (byte mod unat (bpp tiny_screen))
        else tiny_font a)" for a
    by (rule put_glyph_paints) (use far in \<open>simp_all add: fields tiny_font_glyph\<close>)
  show ?thesis
    unfolding * fields sz by (simp add: off_def Let_def chan_def channels_def tiny_font_glyph) (simp add: tiny_font_def)
qed

end
