(* ===== verification/Pmm.thy ===== *)
theory Pmm
  imports Kstring
begin

text \<open>
  The physical page allocator of \<open>kernel/memory/pmm.c\<close>: a bitmap of frames of 4 KiB starting at
  1 MiB, the bump allocator \<open>pre_malloc\<close> that serves the boot phase, and their initialisation.

  The globals of the file are the record \<open>pmm\<close>. The bitmap is a \<open>uint32_t *\<close> that the code
  subscripts without a bound of its own, so it is a function from word indices; \<open>num_frames\<close> is
  the bound the code tests against.
\<close>

section \<open>State\<close>

record pmm =
  mem_top :: u32
  mem_bottom :: u32
  pre_mem :: u32
  frames :: "nat \<Rightarrow> u32"
  num_frames :: u32
  last_frame :: u32

text \<open>\<open>PGSIZE\<close> is 1024 in \<open>paging.h\<close>, and \<open>NUM_FRAMES\<close> is \<open>(10 * 1024 * 1024) / 4096\<close>.\<close>

definition PGSIZE :: u32 where
  "PGSIZE = 1024"

definition NUM_FRAMES :: u32 where
  "NUM_FRAMES = 2560"

definition PGROUNDUP :: "u32 \<Rightarrow> u32" where
  "PGROUNDUP s = (s + PGSIZE - 1) AND NOT (PGSIZE - 1)"

definition PGROUNDDOWN :: "u32 \<Rightarrow> u32" where
  "PGROUNDDOWN a = a AND NOT (PGSIZE - 1)"

section \<open>Operations\<close>

text \<open>One entry of the multiboot memory map: \<open>addr\<close>, \<open>len\<close>, \<open>type\<close>.\<close>

record mmap_entry =
  entry_addr :: u64
  entry_len :: u64
  entry_type :: u32

definition MULTIBOOT_MEMORY_AVAILABLE :: u32 where
  "MULTIBOOT_MEMORY_AVAILABLE = 1"

definition note_entry :: "mmap_entry \<Rightarrow> pmm \<Rightarrow> pmm" where
  "note_entry e p =
     (if entry_type e = MULTIBOOT_MEMORY_AVAILABLE
      then p\<lparr>mem_bottom := ucast (entry_addr e), mem_top := ucast (entry_addr e + entry_len e)\<rparr>
      else p)"

definition set_memory_map :: "mmap_entry list \<Rightarrow> pmm \<Rightarrow> pmm" where
  "set_memory_map es p = fold note_entry es p"

text \<open>
  \<open>pre_malloc\<close> returns the address and, through its pointer argument, the physical address.
\<close>

definition pre_malloc :: "u32 \<Rightarrow> pmm \<Rightarrow> (u32 \<times> u32) \<times> pmm" where
  "pre_malloc sz p =
     (let mem_loc = PGROUNDUP (pre_mem p)
      in ((mem_loc, mem_loc - 0xC0000000), p\<lparr>pre_mem := pre_mem p + PGROUNDUP sz\<rparr>))"

text \<open>The inner loop over the 32 bits of a word, and the outer loop over the words.\<close>

function scan_word :: "u32 \<Rightarrow> nat \<Rightarrow> nat option" where
  "scan_word w j =
     (if j < 32 then (if w AND push_bit j 1 = 0 then Some j else scan_word w (Suc j)) else None)"
  by pat_completeness auto
termination
  by (relation "measure (\<lambda>(w, j). 32 - j)") auto

function scan_frames :: "(nat \<Rightarrow> u32) \<Rightarrow> nat \<Rightarrow> nat \<Rightarrow> (nat \<times> nat) option" where
  "scan_frames fs n i =
     (if i < n
      then (if fs i \<noteq> 0xFFFFFFFF
            then (case scan_word (fs i) 0 of Some j \<Rightarrow> Some (i, j) | None \<Rightarrow> scan_frames fs n (Suc i))
            else scan_frames fs n (Suc i))
      else None)"
  by pat_completeness auto
termination
  by (relation "measure (\<lambda>(fs, n, i). n - i)") auto

definition get_first_frame :: "pmm \<Rightarrow> u32 \<times> pmm" where
  "get_first_frame p =
     (case scan_frames (frames p) (unat (num_frames p)) 0 of
        Some (i, j) \<Rightarrow> (let f = of_nat i * 32 + of_nat j in (f, p\<lparr>last_frame := f\<rparr>))
      | None \<Rightarrow> (- 1, p))"

definition clear_frame :: "u32 \<Rightarrow> pmm \<Rightarrow> pmm" where
  "clear_frame frame p =
     (if frame > num_frames p then p
      else let i = unat (frame div 32)
           in p\<lparr>frames := (frames p)(i := frames p i AND NOT (push_bit (unat (frame mod 32)) 1))\<rparr>)"

definition set_frame :: "u32 \<Rightarrow> pmm \<Rightarrow> pmm" where
  "set_frame frame p =
     (let index = unat (frame div 32); offset = unat (frame mod 32)
      in p\<lparr>frames := (frames p)(index := frames p index OR push_bit offset 1)\<rparr>)"

definition frame_to_physical :: "u32 \<Rightarrow> u32" where
  "frame_to_physical bitmap = 0x100000 + bitmap * 4096"

definition physical_to_frame :: "u32 \<Rightarrow> u32" where
  "physical_to_frame physical = (physical - 0x100000) div 4096"

definition alloc_phys_page :: "pmm \<Rightarrow> (u64 \<times> pmm) result" where
  "alloc_phys_page p =
     (let (first_frame, p1) = get_first_frame p
      in if first_frame = - 1 then Inr (0, p1)
         else let p2 = set_frame first_frame p1
              in if frame_to_physical first_frame > 0x1000000 then Inl (Panic ''Out of memory!'')
                 else Inr (ucast (frame_to_physical first_frame), p2))"

text \<open>
  \<open>kinit\<close>: \<open>kernel_end\<close> is the address of the linker symbol \<open>_kernel_end\<close>. The bitmap of
  \<open>num_frames\<close> bytes is zeroed, that is its first \<open>num_frames / 4\<close> words, and the first 48 frames
  (the kernel image) are taken.
\<close>

definition kinit :: "u32 \<Rightarrow> u32 \<Rightarrow> pmm \<Rightarrow> u32 \<times> pmm" where
  "kinit kernel_end after_mb p =
     (let p1 = (if after_mb \<ge> kernel_end then p\<lparr>pre_mem := pre_mem p + after_mb\<rparr> else p);
          p2 = p1\<lparr>num_frames := NUM_FRAMES\<rparr>;
          (_, p3) = pre_malloc (num_frames p2) p2;
          p4 = p3\<lparr>frames := (\<lambda>i. if i < unat (num_frames p3) div 4 then 0 else frames p3 i)\<rparr>;
          p5 = fold (\<lambda>i. set_frame (of_nat i)) [0..<48] p4
      in (pre_mem p5, p5))"

section \<open>The set of taken frames\<close>

definition taken :: "pmm \<Rightarrow> nat set" where
  "taken p = {f. bit (frames p (f div 32)) (f mod 32)}"

definition first_free :: "pmm \<Rightarrow> nat" where
  "first_free p = (LEAST f. f \<notin> taken p)"

definition in_bitmap :: "pmm \<Rightarrow> nat \<Rightarrow> bool" where
  "in_bitmap p f \<longleftrightarrow> f div 32 < unat (num_frames p)"

lemma mem_taken: "f \<in> taken p \<longleftrightarrow> bit (frames p (f div 32)) (f mod 32)"
  by (simp add: taken_def)

declare scan_word.simps [simp del] scan_frames.simps [simp del]

lemma scan_word_Some:
  "scan_word w j = Some k \<Longrightarrow>
     j \<le> k \<and> k < 32 \<and> \<not> bit w k \<and> (\<forall>i. j \<le> i \<and> i < k \<longrightarrow> bit w i)"
proof (induction w j rule: scan_word.induct)
  case (1 w j)
  show ?case
  proof (cases "j < 32 \<and> bit w j")
    case True
    with 1 have "scan_word w (Suc j) = Some k"
      by (simp add: scan_word.simps [of w j] bits_simps)
    then have "Suc j \<le> k \<and> k < 32 \<and> \<not> bit w k \<and> (\<forall>i. Suc j \<le> i \<and> i < k \<longrightarrow> bit w i)"
      using 1 True by (simp add: bits_simps)
    with True show ?thesis
      by (metis Suc_leI le_eq_less_or_eq Suc_leD)
  next
    case False
    with 1 show ?thesis
      by (auto simp: scan_word.simps [of w j] bits_simps split: if_splits)
  qed
qed

lemma scan_word_None: "scan_word w j = None \<Longrightarrow> j \<le> i \<Longrightarrow> i < 32 \<Longrightarrow> bit w i"
proof (induction w j rule: scan_word.induct)
  case (1 w j)
  then show ?case
    by (cases "i = j") (auto simp: scan_word.simps [of w j] bits_simps split: if_splits)
qed

lemma full_word: "bit (0xFFFFFFFF :: u32) i \<longleftrightarrow> i < 32"
proof -
  have "(0xFFFFFFFF :: u32) = - 1"
    by simp
  then show ?thesis
    by (simp only: bit_minus_1_iff) simp
qed

lemma scan_frames_skip:
  "i < n \<Longrightarrow> fs i = 0xFFFFFFFF \<or> scan_word (fs i) 0 = None \<Longrightarrow>
     scan_frames fs n i = scan_frames fs n (Suc i)"
  by (auto simp: scan_frames.simps [of fs n i])

lemma scan_frames_hit:
  "i < n \<Longrightarrow> fs i \<noteq> 0xFFFFFFFF \<Longrightarrow> scan_word (fs i) 0 = Some j \<Longrightarrow> scan_frames fs n i = Some (i, j)"
  by (simp add: scan_frames.simps [of fs n i])

lemma skipped_word_full:
  "fs i = 0xFFFFFFFF \<or> scan_word (fs i) 0 = None \<Longrightarrow> b < 32 \<Longrightarrow> bit (fs i) b"
  using scan_word_None [of "fs i" 0 b] full_word [of b] by auto

lemma scan_frames_Some:
  "scan_frames fs n i = Some (k, j) \<Longrightarrow>
     i \<le> k \<and> k < n \<and> j < 32 \<and> \<not> bit (fs k) j \<and> (\<forall>b<j. bit (fs k) b) \<and>
     (\<forall>l b. i \<le> l \<and> l < k \<and> b < 32 \<longrightarrow> bit (fs l) b)"
proof (induction fs n i rule: scan_frames.induct)
  case (1 fs n i)
  have "i < n"
    using "1.prems" by (simp add: scan_frames.simps [of fs n i] split: if_splits)
  show ?case
  proof (cases "fs i = 0xFFFFFFFF \<or> scan_word (fs i) 0 = None")
    case True
    with \<open>i < n\<close> "1.prems" have "scan_frames fs n (Suc i) = Some (k, j)"
      by (simp add: scan_frames_skip)
    with True \<open>i < n\<close> "1.IH" have rest: "Suc i \<le> k \<and> k < n \<and> j < 32 \<and> \<not> bit (fs k) j \<and>
        (\<forall>b<j. bit (fs k) b) \<and> (\<forall>l b. Suc i \<le> l \<and> l < k \<and> b < 32 \<longrightarrow> bit (fs l) b)"
      by (cases "fs i = 0xFFFFFFFF") auto
    have "bit (fs l) b" if "i \<le> l" "l < k" "b < 32" for l b
      using that rest skipped_word_full [where fs = fs, OF True] by (cases "l = i") (auto simp: Suc_le_eq)
    with rest show ?thesis by simp
  next
    case False
    then obtain j' where "scan_word (fs i) 0 = Some j'"
      by auto
    with False \<open>i < n\<close> "1.prems" show ?thesis
      by (auto simp: scan_frames_hit dest: scan_word_Some)
  qed
qed

lemma scan_frames_None:
  "scan_frames fs n i = None \<Longrightarrow> i \<le> l \<Longrightarrow> l < n \<Longrightarrow> b < 32 \<Longrightarrow> bit (fs l) b"
proof (induction fs n i rule: scan_frames.induct)
  case (1 fs n i)
  show ?case
  proof (cases "l = i")
    case True
    with "1.prems" have "fs i = 0xFFFFFFFF \<or> scan_word (fs i) 0 = None"
      by (auto simp: scan_frames.simps [of fs n i] split: if_splits option.splits)
    with True "1.prems" show ?thesis
      using scan_word_None [of "fs i" 0 b] full_word [of b] by auto
  next
    case False
    with 1 show ?thesis
      by (auto simp: scan_frames.simps [of fs n i] split: if_splits option.splits)
  qed
qed


section \<open>Frame numbers\<close>

lemma word_index:
  assumes "i < 2 ^ 27" and "j < 32"
  shows "unat (of_nat i * 32 + of_nat j :: u32) = 32 * i + j"
proof -
  have "(of_nat i * 32 + of_nat j :: u32) = of_nat (32 * i + j)"
    by (simp add: mult.commute)
  moreover have "32 * i + j < 2 ^ 32"
    using assms by simp
  ultimately show ?thesis
    using unat_of_nat_u32 by metis
qed

lemma frame_eq_iff: "g = f \<longleftrightarrow> g div 32 = f div 32 \<and> g mod 32 = f mod (32 :: nat)"
  by (metis div_mult_mod_eq)

lemma frame_parts:
  "unat (f div 32 :: u32) = unat f div 32" "unat (f mod 32 :: u32) = unat f mod 32"
  by (simp_all add: unat_div unat_mod)

lemma mem_taken_set_frame: "g \<in> taken (set_frame f p) \<longleftrightarrow> g \<in> taken p \<or> g = unat f"
  unfolding frame_eq_iff [of g "unat f"]
  by (auto simp: set_frame_def mem_taken Let_def frame_parts bits_simps)

lemma mem_taken_clear_frame:
  "g \<in> taken (clear_frame f p) \<longleftrightarrow> g \<in> taken p \<and> (f > num_frames p \<or> g \<noteq> unat f)"
  unfolding frame_eq_iff [of g "unat f"]
  by (auto simp: clear_frame_def mem_taken Let_def frame_parts bits_simps)

lemma taken_set_frame: "taken (set_frame f p) = insert (unat f) (taken p)"
  using mem_taken_set_frame by blast

lemma taken_clear_frame:
  "taken (clear_frame f p) = (if f > num_frames p then taken p else taken p - {unat f})"
  using mem_taken_clear_frame by auto

lemma set_frame_num_frames [simp]: "num_frames (set_frame f p) = num_frames p"
  by (simp add: set_frame_def Let_def)

lemma clear_frame_num_frames [simp]: "num_frames (clear_frame f p) = num_frames p"
  by (simp add: clear_frame_def Let_def)

lemma scan_frames_least:
  assumes found: "scan_frames (frames p) n 0 = Some (k, j)"
  shows "first_free p = 32 * k + j"
  unfolding first_free_def
proof (rule Least_equality)
  note hit = scan_frames_Some [OF found]
  show "32 * k + j \<notin> taken p"
    using hit by (simp add: mem_taken)
  fix g assume "g \<notin> taken p"
  then have g: "\<not> bit (frames p (g div 32)) (g mod 32)"
    by (simp add: mem_taken)
  have "\<not> g div 32 < k"
    using g hit by auto
  moreover have "g div 32 = k \<Longrightarrow> j \<le> g mod 32"
    using g hit by (metis not_le)
  moreover have "g = 32 * (g div 32) + g mod 32" "j < 32"
    using hit by simp_all
  ultimately show "32 * k + j \<le> g"
    by linarith
qed

text \<open>The scan finds the least clear bit; \<open>num_frames\<close> words are below the wrap-around.\<close>

lemma get_first_frame_Some:
  assumes "unat (num_frames p) < 2 ^ 27" and "in_bitmap p f" and "f \<notin> taken p"
  shows "\<exists>p' f'. get_first_frame p = (f', p') \<and> unat f' = first_free p \<and>
    f' \<noteq> - 1 \<and> in_bitmap p (unat f') \<and> frames p' = frames p \<and> num_frames p' = num_frames p"
proof -
  obtain k j where kj: "scan_frames (frames p) (unat (num_frames p)) 0 = Some (k, j)"
    using assms(2,3) scan_frames_None [of "frames p" "unat (num_frames p)" 0 "f div 32" "f mod 32"]
    by (fastforce simp: in_bitmap_def mem_taken)
  note hit = scan_frames_Some [OF kj]
  have num: "unat (of_nat k * 32 + of_nat j :: u32) = 32 * k + j"
    using hit assms(1) by (intro word_index) auto
  moreover have "32 * k + j < 2 ^ 32 - 1"
    using hit assms(1) by simp
  moreover have "unat (- 1 :: u32) = 2 ^ 32 - 1"
    by (simp add: unsigned_minus_1_eq_mask mask_eq_exp_minus_1)
  ultimately have "of_nat k * 32 + of_nat j \<noteq> (- 1 :: u32)"
    by (metis less_irrefl)
  with num hit show ?thesis
    by (simp add: get_first_frame_def kj Let_def in_bitmap_def scan_frames_least [OF kj])
qed

lemma get_first_frame_None:
  "\<forall>f. in_bitmap p f \<longrightarrow> f \<in> taken p \<Longrightarrow> get_first_frame p = (- 1, p)"
proof -
  assume full: "\<forall>f. in_bitmap p f \<longrightarrow> f \<in> taken p"
  have "scan_frames (frames p) (unat (num_frames p)) 0 = None"
  proof (rule ccontr)
    assume "scan_frames (frames p) (unat (num_frames p)) 0 \<noteq> None"
    then obtain k j where kj: "scan_frames (frames p) (unat (num_frames p)) 0 = Some (k, j)"
      by auto
    note hit = scan_frames_Some [OF kj]
    have "(32 * k + j) div 32 = k" "(32 * k + j) mod 32 = j"
      using hit by auto
    with hit full show False
      by (metis in_bitmap_def mem_taken)
  qed
  then show ?thesis by (simp add: get_first_frame_def)
qed


section \<open>Allocation\<close>

definition frame_limit :: nat where
  "frame_limit = 3840"

lemma frame_to_physical_unat:
  "f \<le> frame_limit \<Longrightarrow> unat (frame_to_physical (of_nat f)) = 0x100000 + 4096 * f"
proof -
  assume "f \<le> frame_limit"
  then have "frame_to_physical (of_nat f) = of_nat (0x100000 + 4096 * f)"
    by (simp add: frame_to_physical_def)
  moreover have "0x100000 + 4096 * f < 2 ^ 32"
    using \<open>f \<le> frame_limit\<close> by (simp add: frame_limit_def)
  ultimately show ?thesis
    using unat_of_nat_u32 by metis
qed

text \<open>The out-of-memory test compares addresses; for frames of the bitmap it is a bound on frames.\<close>

lemma frame_to_physical_limit:
  assumes "unat f < 2 ^ 20 - 256"
  shows "frame_to_physical f > 0x1000000 \<longleftrightarrow> frame_limit < unat f"
proof -
  have "frame_to_physical f = of_nat (0x100000 + 4096 * unat f)"
    by (simp add: frame_to_physical_def)
  moreover have "0x100000 + 4096 * unat f < 2 ^ 32"
    using assms by simp
  ultimately have "unat (frame_to_physical f) = 0x100000 + 4096 * unat f"
    using unat_of_nat_u32 by metis
  then show ?thesis
    by (simp add: word_less_nat_alt frame_limit_def)
qed

definition bitmap_ok :: "pmm \<Rightarrow> bool" where
  "bitmap_ok p \<longleftrightarrow> unat (num_frames p) < 2 ^ 15 - 8 \<and> frame_limit < 32 * unat (num_frames p)"

lemma get_first_frame_in_bitmap:
  assumes "bitmap_ok p" and "f \<notin> taken p" and "f \<le> frame_limit"
  shows "\<exists>p' f'. get_first_frame p = (f', p') \<and> unat f' = first_free p \<and>
    f' \<noteq> - 1 \<and> frames p' = frames p \<and> num_frames p' = num_frames p"
proof -
  have "in_bitmap p f"
    using assms by (simp add: bitmap_ok_def in_bitmap_def less_mult_imp_div_less)
  then show ?thesis
    using get_first_frame_Some [of p f] assms by (auto simp: bitmap_ok_def)
qed

lemma alloc_free_frame:
  assumes "bitmap_ok p" and "f \<notin> taken p" and "f \<le> frame_limit"
  shows "\<exists>p'. alloc_phys_page p = Inr (of_nat (0x100000 + 4096 * first_free p), p') \<and>
    taken p' = insert (first_free p) (taken p) \<and> num_frames p' = num_frames p"
proof -
  let ?l = "first_free p"
  obtain p1 f' where get: "get_first_frame p = (f', p1)" "unat f' = ?l" "f' \<noteq> - 1"
      "frames p1 = frames p" "num_frames p1 = num_frames p"
    using get_first_frame_in_bitmap [OF assms] by auto
  have least: "?l \<le> frame_limit"
    using assms(2,3) by (metis first_free_def Least_le order_trans)
  have "f' = of_nat ?l"
    by (simp flip: get(2))
  then have phys: "unat (frame_to_physical f') = 0x100000 + 4096 * ?l"
    using frame_to_physical_unat least by simp
  have "\<not> frame_to_physical f' > 0x1000000"
    using least get(2) by (subst frame_to_physical_limit) (simp_all add: frame_limit_def)
  moreover have "ucast (frame_to_physical f') = (of_nat (0x100000 + 4096 * ?l) :: u64)"
    by (metis phys unsigned_ucast_eq of_nat_unat)
  moreover have "taken p1 = taken p"
    using get by (simp add: taken_def)
  ultimately show ?thesis
    using get by (simp add: alloc_phys_page_def taken_set_frame Let_def)
qed

lemma alloc_exhausted:
  assumes "bitmap_ok p" and "\<forall>f\<le>frame_limit. f \<in> taken p" and "alloc_phys_page p = Inr (a, p')"
  shows "a = 0"
proof (cases "\<exists>f. in_bitmap p f \<and> f \<notin> taken p")
  case True
  then obtain f where f: "in_bitmap p f" "f \<notin> taken p"
    by blast
  moreover have "unat (num_frames p) < 2 ^ 27"
    using assms(1) by (simp add: bitmap_ok_def)
  ultimately obtain p1 f' where get: "get_first_frame p = (f', p1)" "unat f' = first_free p"
      "f' \<noteq> - 1" "in_bitmap p (unat f')"
    using get_first_frame_Some by blast
  have "\<not> first_free p \<le> frame_limit"
    using True assms(2) by (metis LeastI first_free_def)
  moreover have "unat f' < 2 ^ 20 - 256"
    using get(4) assms(1) by (simp add: in_bitmap_def bitmap_ok_def div_less_iff_less_mult)
  ultimately have "frame_to_physical f' > 0x1000000"
    using get(2) frame_to_physical_limit by simp
  with get assms(3) show ?thesis
    by (simp add: alloc_phys_page_def Let_def)
next
  case False
  then show ?thesis
    using assms(3) get_first_frame_None [of p] by (auto simp: alloc_phys_page_def)
qed

lemma physical_to_frame_inverse:
  "f \<le> frame_limit \<Longrightarrow> physical_to_frame (of_nat (0x100000 + 4096 * f)) = of_nat f"
proof -
  assume f: "f \<le> frame_limit"
  have "(of_nat (0x100000 + 4096 * f) :: u32) - 0x100000 = of_nat (4096 * f)"
    by simp
  then have "unat ((of_nat (0x100000 + 4096 * f) :: u32) - 0x100000) = 4096 * f"
    using f unat_of_nat_u32 [of "4096 * f"] by (simp add: frame_limit_def)
  then have "unat (physical_to_frame (of_nat (0x100000 + 4096 * f))) = f"
    by (simp add: physical_to_frame_def unat_div)
  then show ?thesis
    using f unat_of_nat_u32 [of f] by (simp add: frame_limit_def word_unat_eq_iff)
qed

section \<open>The allocator contract\<close>

text \<open>
  What the rest of the kernel relies on: \<open>alloc\<close> either hands out the address of a frame that was
  not taken, or answers 0, or stops the kernel; \<open>free\<close> gives back at most the frame it is given.
\<close>

definition frame_addr :: "nat \<Rightarrow> u64" where
  "frame_addr f = of_nat (0x100000 + 4096 * f)"

fun alloc_n :: "('s \<Rightarrow> (u64 \<times> 's) result) \<Rightarrow> nat \<Rightarrow> 's \<Rightarrow> (u64 list \<times> 's) result" where
  "alloc_n alloc 0 s = Inr ([], s)"
| "alloc_n alloc (Suc n) s =
     (case alloc s of
        Inl e \<Rightarrow> Inl e
      | Inr (a, s') \<Rightarrow>
          (case alloc_n alloc n s' of Inl e \<Rightarrow> Inl e | Inr (as, s'') \<Rightarrow> Inr (a # as, s'')))"

locale frame_allocator =
  fixes alloc :: "'s \<Rightarrow> (u64 \<times> 's) result"
    and free :: "u32 \<Rightarrow> 's \<Rightarrow> 's"
    and owned :: "'s \<Rightarrow> nat set"
    and ok :: "'s \<Rightarrow> bool"
  assumes alloc_fresh: "ok s \<Longrightarrow> alloc s = Inr (a, s') \<Longrightarrow> a \<noteq> 0 \<Longrightarrow>
      \<exists>f. f \<notin> owned s \<and> f \<le> frame_limit \<and> a = frame_addr f \<and> owned s' = insert f (owned s)"
    and alloc_ok: "ok s \<Longrightarrow> alloc s = Inr (a, s') \<Longrightarrow> ok s'"
    and free_owned: "ok s \<Longrightarrow> owned s - {unat f} \<subseteq> owned (free f s) \<and> owned (free f s) \<subseteq> owned s"
    and free_ok: "ok s \<Longrightarrow> ok (free f s)"
begin

lemma alloc_n_fresh:
  "ok s \<Longrightarrow> alloc_n alloc n s = Inr (as, s') \<Longrightarrow> 0 \<notin> set as \<Longrightarrow>
     \<exists>fs. as = map frame_addr fs \<and> distinct fs \<and> length fs = n \<and> set fs \<inter> owned s = {} \<and>
        (\<forall>f\<in>set fs. f \<le> frame_limit) \<and> owned s' = owned s \<union> set fs \<and> ok s'"
proof (induction n arbitrary: s as)
  case 0
  then show ?case by auto
next
  case (Suc n)
  obtain a s1 as1 where step: "alloc s = Inr (a, s1)" "alloc_n alloc n s1 = Inr (as1, s')" "as = a # as1"
    using Suc.prems(2) by (auto split: sum.splits)
  obtain f where f: "f \<notin> owned s" "f \<le> frame_limit" "a = frame_addr f" "owned s1 = insert f (owned s)"
    using alloc_fresh [OF Suc.prems(1) step(1)] step(3) Suc.prems(3) by auto
  obtain fs where fs: "as1 = map frame_addr fs" "distinct fs" "length fs = n"
      "set fs \<inter> owned s1 = {}" "\<forall>f\<in>set fs. f \<le> frame_limit" "owned s' = owned s1 \<union> set fs" "ok s'"
    using Suc.IH [OF alloc_ok [OF Suc.prems(1) step(1)] step(2)] step(3) Suc.prems(3) by auto
  then show ?case
    using f step(3) by (intro exI [of _ "f # fs"]) auto
qed

end

lemma unat_frame_addr: "f \<le> frame_limit \<Longrightarrow> unat (frame_addr f) = 0x100000 + 4096 * f"
  by (simp add: frame_addr_def frame_limit_def unat_of_nat take_bit_eq_mod del: of_nat_add)

lemma frame_addr_inj: "f \<le> frame_limit \<Longrightarrow> g \<le> frame_limit \<Longrightarrow> frame_addr f = frame_addr g \<Longrightarrow> f = g"
  by (metis add_left_cancel mult_cancel1 unat_frame_addr zero_neq_numeral)

interpretation pmm: frame_allocator alloc_phys_page clear_frame taken bitmap_ok
proof unfold_locales
  fix p :: pmm and a p' f
  assume ok: "bitmap_ok p"
  show "\<exists>f. f \<notin> taken p \<and> f \<le> frame_limit \<and> a = frame_addr f \<and> taken p' = insert f (taken p)"
    if ret: "alloc_phys_page p = Inr (a, p')" "a \<noteq> 0"
  proof -
    obtain f where f: "f \<notin> taken p" "f \<le> frame_limit"
      using alloc_exhausted [OF ok _ ret(1)] ret(2) by blast
    then have "first_free p \<notin> taken p" "first_free p \<le> frame_limit"
      by (metis LeastI first_free_def) (metis Least_le first_free_def f order_trans)
    then show ?thesis
      using alloc_free_frame [OF ok f] ret by (auto simp: frame_addr_def)
  qed
  show "bitmap_ok p'" if ret: "alloc_phys_page p = Inr (a, p')"
    using ok ret by (auto simp: alloc_phys_page_def get_first_frame_def bitmap_ok_def Let_def
        split: option.splits if_splits prod.splits)
  show "taken p - {unat f} \<subseteq> taken (clear_frame f p) \<and> taken (clear_frame f p) \<subseteq> taken p"
    by (auto simp: taken_clear_frame)
  show "bitmap_ok (clear_frame f p)"
    using ok by (simp add: bitmap_ok_def)
qed

section \<open>Boot\<close>

lemma fold_set_frame:
  "num_frames (fold (\<lambda>i. set_frame (of_nat i)) is p) = num_frames p"
  by (induction "is" arbitrary: p) simp_all

lemma taken_fold_set_frame:
  "\<forall>i\<in>set is. i < 2 ^ 32 \<Longrightarrow>
     taken (fold (\<lambda>i. set_frame (of_nat i)) is p) = taken p \<union> set is"
  by (induction "is" arbitrary: p) (auto simp: taken_set_frame unat_of_nat_u32)

lemma kinit_num_frames: "num_frames (snd (kinit k a p)) = 2560"
  by (simp add: kinit_def Let_def fold_set_frame pre_malloc_def NUM_FRAMES_def split: prod.split)

lemma kinit_bitmap_ok: "bitmap_ok (snd (kinit k a p))"
  by (simp add: bitmap_ok_def kinit_num_frames frame_limit_def)

lemma kinit_taken: "f \<le> frame_limit \<Longrightarrow> f \<in> taken (snd (kinit k a p)) \<longleftrightarrow> f < 48"
proof -
  assume f: "f \<le> frame_limit"
  define q where "q = (if a \<ge> k then p\<lparr>pre_mem := pre_mem p + a\<rparr> else p)\<lparr>num_frames := NUM_FRAMES\<rparr>"
  define q' where "q' = snd (pre_malloc (num_frames q) q)"
  define q'' where "q'' = q'\<lparr>frames := (\<lambda>i. if i < unat (num_frames q') div 4 then 0 else frames q' i)\<rparr>"
  have "snd (kinit k a p) = fold (\<lambda>i. set_frame (of_nat i)) [0..<48] q''"
    by (simp only: kinit_def Let_def case_prod_unfold q_def q'_def q''_def snd_conv)
  then have "taken (snd (kinit k a p)) = taken q'' \<union> {0..<48}"
    by (simp add: taken_fold_set_frame del: upt.simps)
  moreover have "num_frames q' = 2560"
    by (simp add: q'_def q_def pre_malloc_def Let_def NUM_FRAMES_def)
  then have "f \<notin> taken q''"
    using f by (simp add: q''_def mem_taken frame_limit_def div_less_iff_less_mult)
  ultimately show ?thesis by simp
qed

lemma kinit_first_free: "first_free (snd (kinit k a p)) = 48"
  unfolding first_free_def
proof (rule Least_equality)
  show "48 \<notin> taken (snd (kinit k a p))"
    using kinit_taken [of 48] by (simp add: frame_limit_def)
  fix f assume "f \<notin> taken (snd (kinit k a p))"
  then show "48 \<le> f"
    using kinit_taken [of f k a p] by (cases "f \<le> frame_limit") (auto simp: frame_limit_def)
qed

lemma kinit_alloc:
  "\<exists>p'. alloc_phys_page (snd (kinit k a p)) = Inr (0x130000, p')"
  using alloc_free_frame [OF kinit_bitmap_ok [of k a p], of 48] kinit_taken [of 48 k a p]
  by (auto simp: frame_limit_def kinit_first_free)

section \<open>Owners\<close>

text \<open>
  A run of the allocator together with the addresses its clients hold: a client may take a page and
  may give back a page it holds, by its physical address as \<open>memory_unmap\<close> does.
\<close>

inductive frame_run :: "pmm \<Rightarrow> u64 set \<Rightarrow> bool" where
  boot: "frame_run (snd (kinit k a p)) {}"
| take: "frame_run p L \<Longrightarrow> alloc_phys_page p = Inr (pa, p') \<Longrightarrow> pa \<noteq> 0 \<Longrightarrow> frame_run p' (insert pa L)"
| give: "frame_run p L \<Longrightarrow> pa \<in> L \<Longrightarrow>
     frame_run (clear_frame (physical_to_frame (ucast pa)) p) (L - {pa})"

lemma ucast_frame_addr:
  "f \<le> frame_limit \<Longrightarrow> (ucast (frame_addr f) :: u32) = of_nat (0x100000 + 4096 * f)"
  by (simp add: frame_addr_def frame_limit_def unsigned_of_nat take_bit_eq_mod del: of_nat_add)

lemma frame_run_inv:
  "frame_run p L \<Longrightarrow> bitmap_ok p \<and> {0..<48} \<subseteq> taken p \<and>
     (\<exists>F. L = frame_addr ` F \<and> F \<subseteq> taken p \<and> F \<subseteq> {48..frame_limit})"
proof (induction rule: frame_run.induct)
  case (boot k a p)
  have "{0..<48} \<subseteq> taken (snd (kinit k a p))"
    using kinit_taken by (auto simp: frame_limit_def)
  then show ?case using kinit_bitmap_ok by auto
next
  case (take p L pa p')
  then obtain F where F: "L = frame_addr ` F" "F \<subseteq> taken p" "F \<subseteq> {48..frame_limit}"
      and ok: "bitmap_ok p" "{0..<48} \<subseteq> taken p"
    by auto
  obtain f where f: "f \<notin> taken p" "f \<le> frame_limit" "pa = frame_addr f" "taken p' = insert f (taken p)"
    using pmm.alloc_fresh [OF ok(1) take.hyps(2,3)] by auto
  have "48 \<le> f"
    using f(1) ok(2) by (metis atLeastLessThan_iff not_le subsetD zero_le)
  then show ?case
    using F f ok pmm.alloc_ok [OF ok(1) take.hyps(2)] by (auto intro!: exI [of _ "insert f F"])
next
  case (give p L pa)
  then obtain F where F: "L = frame_addr ` F" "F \<subseteq> taken p" "F \<subseteq> {48..frame_limit}"
      and ok: "bitmap_ok p" "{0..<48} \<subseteq> taken p"
    by auto
  obtain f where f: "f \<in> F" "pa = frame_addr f"
    using give.hyps(2) F(1) by auto
  have num: "unat (physical_to_frame (ucast pa)) = f" "48 \<le> f"
    using f F(3) physical_to_frame_inverse [of f] unat_of_nat_u32 [of f] ucast_frame_addr [of f]
    by (auto simp: frame_limit_def)
  have "frame_addr ` F - {frame_addr f} = frame_addr ` (F - {f})"
    using F(3) f(1) frame_addr_inj by (auto simp: subset_eq)
  with F f ok num pmm.free_owned [OF ok(1), of "physical_to_frame (ucast pa)"] show ?case
    by (auto simp: pmm.free_ok intro!: exI [of _ "F - {f}"])
qed

section \<open>Rounding\<close>

lemma PGSIZE_mask: "PGSIZE - 1 = mask 10"
  by (simp add: PGSIZE_def mask_eq_exp_minus_1)

lemma unat_PGROUNDUP:
  assumes "unat s + 1023 < 2 ^ 32"
  shows "unat (PGROUNDUP s) = (unat s + 1023) div 1024 * 1024"
proof -
  have "PGROUNDUP s = (s + mask 10) AND NOT (mask 10)"
    by (simp only: PGROUNDUP_def add_diff_eq [symmetric] PGSIZE_mask)
  then show ?thesis
    using unat_align_up [of s 10] assms by simp
qed

lemma unat_PGROUNDDOWN: "unat (PGROUNDDOWN a) = unat a div 1024 * 1024"
  using unat_align_down [of a 10] by (simp only: PGROUNDDOWN_def PGSIZE_mask) simp

lemma alloc_takes_least_raw:
  assumes "bitmap_ok p" and "f \<notin> taken p" and "f \<le> frame_limit"
  shows "\<exists>p'. alloc_phys_page p = Inr (frame_addr (first_free p), p') \<and>
    taken p' = insert (first_free p) (taken p) \<and> first_free p \<le> f"
proof -
  have "first_free p \<le> f"
    unfolding first_free_def using assms(2) by (rule Least_le)
  then show ?thesis
    using alloc_free_frame [OF assms] by (auto simp: frame_addr_def)
qed

section \<open>Properties\<close>

text \<open>An example state for the witnesses: the globals before \<open>kinit\<close>.\<close>

definition boot_pmm :: pmm where
  "boot_pmm = \<lparr>mem_top = 0x2000000, mem_bottom = 0x1000000, pre_mem = 0xC0120000,
     frames = (\<lambda>_. 0), num_frames = 0, last_frame = 0\<rparr>"

text \<open>
  While a frame up to 3840 is free, \<open>alloc_phys_page\<close> succeeds: it returns the address of the
  least free frame, and afterwards exactly that frame is taken in addition.
\<close>

theorem alloc_takes_least:
  assumes "bitmap_ok p" and "f \<notin> taken p" and "f \<le> frame_limit"
  shows "\<exists>p'. alloc_phys_page p = Inr (frame_addr (first_free p), p') \<and>
    taken p' = insert (first_free p) (taken p) \<and> first_free p \<le> f"
  by (rule alloc_takes_least_raw [OF assms])

theorem alloc_takes_least_witness:
  "\<exists>p'. alloc_phys_page (snd (kinit 0xC0120000 0 boot_pmm)) = Inr (0x130000, p') \<and> 48 \<in> taken p'"
proof -
  let ?p = "snd (kinit 0xC0120000 0 boot_pmm)"
  have "100 \<notin> taken ?p" "(100 :: nat) \<le> frame_limit"
    using kinit_taken [of 100] by (simp_all add: frame_limit_def)
  from alloc_takes_least [OF kinit_bitmap_ok this] show ?thesis
    by (auto simp: kinit_first_free frame_addr_def)
qed

text \<open>
  C5. In every run of clients that take pages and give back pages they hold, a new page is none of
  the pages held, is page aligned, lies above the kernel's 48 reserved frames and ends the range at
  16 MiB.
\<close>

theorem frame_run_exclusive:
  assumes "frame_run p L" and "alloc_phys_page p = Inr (pa, p')" and "pa \<noteq> 0"
  shows "pa \<notin> L \<and> 0x130000 \<le> unat pa \<and> unat pa \<le> 0x1000000 \<and> unat pa mod 4096 = 0"
proof -
  obtain F where inv: "bitmap_ok p" "{0..<48} \<subseteq> taken p" "L = frame_addr ` F" "F \<subseteq> taken p"
      "F \<subseteq> {48..frame_limit}"
    using frame_run_inv [OF assms(1)] by auto
  obtain f where f: "f \<notin> taken p" "f \<le> frame_limit" "pa = frame_addr f"
    using pmm.alloc_fresh [OF inv(1) assms(2,3)] by auto
  have "48 \<le> f"
    using f(1) inv(2) by (metis atLeastLessThan_iff not_le subsetD zero_le)
  moreover have "unat pa = 0x100000 + 4096 * f"
    using f by (simp add: unat_frame_addr)
  moreover have "pa \<notin> L"
  proof
    assume "pa \<in> L"
    then obtain g where g: "g \<in> F" "frame_addr f = frame_addr g"
      using inv(3) f(3) by auto
    then have "f = g"
      using inv(5) f(2) frame_addr_inj by auto
    with g inv(4) f(1) show False by auto
  qed
  ultimately show ?thesis
    using f(2) by (simp add: frame_limit_def mod_add_eq)
qed

theorem frame_run_exclusive_witness:
  "\<exists>p p' pa. frame_run p {0x130000} \<and> alloc_phys_page p = Inr (pa, p') \<and> pa \<noteq> 0x130000"
proof -
  let ?p = "snd (kinit 0xC0120000 0 boot_pmm)"
  obtain p1 where p1: "alloc_phys_page ?p = Inr (0x130000, p1)" "taken p1 = insert 48 (taken ?p)"
    using alloc_free_frame [OF kinit_bitmap_ok, of 48] kinit_taken [of 48]
    by (fastforce simp: frame_limit_def kinit_first_free)
  have run: "frame_run p1 {0x130000}"
    using frame_run.take [OF frame_run.boot p1(1)] by simp
  have "49 \<notin> taken p1" "(49 :: nat) \<le> frame_limit"
    using p1(2) kinit_taken [of 49] by (simp_all add: frame_limit_def)
  from alloc_takes_least_raw [OF pmm.alloc_ok [OF kinit_bitmap_ok p1(1)] this]
  obtain pa p2 where p2: "alloc_phys_page p1 = Inr (pa, p2)" "pa = frame_addr (first_free p1)"
      "first_free p1 \<le> frame_limit"
    using le_trans [OF _ \<open>49 \<le> frame_limit\<close>] by auto
  have "pa \<noteq> 0"
    using unat_frame_addr [OF p2(3)] p2(2) by auto
  with frame_run_exclusive [OF run p2(1)] run p2(1) show ?thesis by blast
qed

text \<open>
  Giving a fresh page straight back restores the set of taken frames only for frames up to
  2560: \<open>clear_frame\<close> ignores the frames 2561 to 3840, which the allocator does hand out.
\<close>

theorem alloc_then_clear:
  assumes "bitmap_ok p" and "num_frames p = NUM_FRAMES"
    and "alloc_phys_page p = Inr (pa, p')" and "pa \<noteq> 0"
  shows "taken (clear_frame (physical_to_frame (ucast pa)) p') =
    (if first_free p \<le> 2560 then taken p else insert (first_free p) (taken p))"
proof -
  obtain f where f: "f \<notin> taken p" "f \<le> frame_limit"
    using pmm.alloc_fresh [OF assms(1,3,4)] by auto
  then have least: "first_free p \<le> frame_limit" "first_free p \<notin> taken p"
    by (metis Least_le first_free_def order_trans) (metis LeastI f(1) first_free_def)
  obtain p1 where p1: "alloc_phys_page p = Inr (frame_addr (first_free p), p1)"
      "taken p1 = insert (first_free p) (taken p)" "num_frames p1 = num_frames p"
    using alloc_free_frame [OF assms(1) f] by (auto simp: frame_addr_def)
  have frame: "physical_to_frame (ucast pa) = of_nat (first_free p)"
    using assms(3) p1(1) physical_to_frame_inverse [OF least(1)] ucast_frame_addr [OF least(1)]
    by (metis Pair_inject sum.inject(2))
  have num: "unat (of_nat (first_free p) :: u32) = first_free p"
    using least(1) by (intro unat_of_nat_u32) (simp add: frame_limit_def)
  show ?thesis
    using assms(2,3) p1 least(2)
    by (auto simp: frame taken_clear_frame num word_less_nat_alt NUM_FRAMES_def)
qed

theorem alloc_then_clear_witness:
  "\<exists>p'. alloc_phys_page (snd (kinit 0xC0120000 0 boot_pmm)) = Inr (0x130000, p') \<and>
    taken (clear_frame (physical_to_frame 0x130000) p') = taken (snd (kinit 0xC0120000 0 boot_pmm))"
proof -
  let ?p = "snd (kinit 0xC0120000 0 boot_pmm)"
  obtain p1 where p1: "alloc_phys_page ?p = Inr (0x130000, p1)"
    using kinit_alloc by blast
  have "num_frames ?p = NUM_FRAMES"
    by (simp add: kinit_num_frames NUM_FRAMES_def)
  from alloc_then_clear [OF kinit_bitmap_ok this p1] p1 show ?thesis
    by (simp add: kinit_first_free)
qed

text \<open>
  Two successive blocks of the boot allocator \<open>pre_malloc\<close> do not overlap, both start at a
  multiple of \<open>PGSIZE\<close>, and each is at least as long as asked.
\<close>

theorem pre_malloc_disjoint:
  assumes "unat (pre_mem p) + unat s1 + 2048 < 2 ^ 32"
    and "pre_malloc s1 p = ((a1, ph1), p1)" and "pre_malloc s2 p1 = ((a2, ph2), p2)"
  shows "unat a1 + unat s1 \<le> unat a2 \<and> unat a1 mod 1024 = 0 \<and> unat (pre_mem p) \<le> unat a1"
proof -
  let ?up = "\<lambda>n. (n + 1023) div 1024 * (1024 :: nat)"
  have s1: "unat (PGROUNDUP s1) = ?up (unat s1)" and a1: "unat a1 = ?up (unat (pre_mem p))"
    using assms by (auto simp: pre_malloc_def Let_def unat_PGROUNDUP)
  have bounds: "n \<le> ?up n" "?up n \<le> n + 1023" for n
    using round_up_bounds [of 1024 n] by simp_all
  have "unat (pre_mem p1) = unat (pre_mem p) + ?up (unat s1)"
    using assms(1,2) s1 bounds(2) [of "unat s1"]
    by (auto simp: pre_malloc_def Let_def unat_plus_if')
  moreover have "?up (unat (pre_mem p) + ?up (unat s1)) = ?up (unat (pre_mem p)) + ?up (unat s1)"
    using round_up_add [of 1024 "unat (pre_mem p)" "(unat s1 + 1023) div 1024"] by simp
  ultimately have "unat a2 = ?up (unat (pre_mem p)) + ?up (unat s1)"
    using assms(1,3) bounds(2) [of "unat s1"] by (auto simp: pre_malloc_def Let_def unat_PGROUNDUP)
  with a1 bounds(1) [of "unat s1"] bounds(1) [of "unat (pre_mem p)"] show ?thesis by simp
qed

theorem pre_malloc_disjoint_witness:
  "\<exists>a1 a2 p1 p2. pre_malloc 100 boot_pmm = ((a1, a1 - 0xC0000000), p1) \<and>
     pre_malloc 5000 p1 = ((a2, a2 - 0xC0000000), p2) \<and> unat a1 + 100 \<le> unat a2"
proof -
  obtain a1 p1 a2 p2 where
    calls: "pre_malloc 100 boot_pmm = ((a1, a1 - 0xC0000000), p1)"
      "pre_malloc 5000 p1 = ((a2, a2 - 0xC0000000), p2)"
    by (auto simp: pre_malloc_def Let_def)
  have "unat (pre_mem boot_pmm) + unat (100 :: u32) + 2048 < 2 ^ 32"
    by (simp add: boot_pmm_def)
  from pre_malloc_disjoint [OF this calls] calls show ?thesis by auto
qed

end
