(* ===== verification/Paging.thy ===== *)
theory Paging
  imports Pmm
begin

text \<open>
  The page tables of \<open>memory/paging.c\<close>. Physical frames hold tables of entries; a virtual address is
  resolved by walking them, as the CPU does. The code edits the tables through their recursive
  mapping: a pointer to a table is a virtual address that is walked like any other, and an access to
  an address that is not mapped is a page fault.
\<close>

section \<open>Two-level paging\<close>

text \<open>\<open>pd_frame\<close> is the frame of the active page directory, which \<open>root_pd\<close> points to.\<close>

record paging =
  pd_frame :: u32
  tables :: "u32 \<Rightarrow> nat \<Rightarrow> u32"
  phys_mem :: pmm

definition RECURSIVE_ADDR :: u32 where
  "RECURSIVE_ADDR = 0xFFC00000"

definition frame_of :: "u32 \<Rightarrow> u32" where
  "frame_of e = e AND NOT 0xFFF"

definition present :: "u32 \<Rightarrow> bool" where
  "present e \<longleftrightarrow> e AND 1 \<noteq> 0"

definition pd_index :: "u32 \<Rightarrow> nat" where
  "pd_index virt = unat (drop_bit 22 virt)"

definition pt_index :: "u32 \<Rightarrow> nat" where
  "pt_index virt = unat (drop_bit 12 virt AND 0x3FF)"

definition pde :: "paging \<Rightarrow> nat \<Rightarrow> u32" where
  "pde s i = tables s (pd_frame s) i"

text \<open>The frame a virtual address is mapped to.\<close>

definition walk :: "paging \<Rightarrow> u32 \<Rightarrow> u32 option" where
  "walk s va =
     (let d = pde s (pd_index va); t = tables s (frame_of d) (pt_index va)
      in if present d \<and> present t then Some (frame_of t) else None)"

definition set_entry :: "u32 \<Rightarrow> nat \<Rightarrow> u32 \<Rightarrow> paging \<Rightarrow> paging" where
  "set_entry f i v s = s\<lparr>tables := (tables s)(f := (tables s f)(i := v))\<rparr>"

text \<open>Reading and writing entry \<open>i\<close> of the table at virtual address \<open>va\<close>.\<close>

definition read_table :: "u32 \<Rightarrow> nat \<Rightarrow> paging \<Rightarrow> u32 result" where
  "read_table va i s = (case walk s va of None \<Rightarrow> Inl (PageFault (va + 4 * of_nat i)) | Some f \<Rightarrow> Inr (tables s f i))"

definition write_table :: "u32 \<Rightarrow> nat \<Rightarrow> u32 \<Rightarrow> paging \<Rightarrow> paging result" where
  "write_table va i v s = (case walk s va of None \<Rightarrow> Inl (PageFault (va + 4 * of_nat i)) | Some f \<Rightarrow> Inr (set_entry f i v s))"

text \<open>\<open>memset(virt_pt, 0, 1024)\<close> clears 256 of the 1024 entries.\<close>

definition create_new_pt :: "nat \<Rightarrow> paging \<Rightarrow> (u32 \<times> paging) result" where
  "create_new_pt i s =
     (case alloc_phys_page (phys_mem s) of
        Inl e \<Rightarrow> Inl e
      | Inr (new_pt, p) \<Rightarrow>
          (let s1 = set_entry (pd_frame s) i (ucast new_pt OR 3) (s\<lparr>phys_mem := p\<rparr>);
               virt_pt = RECURSIVE_ADDR OR push_bit 12 (of_nat i)
           in case walk s1 virt_pt of
                None \<Rightarrow> Inl (PageFault virt_pt)
              | Some f \<Rightarrow> Inr (virt_pt, s1\<lparr>tables := (tables s1)(f := (\<lambda>j. if j < 256 then 0 else tables s1 f j))\<rparr>)))"

definition memory_map :: "u32 \<Rightarrow> u32 \<Rightarrow> u32 \<Rightarrow> paging \<Rightarrow> paging result" where
  "memory_map phys virt flags s =
     (let i = pd_index virt; j = pt_index virt
      in case (if \<not> present (pde s i) then map_sum id snd (create_new_pt i s) else Inr s) of
           Inl e \<Rightarrow> Inl e
         | Inr s1 \<Rightarrow>
             let page_table = RECURSIVE_ADDR + of_nat i * 4096
             in if phys AND 0x3FF \<noteq> 0 then Inl (Panic ''PHYSICAL ADDRESS NOT PAGE ALIGNED'')
                else write_table page_table j (phys OR flags) s1)"

definition memory_unmap :: "u32 \<Rightarrow> paging \<Rightarrow> paging result" where
  "memory_unmap virt s =
     (let i = pd_index virt; j = pt_index virt; page_table = RECURSIVE_ADDR OR push_bit 12 (of_nat i)
      in if pde s i = 0 then Inr s
         else if virt AND 0x3FF \<noteq> 0 then Inr s
         else case read_table page_table j s of
                Inl e \<Rightarrow> Inl e
              | Inr v \<Rightarrow>
                  let s1 = s\<lparr>phys_mem := clear_frame (physical_to_frame (v AND NOT 0xFFF)) (phys_mem s)\<rparr>
                  in write_table page_table j 0 s1)"

definition newinit_pd :: "u32 \<Rightarrow> (nat \<Rightarrow> u32) \<Rightarrow> nat \<Rightarrow> u32" where
  "newinit_pd pd t = (\<lambda>i. if i = 1023 then (pd - 4 * 0xC0000000) OR 3 else if i < 1024 then 2 else t i)"

text \<open>The initial kernel table: pages from 1 MiB on, the first ones present. \<open>limit\<close> is \<open>260 + init_pages\<close>.\<close>

definition init_kpt_entry :: "u32 \<Rightarrow> (nat \<Rightarrow> u32) \<Rightarrow> nat \<Rightarrow> u32" where
  "init_kpt_entry limit pt i =
     (if 256 \<le> i \<and> i < 1024 \<and> pt i AND 3 = 0
      then (of_nat (i - 256) * 0x1000 + 0x100000) OR (if of_nat i > limit then 2 else 3)
      else pt i)"

definition init_pages :: "u32 \<Rightarrow> u32 \<Rightarrow> u32" where
  "init_pages kend tag_size = ((kend - 0x100000) + PGROUNDUP NUM_FRAMES + tag_size) div 4096"

definition init_kpt :: "u32 \<Rightarrow> u32 \<Rightarrow> (nat \<Rightarrow> u32) \<Rightarrow> nat \<Rightarrow> u32" where
  "init_kpt kend tag_size pt = init_kpt_entry (260 + init_pages kend tag_size) pt"

text \<open>The page fault handler: a fault whose code is 0 or 2 stops the kernel, others are reported.\<close>

definition handle_exception :: "u32 \<Rightarrow> u8 result" where
  "handle_exception code = (if code AND NOT 2 = 0 then Inl (Panic ''MEMORY PAGE FAULT'') else Inr 1)"

section \<open>Three-level paging\<close>

record pae =
  pdpt :: "nat \<Rightarrow> u64"
  tables64 :: "u64 \<Rightarrow> nat \<Rightarrow> u64"
  max_bit_extension :: u32
  pae_mem :: pmm

definition frame64 :: "u64 \<Rightarrow> u64" where
  "frame64 e = e AND NOT 0xFFF"

definition present64 :: "u64 \<Rightarrow> bool" where
  "present64 e \<longleftrightarrow> e AND 1 \<noteq> 0"

definition pdpt_index :: "u32 \<Rightarrow> nat" where
  "pdpt_index virt = unat (drop_bit 30 virt)"

definition pae_pd_index :: "u32 \<Rightarrow> nat" where
  "pae_pd_index virt = unat (drop_bit 21 virt AND 0x1FF)"

definition pae_pt_index :: "u32 \<Rightarrow> nat" where
  "pae_pt_index virt = unat (drop_bit 12 virt AND 0x1FF)"

definition pae_pd :: "pae \<Rightarrow> nat \<Rightarrow> nat \<Rightarrow> u64" where
  "pae_pd s p i = tables64 s (frame64 (pdpt s p)) i"

definition pae_walk :: "pae \<Rightarrow> u32 \<Rightarrow> u64 option" where
  "pae_walk s va =
     (let d = pae_pd s (pdpt_index va) (pae_pd_index va); t = tables64 s (frame64 d) (pae_pt_index va)
      in if present64 (pdpt s (pdpt_index va)) \<and> present64 d \<and> present64 t then Some (frame64 t) else None)"

definition set_entry64 :: "u64 \<Rightarrow> nat \<Rightarrow> u64 \<Rightarrow> pae \<Rightarrow> pae" where
  "set_entry64 f i v s = s\<lparr>tables64 := (tables64 s)(f := (tables64 s f)(i := v))\<rparr>"

definition read_table64 :: "u32 \<Rightarrow> nat \<Rightarrow> pae \<Rightarrow> u64 result" where
  "read_table64 va i s = (case pae_walk s va of None \<Rightarrow> Inl (PageFault (va + 8 * of_nat i)) | Some f \<Rightarrow> Inr (tables64 s f i))"

definition write_table64 :: "u32 \<Rightarrow> nat \<Rightarrow> u64 \<Rightarrow> pae \<Rightarrow> pae result" where
  "write_table64 va i v s =
     (case pae_walk s va of None \<Rightarrow> Inl (PageFault (va + 8 * of_nat i)) | Some f \<Rightarrow> Inr (set_entry64 f i v s))"

text \<open>The recursive window of the gigabyte \<open>p\<close> and the pointers the code forms in it.\<close>

definition recursive_base :: "nat \<Rightarrow> u32" where
  "recursive_base p = push_bit 30 (of_nat p) + 0x3fe00000"

definition table_addr :: "nat \<Rightarrow> nat \<Rightarrow> u32" where
  "table_addr p i = recursive_base p OR push_bit 12 (of_nat i)"

definition get_phys_from_virt :: "u32 \<Rightarrow> pae \<Rightarrow> u64 result" where
  "get_phys_from_virt virt s =
     (let p = pdpt_index virt; i = pae_pd_index virt; j = pae_pt_index virt
      in case read_table64 (table_addr p 1023) i s of
           Inl e \<Rightarrow> Inl e
         | Inr d \<Rightarrow> if \<not> present64 d then Inr 0
             else map_sum id (\<lambda>t. t AND NOT 0xFFF) (read_table64 (table_addr p i) j s))"

text \<open>
  \<open>create_new_pae_pt\<close>; \<open>pae_kalloc\<close> is the call the code makes, through the virtual memory manager, when
  the directory of the gigabyte itself is missing.
\<close>

definition create_new_pae_pt :: "(pae \<Rightarrow> pae result) \<Rightarrow> nat \<Rightarrow> nat \<Rightarrow> pae \<Rightarrow> pae result" where
  "create_new_pae_pt pae_kalloc p i s =
     (case (if \<not> present64 (pdpt s p) then
              (case alloc_phys_page (pae_mem s) of
                 Inl e \<Rightarrow> Inl e
               | Inr (new_pd, m) \<Rightarrow> pae_kalloc (s\<lparr>pae_mem := m, pdpt := (pdpt s)(p := new_pd OR 1)\<rparr>))
            else Inr s) of
        Inl e \<Rightarrow> Inl e
      | Inr s1 \<Rightarrow>
          (case alloc_phys_page (pae_mem s1) of
             Inl e \<Rightarrow> Inl e
           | Inr (new_pt, m) \<Rightarrow>
               (case write_table64 (table_addr p 511) i (new_pt OR 3) (s1\<lparr>pae_mem := m\<rparr>) of
                  Inl e \<Rightarrow> Inl e
                | Inr s2 \<Rightarrow>
                    (case pae_walk s2 (table_addr p i) of
                       None \<Rightarrow> Inl (PageFault (table_addr p i))
                     | Some f \<Rightarrow> Inr (s2\<lparr>tables64 := (tables64 s2)(f := (\<lambda>j. if j < 512 then 0 else tables64 s2 f j))\<rparr>)))))"

definition pae_mmap :: "(pae \<Rightarrow> pae result) \<Rightarrow> u64 \<Rightarrow> u32 \<Rightarrow> u32 \<Rightarrow> pae \<Rightarrow> pae result" where
  "pae_mmap pae_kalloc phys virt flags s =
     (let p = pdpt_index virt; i = pae_pd_index virt; j = pae_pt_index virt
      in if drop_bit (unat (max_bit_extension s)) phys \<noteq> 0 then Inl (Panic ''Physical address past possible value'')
         else if phys AND 0x3FF \<noteq> 0 then Inl (Panic ''Physical address not properly aligned'')
         else
           (case read_table64 (table_addr p 1023) i s of
              Inl e \<Rightarrow> Inl e
            | Inr d \<Rightarrow>
                (case (if \<not> present64 d then create_new_pae_pt pae_kalloc p i s else Inr s) of
                   Inl e \<Rightarrow> Inl e
                 | Inr s1 \<Rightarrow>
                     (case write_table64 (table_addr p i) j 0 s1 of
                        Inl e \<Rightarrow> Inl e
                      | Inr s2 \<Rightarrow> write_table64 (table_addr p i) j (phys OR ucast flags) s2))))"

definition pae_unmap :: "u32 \<Rightarrow> pae \<Rightarrow> pae result" where
  "pae_unmap virt s =
     (let p = pdpt_index virt; i = pae_pd_index virt; j = pae_pt_index virt
      in case read_table64 (table_addr p i) j s of
           Inl e \<Rightarrow> Inl e
         | Inr v \<Rightarrow>
             let phys = ucast (v AND NOT 0xFFF) :: u32
             in write_table64 (table_addr p i) j 0
                  (s\<lparr>pae_mem := clear_frame (physical_to_frame phys) (pae_mem s)\<rparr>))"

section \<open>Indices of addresses\<close>

lemma pd_index_nat: "pd_index va = unat va div 2 ^ 22"
  by (simp add: pd_index_def drop_bit_eq_div unat_div)

lemma and_mask_nat: "unat (w AND mask n :: u32) = unat w mod 2 ^ n"
  by (simp only: take_bit_eq_mask [symmetric] unsigned_take_bit_eq) (simp only: take_bit_eq_mod)

lemma pt_index_nat: "pt_index va = unat va div 2 ^ 12 mod 2 ^ 10"
proof -
  have "(0x3FF :: u32) = mask 10"
    by (simp add: mask_eq_exp_minus_1)
  then show ?thesis
    by (simp only: pt_index_def and_mask_nat) (simp add: drop_bit_eq_div unat_div)
qed

lemma pd_index_less: "pd_index va < 1024"
  using unat_lt_u32 [of va] by (simp add: pd_index_nat less_mult_imp_div_less)

lemma pt_index_less: "pt_index va < 1024"
  by (simp add: pt_index_nat)

lemma unat_push_12: "i < 1024 \<Longrightarrow> unat (push_bit 12 (of_nat i) :: u32) = 4096 * i"
proof -
  assume "i < 1024"
  then have "push_bit 12 (of_nat i) = (of_nat (4096 * i) :: u32)" "4096 * i < 2 ^ 32"
    by (simp_all add: push_bit_eq_mult)
  then show ?thesis
    using unat_of_nat_u32 by metis
qed

lemma window_eq: "i < 1024 \<Longrightarrow> RECURSIVE_ADDR OR push_bit 12 (of_nat i) = RECURSIVE_ADDR + of_nat i * 4096"
proof -
  assume i: "i < 1024"
  have "RECURSIVE_ADDR AND push_bit 12 (of_nat i) = (0 :: u32)"
  proof (rule bit_word_eqI)
    fix n
    have "\<not> (bit RECURSIVE_ADDR n \<and> bit (push_bit 12 (of_nat i :: u32)) n)"
    proof (cases "n < 22")
      case True
      have eq: "RECURSIVE_ADDR = push_bit 22 (0x3FF :: u32)"
        by (simp add: RECURSIVE_ADDR_def push_bit_eq_mult)
      show ?thesis
        unfolding eq bit_push_bit_iff using True by simp
    next
      case False
      have "4096 * i < 2 ^ n"
        using False i power_increasing [of 22 n "2 :: nat"] by simp
      then have "\<not> bit (unat (push_bit 12 (of_nat i) :: u32)) n"
        using unat_push_12 [OF i] by (simp add: bit_iff_odd)
      then show ?thesis
        by (simp add: bit_unsigned_iff)
    qed
    then show "bit (RECURSIVE_ADDR AND push_bit 12 (of_nat i)) n = bit (0 :: u32) n"
      by (simp only: bit_and_iff bit_0_eq bot_apply bot_bool_def)
  qed
  then have "RECURSIVE_ADDR OR push_bit 12 (of_nat i) = RECURSIVE_ADDR + push_bit 12 (of_nat i)"
    using word_plus_and_or [of RECURSIVE_ADDR "push_bit 12 (of_nat i)"] by simp
  then show ?thesis
    by (simp add: push_bit_eq_mult)
qed

lemma unat_window: "i < 1024 \<Longrightarrow> unat (RECURSIVE_ADDR + of_nat i * 4096) = 0xFFC00000 + 4096 * i"
proof -
  assume i: "i < 1024"
  have "RECURSIVE_ADDR + of_nat i * 4096 = (of_nat (0xFFC00000 + 4096 * i) :: u32)"
    by (simp add: RECURSIVE_ADDR_def)
  moreover have "0xFFC00000 + 4096 * i < 2 ^ 32"
    using i by simp
  ultimately show ?thesis
    using unat_of_nat_u32 by metis
qed

lemma window_indices:
  assumes "i < 1024"
  shows "pd_index (RECURSIVE_ADDR + of_nat i * 4096) = 1023" "pt_index (RECURSIVE_ADDR + of_nat i * 4096) = i"
proof -
  have "(0xFFC00000 + 4096 * i) div 2 ^ 22 = 1023"
    using assms by (intro div_nat_eqI) simp_all
  then show "pd_index (RECURSIVE_ADDR + of_nat i * 4096) = 1023"
    by (simp only: pd_index_nat unat_window [OF assms])
  have "(0xFFC00000 + 4096 * i) div 2 ^ 12 = 0xFFC00 + i"
    by simp
  then show "pt_index (RECURSIVE_ADDR + of_nat i * 4096) = i"
    using assms mod_mult_self3 [of 1023 1024 i] by (simp only: pt_index_nat unat_window [OF assms]) simp
qed

section \<open>Mapping a page\<close>

text \<open>
  The situation the code relies on: the last directory entry maps the directory itself, and every
  table belongs to one entry only.
\<close>

definition paging_ok :: "paging \<Rightarrow> bool" where
  "paging_ok s \<longleftrightarrow> present (pde s 1023) \<and> frame_of (pde s 1023) = pd_frame s \<and>
     (\<forall>i<1023. present (pde s i) \<longrightarrow> frame_of (pde s i) \<noteq> pd_frame s) \<and>
     (\<forall>i<1023. \<forall>j<1023. present (pde s i) \<longrightarrow> present (pde s j) \<longrightarrow> frame_of (pde s i) = frame_of (pde s j) \<longrightarrow> i = j)"

lemma walk_window:
  assumes "paging_ok s" "i < 1024" "present (pde s i)"
  shows "walk s (RECURSIVE_ADDR + of_nat i * 4096) = Some (frame_of (pde s i))"
  using assms by (simp add: walk_def window_indices paging_ok_def Let_def) (simp add: pde_def)

lemma split_mask: "(w AND m) OR (w AND NOT m) = (w :: u32)"
  by (rule bit_word_eqI) (auto simp: bit_and_iff bit_or_iff bit_not_iff)

lemma or_and_zero: "(v OR w) AND m = 0 \<Longrightarrow> w AND m = (0 :: u32)"
  by (simp add: bit_eq_iff bit_and_iff bit_or_iff) blast

lemma frame_of_mapped:
  fixes phys flags :: u32
  assumes "phys AND 0xFFF = 0" "flags AND NOT 0xFFF = 0" "flags AND 1 \<noteq> 0"
  shows "frame_of (phys OR flags) = phys" "present (phys OR flags)"
proof -
  have p: "phys AND NOT 0xFFF = phys"
    by (metis split_mask assms(1) or.left_neutral)
  have "(phys OR flags) AND NOT 0xFFF = (phys AND NOT 0xFFF) OR (flags AND NOT 0xFFF)"
    by (rule bit_word_eqI) (auto simp: bit_and_iff bit_or_iff)
  then show "frame_of (phys OR flags) = phys"
    by (simp only: frame_of_def p assms(2) or.right_neutral)
  show "present (phys OR flags)"
    unfolding present_def using or_and_zero [of phys flags 1] assms(3) by blast
qed

lemma table_unshared:
  assumes ok: "paging_ok s" and va: "present (pde s (pd_index va)) \<and> frame_of (pde s (pd_index va)) = frame_of (pde s i)"
    and i: "i < 1023" "present (pde s i)"
  shows "pd_index va = i"
proof -
  have "frame_of (pde s i) \<noteq> pd_frame s"
    using ok i by (simp add: paging_ok_def)
  then have "pd_index va \<noteq> 1023"
    using va ok by (auto simp: paging_ok_def)
  then have "pd_index va < 1023"
    using pd_index_less [of va] by simp
  then show ?thesis
    using ok va i by (simp add: paging_ok_def)
qed

lemma map_existing:
  assumes ok: "paging_ok s" and d: "present (pde s (pd_index virt))" "pd_index virt \<noteq> 1023"
    and al: "phys AND 0xFFF = 0" "flags AND NOT 0xFFF = 0" "flags AND 1 \<noteq> 0"
  shows "\<exists>s'. memory_map phys virt flags s = Inr s' \<and> paging_ok s' \<and> walk s' virt = Some phys \<and>
    (\<forall>va. (pd_index va, pt_index va) \<noteq> (pd_index virt, pt_index virt) \<longrightarrow> walk s' va = walk s va) \<and>
    pde s' = pde s \<and> pd_frame s' = pd_frame s \<and> phys_mem s' = phys_mem s"
proof -
  let ?i = "pd_index virt" and ?j = "pt_index virt"
  let ?f = "frame_of (pde s ?i)"
  have i: "?i < 1023"
    using pd_index_less [of virt] d(2) by simp
  have al2: "phys AND 0x3FF = 0"
  proof -
    have "phys AND 0x3FF = (phys AND 0xFFF) AND (0x3FF :: u32)"
      by (simp add: and.assoc)
    then show ?thesis using al(1) by simp
  qed
  have f: "?f \<noteq> pd_frame s"
    using ok i d(1) by (simp add: paging_ok_def)
  define s' where "s' = set_entry ?f ?j (phys OR flags) s"
  have eq: "memory_map phys virt flags s = Inr s'"
    using d(1) al2 walk_window [OF ok _ d(1)] i
    by (simp add: memory_map_def write_table_def s'_def Let_def)
  have pde: "pde s' k = pde s k" "pd_frame s' = pd_frame s" for k
    using f by (simp_all add: pde_def s'_def set_entry_def)
  have tab: "tables s' g k = (if g = ?f \<and> k = ?j then phys OR flags else tables s g k)" for g k
    by (simp add: s'_def set_entry_def)
  have "paging_ok s'"
    using ok by (simp add: paging_ok_def pde)
  moreover have "walk s' virt = Some phys"
    using d(1) frame_of_mapped [OF al] by (simp add: walk_def pde tab Let_def)
  moreover have "walk s' va = walk s va"
    if "(pd_index va, pt_index va) \<noteq> (pd_index virt, pt_index virt)" for va
  proof (cases "present (pde s (pd_index va)) \<and> frame_of (pde s (pd_index va)) = ?f")
    case True
    then have "pd_index va = ?i"
      using table_unshared [OF ok _ i d(1)] by simp
    then have "pt_index va \<noteq> ?j" using that by simp
    then show ?thesis by (simp add: walk_def pde tab Let_def)
  next
    case False
    then show ?thesis by (auto simp: walk_def pde tab Let_def)
  qed
  moreover have "pde s' = pde s" "phys_mem s' = phys_mem s"
    using pde(1) by (auto simp: s'_def set_entry_def)
  ultimately show ?thesis
    using eq pde(2) by blast
qed

text \<open>A frame that no directory entry refers to, as a frame just allocated is.\<close>

definition unused_frame :: "paging \<Rightarrow> u32 \<Rightarrow> bool" where
  "unused_frame s f \<longleftrightarrow> f AND 0xFFF = 0 \<and> f \<noteq> pd_frame s \<and> (\<forall>i<1024. present (pde s i) \<longrightarrow> frame_of (pde s i) \<noteq> f)"

lemma create_new_pt_ok:
  assumes ok: "paging_ok s" and i: "i < 1023" "\<not> present (pde s i)"
    and al: "alloc_phys_page (phys_mem s) = Inr (f, p)" and un: "unused_frame s (ucast f)"
  shows "\<exists>va s'. create_new_pt i s = Inr (va, s') \<and> paging_ok s' \<and> present (pde s' i) \<and>
    (\<forall>va. pd_index va \<noteq> i \<longrightarrow> pd_index va \<noteq> 1023 \<longrightarrow> walk s' va = walk s va) \<and>
    pde s' = (pde s)(i := ucast f OR 3) \<and> pd_frame s' = pd_frame s \<and> phys_mem s' = p"
proof -
  let ?f = "ucast f :: u32"
  let ?e = "?f OR 3 :: u32"
  have e: "frame_of ?e = ?f" "present ?e"
    using frame_of_mapped [of ?f 3] un by (simp_all add: unused_frame_def)
  have f: "?f \<noteq> pd_frame s"
    using un by (simp add: unused_frame_def)
  define s1 where "s1 = set_entry (pd_frame s) i ?e (s\<lparr>phys_mem := p\<rparr>)"
  have pde1: "pde s1 k = (if k = i then ?e else pde s k)" "pd_frame s1 = pd_frame s" for k
    by (simp_all add: s1_def pde_def set_entry_def)
  have ok1: "paging_ok s1"
  proof -
    have un': "frame_of (pde s j) \<noteq> ?f" "?f \<noteq> frame_of (pde s j)" if "j < 1023" "present (pde s j)" for j
    proof -
      have "j < 1024" using that by simp
      then show "frame_of (pde s j) \<noteq> ?f" "?f \<noteq> frame_of (pde s j)"
        using un that(2) unfolding unused_frame_def by metis+
    qed
    show ?thesis
      using ok i f e(1) un' unfolding paging_ok_def pde1 by (auto simp: e)
  qed
  have w: "walk s1 (RECURSIVE_ADDR OR push_bit 12 (of_nat i)) = Some ?f"
    using walk_window [OF ok1, of i] i e by (simp add: pde1 window_eq)
  define s2 where "s2 = s1\<lparr>tables := (tables s1)(?f := (\<lambda>j. if j < 256 then 0 else tables s1 ?f j))\<rparr>"
  have eq: "create_new_pt i s = Inr (RECURSIVE_ADDR OR push_bit 12 (of_nat i), s2)"
    using w by (simp add: create_new_pt_def al Let_def s2_def flip: s1_def cong: if_cong)
  have pde2: "pde s2 k = pde s1 k" "pd_frame s2 = pd_frame s1" for k
    using f by (simp_all add: s2_def pde_def pde1)
  have "paging_ok s2"
    using ok1 by (simp add: paging_ok_def pde2)
  moreover have "walk s2 va = walk s va" if va: "pd_index va \<noteq> i" "pd_index va \<noteq> 1023" for va
  proof (cases "present (pde s (pd_index va))")
    case True
    have "pd_index va < 1023"
      using pd_index_less [of va] va(2) by simp
    then have "frame_of (pde s (pd_index va)) \<noteq> ?f" "frame_of (pde s (pd_index va)) \<noteq> pd_frame s"
      using un ok True by (simp_all add: unused_frame_def paging_ok_def)
    then have "tables s2 (frame_of (pde s (pd_index va))) = tables s (frame_of (pde s (pd_index va)))"
      by (simp add: s2_def s1_def set_entry_def)
    then show ?thesis
      using va(1) by (simp add: walk_def pde2 pde1 Let_def)
  next
    case False
    then show ?thesis using va by (simp add: walk_def pde2 pde1 Let_def)
  qed
  moreover have "present (pde s2 i)"
    by (simp add: pde2 pde1 e)
  moreover have "pde s2 = (pde s)(i := ?e)" "phys_mem s2 = p"
    using pde2(1) pde1(1) by (auto simp: s2_def s1_def set_entry_def)
  ultimately show ?thesis using eq pde2(2) pde1(2) by auto
qed

lemma memory_map_ok:
  assumes ok: "paging_ok s" and i: "pd_index virt \<noteq> 1023"
    and ready: "present (pde s (pd_index virt)) \<or>
      (\<exists>f p. alloc_phys_page (phys_mem s) = Inr (f, p) \<and> unused_frame s (ucast f))"
    and al: "phys AND 0xFFF = 0" "flags AND NOT 0xFFF = 0" "flags AND 1 \<noteq> 0"
  shows "\<exists>s'. memory_map phys virt flags s = Inr s' \<and> paging_ok s' \<and> walk s' virt = Some phys \<and>
    (\<forall>va. pd_index va \<noteq> 1023 \<longrightarrow> pd_index va \<noteq> pd_index virt \<or>
       present (pde s (pd_index virt)) \<and> pt_index va \<noteq> pt_index virt \<longrightarrow> walk s' va = walk s va)"
proof (cases "present (pde s (pd_index virt))")
  case True
  then show ?thesis
    using map_existing [OF ok True i al] by auto
next
  case False
  then obtain f p where f: "alloc_phys_page (phys_mem s) = Inr (f, p)" "unused_frame s (ucast f)"
    using ready by blast
  have "pd_index virt < 1023"
    using pd_index_less [of virt] i by simp
  then obtain va s1 where s1: "create_new_pt (pd_index virt) s = Inr (va, s1)" "paging_ok s1"
      "present (pde s1 (pd_index virt))"
      "\<And>va. pd_index va \<noteq> pd_index virt \<Longrightarrow> pd_index va \<noteq> 1023 \<Longrightarrow> walk s1 va = walk s va"
    using create_new_pt_ok [OF ok _ False f] by blast
  have "memory_map phys virt flags s = memory_map phys virt flags s1"
    using False s1 by (simp add: memory_map_def Let_def)
  then show ?thesis
    using map_existing [OF s1(2,3) i al] s1(4) False by auto
qed

text \<open>
  C10. Mapping a page: when the directory entry is present or a page table can be allocated, after
  \<open>memory_map\<close> the processor resolves the address to the frame asked for; other pages under the same
  directory entry (when it was present) and under all others but the recursive one resolve as before,
  and the recursive mapping is kept.
\<close>

theorem memory_map_translates:
  assumes ok: "paging_ok s" and i: "pd_index virt \<noteq> 1023"
    and ready: "present (pde s (pd_index virt)) \<or>
      (\<exists>f p. alloc_phys_page (phys_mem s) = Inr (f, p) \<and> unused_frame s (ucast f))"
    and al: "phys AND 0xFFF = 0" "flags AND NOT 0xFFF = 0" "flags AND 1 \<noteq> 0"
  shows "\<exists>s'. memory_map phys virt flags s = Inr s' \<and> paging_ok s' \<and> walk s' virt = Some phys \<and>
    (\<forall>va. pd_index va \<noteq> 1023 \<longrightarrow> pd_index va \<noteq> pd_index virt \<or>
       present (pde s (pd_index virt)) \<and> pt_index va \<noteq> pt_index virt \<longrightarrow> walk s' va = walk s va)"
  using assms by (rule memory_map_ok)

definition demo_paging :: paging where
  "demo_paging =
     \<lparr>pd_frame = 0x1000,
      tables = (\<lambda>f i. if f = 0x1000 then (if i = 1023 then 0x1003 else if i = 768 then 0x2003 else 0)
                      else if f = 0x2000 then (if i = 5 then 0x7003 else if i = 600 then 0x8003 else 0) else 0),
      phys_mem = \<lparr>mem_top = 0, mem_bottom = 0, pre_mem = 0, frames = (\<lambda>_. 0), num_frames = 2560, last_frame = 0\<rparr>\<rparr>"

lemma demo_paging_ok: "paging_ok demo_paging"
  by (simp add: paging_ok_def pde_def demo_paging_def present_def frame_of_def)

lemma ucast_100000: "ucast (0x100000 :: u64) = (0x100000 :: u32)"
  by simp

lemma demo_frame: "\<exists>f p. alloc_phys_page (phys_mem demo_paging) = Inr (f, p) \<and> unused_frame demo_paging (ucast f)"
proof -
  have "scan_frames (\<lambda>_. 0) 2560 0 = Some (0, 0)"
    by (simp add: scan_frames.simps [of _ 2560] scan_word.simps [of _ 0])
  then have "\<exists>p. alloc_phys_page (phys_mem demo_paging) = Inr (0x100000, p)"
    by (simp add: alloc_phys_page_def get_first_frame_def demo_paging_def set_frame_def frame_to_physical_def Let_def)
  moreover have "unused_frame demo_paging 0x100000"
    by (simp add: unused_frame_def demo_paging_def pde_def present_def frame_of_def)
  ultimately show ?thesis by (metis (no_types) ucast_100000)
qed

lemma memory_map_translates_witness:
  "\<exists>s'. memory_map 0x5000 0x40000000 3 demo_paging = Inr s' \<and> walk s' 0x40000000 = Some 0x5000 \<and>
     walk s' 0xC0005000 = Some 0x7000"
proof -
  have i: "pd_index 0x40000000 = 256" "pd_index 0xC0005000 = 768"
    by (simp_all add: pd_index_nat)
  have w: "walk demo_paging 0xC0005000 = Some 0x7000"
    by (simp add: walk_def i pt_index_nat pde_def demo_paging_def present_def frame_of_def)
  show ?thesis
    using memory_map_translates [OF demo_paging_ok, of "0x40000000" "0x5000" 3] demo_frame i w by auto
qed

text \<open>
  Unmapping a mapped page of an aligned address: it resolves to nothing afterwards, its frame is
  given back to the page allocator, and every other page resolves as before.
\<close>

theorem memory_unmap_releases:
  assumes ok: "paging_ok s" and w: "walk s virt = Some phys" and i: "pd_index virt \<noteq> 1023"
    and al: "virt AND 0x3FF = 0"
  shows "\<exists>s'. memory_unmap virt s = Inr s' \<and> walk s' virt = None \<and> paging_ok s' \<and>
    phys_mem s' = clear_frame (physical_to_frame phys) (phys_mem s) \<and>
    (\<forall>va. (pd_index va, pt_index va) \<noteq> (pd_index virt, pt_index virt) \<longrightarrow> walk s' va = walk s va)"
proof -
  let ?i = "pd_index virt" and ?j = "pt_index virt"
  let ?f = "frame_of (pde s ?i)"
  have d: "present (pde s ?i)" and p: "phys = frame_of (tables s ?f ?j)"
    using w by (auto simp: walk_def Let_def split: if_splits)
  have i': "?i < 1023"
    using pd_index_less [of virt] i by simp
  have f: "?f \<noteq> pd_frame s"
    using ok i' d by (simp add: paging_ok_def)
  have nz: "pde s ?i \<noteq> 0"
    using d by (auto simp: present_def)
  have win: "walk s (RECURSIVE_ADDR OR push_bit 12 (of_nat ?i)) = Some ?f"
    using walk_window [OF ok _ d] i' by (simp add: window_eq)
  define s1 where "s1 = s\<lparr>phys_mem := clear_frame (physical_to_frame phys) (phys_mem s)\<rparr>"
  have win1: "walk s1 va = walk s va" for va
    by (simp add: walk_def pde_def s1_def)
  define s' where "s' = set_entry ?f ?j 0 s1"
  have eq: "memory_unmap virt s = Inr s'"
    using nz al win win1 p
    by (simp add: memory_unmap_def read_table_def write_table_def s'_def s1_def frame_of_def Let_def)
  have pde: "pde s' k = pde s k" "pd_frame s' = pd_frame s" for k
    using f by (simp_all add: pde_def s'_def s1_def set_entry_def)
  have tab: "tables s' g k = (if g = ?f \<and> k = ?j then 0 else tables s g k)" for g k
    by (simp add: s'_def s1_def set_entry_def)
  have "paging_ok s'"
    using ok by (simp add: paging_ok_def pde)
  moreover have "walk s' virt = None"
    by (simp add: walk_def pde tab Let_def present_def)
  moreover have "walk s' va = walk s va"
    if "(pd_index va, pt_index va) \<noteq> (pd_index virt, pt_index virt)" for va
  proof (cases "present (pde s (pd_index va)) \<and> frame_of (pde s (pd_index va)) = ?f")
    case True
    then have "pd_index va = ?i"
      using table_unshared [OF ok _ i' d] f by simp
    then have "pt_index va \<noteq> ?j" using that by simp
    then show ?thesis by (simp add: walk_def pde tab Let_def)
  next
    case False
    then show ?thesis by (auto simp: walk_def pde tab Let_def)
  qed
  ultimately show ?thesis
    using eq by (auto simp: s'_def s1_def set_entry_def)
qed

lemma memory_unmap_releases_witness:
  "\<exists>s'. memory_unmap 0xC0005000 demo_paging = Inr s' \<and> walk s' 0xC0005000 = None"
proof -
  have i: "pd_index 0xC0005000 = 768" "pt_index 0xC0005000 = 5"
    by (simp_all add: pd_index_nat pt_index_nat)
  have w: "walk demo_paging 0xC0005000 = Some 0x7000"
    by (simp add: walk_def i pde_def demo_paging_def present_def frame_of_def)
  show ?thesis
    using memory_unmap_releases [OF demo_paging_ok w] i by auto
qed

section \<open>Mapping with three levels\<close>

lemma base_push: "p < 4 \<Longrightarrow> recursive_base p = push_bit 21 (of_nat (511 + 512 * p))"
proof -
  assume "p < 4"
  then consider "p = 0" | "p = 1" | "p = 2" | "p = 3" by linarith
  then show ?thesis
    by cases (simp_all add: recursive_base_def push_bit_eq_mult)
qed

lemma table_addr_nat:
  assumes p: "p < 4" and i: "i < 512"
  shows "unat (table_addr p i) = 2 ^ 21 * (511 + 512 * p) + 4096 * i"
proof -
  let ?c = "511 + 512 * p"
  have t: "unat (push_bit 12 (of_nat i) :: u32) = 4096 * i"
    using unat_push_12 [of i] i by simp
  have "recursive_base p AND push_bit 12 (of_nat i) = (0 :: u32)"
  proof (rule bit_word_eqI)
    fix n
    have "\<not> (bit (recursive_base p) n \<and> bit (push_bit 12 (of_nat i) :: u32) n)"
    proof (cases "n < 21")
      case True
      then show ?thesis
        unfolding base_push [OF p] bit_push_bit_iff by simp
    next
      case False
      have "4096 * i < 2 ^ n"
        using False i power_increasing [of 21 n "2 :: nat"] by simp
      then have "\<not> bit (unat (push_bit 12 (of_nat i) :: u32)) n"
        using t by (simp add: bit_iff_odd)
      then show ?thesis by (simp add: bit_unsigned_iff)
    qed
    then show "bit (recursive_base p AND push_bit 12 (of_nat i)) n = bit (0 :: u32) n"
      by (simp only: bit_and_iff bit_0_eq bot_apply bot_bool_def)
  qed
  then have "table_addr p i = recursive_base p + push_bit 12 (of_nat i)"
    using word_plus_and_or [of "recursive_base p" "push_bit 12 (of_nat i)"] by (simp add: table_addr_def)
  also have "\<dots> = of_nat (2 ^ 21 * ?c + 4096 * i)"
    unfolding base_push [OF p] by (simp add: push_bit_eq_mult)
  finally have eq: "table_addr p i = of_nat (2 ^ 21 * ?c + 4096 * i)" .
  have "2 ^ 21 * ?c + 4096 * i < 2 ^ 32"
    using p i by simp
  then show ?thesis
    using eq unat_of_nat_u32 by metis
qed

lemma directory_addr: "p < 4 \<Longrightarrow> table_addr p 1023 = table_addr p 511"
proof -
  assume "p < 4"
  then consider "p = 0" | "p = 1" | "p = 2" | "p = 3" by linarith
  then show ?thesis
    by cases (simp_all add: table_addr_def recursive_base_def push_bit_eq_mult)
qed

lemma mask_9: "(0x1FF :: u32) = mask 9"
  by (simp add: mask_eq_exp_minus_1)

lemma pae_indices_nat:
  "pdpt_index va = unat va div 2 ^ 30"
  "pae_pd_index va = unat va div 2 ^ 21 mod 2 ^ 9"
  "pae_pt_index va = unat va div 2 ^ 12 mod 2 ^ 9"
  by (simp_all only: pdpt_index_def pae_pd_index_def pae_pt_index_def mask_9 and_mask_nat)
    (simp_all add: drop_bit_eq_div unat_div)

lemma pae_indices_less: "pdpt_index va < 4" "pae_pd_index va < 512" "pae_pt_index va < 512"
  using unat_lt_u32 [of va] by (simp_all add: pae_indices_nat less_mult_imp_div_less)

lemma table_addr_indices:
  assumes "p < 4" "i < 512"
  shows "pdpt_index (table_addr p i) = p" "pae_pd_index (table_addr p i) = 511"
    "pae_pt_index (table_addr p i) = i"
proof -
  let ?v = "2 ^ 21 * (511 + 512 * p) + 4096 * i"
  have "?v div 2 ^ 30 = p"
    using assms by (intro div_nat_eqI) simp_all
  then show "pdpt_index (table_addr p i) = p"
    by (simp only: pae_indices_nat table_addr_nat [OF assms])
  have "?v div 2 ^ 21 = 511 + 512 * p"
    using assms by (intro div_nat_eqI) simp_all
  then have "?v div 2 ^ 21 mod 2 ^ 9 = 511"
    by simp
  then show "pae_pd_index (table_addr p i) = 511"
    by (simp only: pae_indices_nat table_addr_nat [OF assms])
  have "?v div 2 ^ 12 = i + (511 + 512 * p) * 2 ^ 9"
    by simp
  then have "?v div 2 ^ 12 mod 2 ^ 9 = i"
    using assms by (simp only: mod_mult_self1) simp
  then show "pae_pt_index (table_addr p i) = i"
    by (simp only: pae_indices_nat table_addr_nat [OF assms])
qed

text \<open>The directory of a gigabyte is present, its last entry maps itself, and no table is shared.\<close>

definition pae_ok :: "pae \<Rightarrow> nat \<Rightarrow> bool" where
  "pae_ok s p \<longleftrightarrow> present64 (pdpt s p) \<and> present64 (pae_pd s p 511) \<and> frame64 (pae_pd s p 511) = frame64 (pdpt s p) \<and>
     (\<forall>i<511. present64 (pae_pd s p i) \<longrightarrow> frame64 (pae_pd s p i) \<noteq> frame64 (pdpt s p))"

lemma pae_walk_window:
  assumes "pae_ok s p" "p < 4" "i < 512"
  shows "pae_walk s (table_addr p i) = (if present64 (pae_pd s p i) then Some (frame64 (pae_pd s p i)) else None)"
  using assms table_addr_indices [OF assms(2,3)] by (simp add: pae_walk_def pae_ok_def Let_def) (simp add: pae_pd_def)

lemma read_directory:
  assumes "pae_ok s p" "p < 4"
  shows "read_table64 (table_addr p 1023) i s = Inr (pae_pd s p i)"
  using pae_walk_window [OF assms, of 511] assms
  by (simp add: read_table64_def directory_addr pae_ok_def pae_pd_def)

lemma write_directory:
  assumes "pae_ok s p" "p < 4"
  shows "write_table64 (table_addr p 511) i v s = Inr (set_entry64 (frame64 (pdpt s p)) i v s)"
  using pae_walk_window [OF assms, of 511] assms by (simp add: write_table64_def pae_ok_def)

lemma split_mask64: "(w AND m) OR (w AND NOT m) = (w :: u64)"
  by (rule bit_word_eqI) (auto simp: bit_and_iff bit_or_iff bit_not_iff)

lemma or_and_zero64: "(v OR w) AND m = 0 \<Longrightarrow> w AND m = (0 :: u64)"
  by (simp add: bit_eq_iff bit_and_iff bit_or_iff) blast

lemma frame64_mapped:
  fixes phys fl :: u64
  assumes "phys AND 0xFFF = 0" "fl AND NOT 0xFFF = 0" "fl AND 1 \<noteq> 0"
  shows "frame64 (phys OR fl) = phys" "present64 (phys OR fl)"
proof -
  have p: "phys AND NOT 0xFFF = phys"
    by (metis split_mask64 assms(1) or.left_neutral)
  have "(phys OR fl) AND NOT 0xFFF = (phys AND NOT 0xFFF) OR (fl AND NOT 0xFFF)"
    by (rule bit_word_eqI) (auto simp: bit_and_iff bit_or_iff)
  then show "frame64 (phys OR fl) = phys"
    by (simp only: frame64_def p assms(2) or.right_neutral)
  show "present64 (phys OR fl)"
    unfolding present64_def using or_and_zero64 [of phys fl 1] assms(3) by blast
qed

lemma pae_map_existing:
  assumes ok: "pae_ok s (pdpt_index virt)"
    and d: "present64 (pae_pd s (pdpt_index virt) (pae_pd_index virt))" "pae_pd_index virt \<noteq> 511"
    and lim: "drop_bit (unat (max_bit_extension s)) phys = 0"
    and al: "phys AND 0xFFF = 0" "(ucast flags :: u64) AND NOT 0xFFF = 0" "(ucast flags :: u64) AND 1 \<noteq> 0"
  shows "\<exists>s'. pae_mmap kalloc phys virt flags s = Inr s' \<and> pae_ok s' (pdpt_index virt) \<and>
    pae_walk s' virt = Some phys \<and> get_phys_from_virt virt s' = Inr phys \<and>
    s' = set_entry64 (frame64 (pae_pd s (pdpt_index virt) (pae_pd_index virt))) (pae_pt_index virt) (phys OR ucast flags) s"
proof -
  let ?p = "pdpt_index virt" and ?i = "pae_pd_index virt" and ?j = "pae_pt_index virt"
  let ?f = "frame64 (pae_pd s ?p ?i)" and ?e = "phys OR ucast flags :: u64"
  note less = pae_indices_less [of virt]
  have i: "?i < 511"
    using less d(2) by simp
  have f: "?f \<noteq> frame64 (pdpt s ?p)"
    using ok i d(1) by (simp add: pae_ok_def)
  have al2: "phys AND 0x3FF = 0"
  proof -
    have "phys AND 0x3FF = (phys AND 0xFFF) AND (0x3FF :: u64)"
      by (simp add: and.assoc)
    then show ?thesis using al(1) by simp
  qed
  have upd: "pae_pd (set_entry64 ?f k v t) ?p n = pae_pd t ?p n" "pae_ok (set_entry64 ?f k v t) ?p = pae_ok t ?p"
    if "pdpt t = pdpt s" for k v t n
    using f that by (auto simp: pae_pd_def set_entry64_def pae_ok_def)
  define s1 where "s1 = set_entry64 ?f ?j 0 s"
  define s' where "s' = set_entry64 ?f ?j ?e s1"
  have ok1: "pae_ok s1 ?p" "pae_pd s1 ?p n = pae_pd s ?p n" "pdpt s1 = pdpt s" for n
    using ok by (simp_all add: s1_def upd) (simp add: set_entry64_def)
  have ok': "pae_ok s' ?p" "pae_pd s' ?p n = pae_pd s ?p n" "pdpt s' = pdpt s" for n
    using ok1 by (simp_all add: s'_def upd) (simp add: set_entry64_def)
  have wr: "write_table64 (table_addr ?p ?i) ?j 0 s = Inr s1"
    using pae_walk_window [OF ok less(1,2)] d(1) by (simp add: write_table64_def s1_def)
  have wr': "write_table64 (table_addr ?p ?i) ?j ?e s1 = Inr s'"
    using pae_walk_window [OF ok1(1) less(1,2)] d(1) by (simp add: write_table64_def ok1 s'_def)
  have eq: "pae_mmap kalloc phys virt flags s = Inr s'"
    using lim al2 d(1) read_directory [OF ok less(1)] wr wr' by (simp add: pae_mmap_def Let_def)
  have e: "tables64 s' ?f ?j = ?e"
    by (simp add: s'_def set_entry64_def)
  note m = frame64_mapped [OF al]
  have "pae_walk s' virt = Some phys"
    using ok' d(1) ok m e by (simp add: pae_walk_def pae_ok_def Let_def)
  moreover have "get_phys_from_virt virt s' = Inr phys"
    using read_directory [OF ok'(1) less(1)] pae_walk_window [OF ok'(1) less(1,2)] d(1) m e
    by (simp add: get_phys_from_virt_def read_table64_def ok' frame64_def Let_def)
  moreover have "s' = set_entry64 ?f ?j ?e s"
    by (simp add: s'_def s1_def set_entry64_def)
  ultimately show ?thesis
    using eq ok' by blast
qed

definition unused_frame64 :: "pae \<Rightarrow> nat \<Rightarrow> u64 \<Rightarrow> bool" where
  "unused_frame64 s p f \<longleftrightarrow> f AND 0xFFF = 0 \<and> f \<noteq> frame64 (pdpt s p)"

definition new_table64 :: "u64 \<Rightarrow> pae \<Rightarrow> pae" where
  "new_table64 f s = s\<lparr>tables64 := (tables64 s)(f := (\<lambda>j. if j < 512 then 0 else tables64 s f j))\<rparr>"

lemma create_new_pae_pt_ok:
  assumes ok: "pae_ok s p" and p: "p < 4" and i: "i < 511" "\<not> present64 (pae_pd s p i)"
    and al: "alloc_phys_page (pae_mem s) = Inr (f, m)" and un: "unused_frame64 s p f"
  shows "\<exists>s'. create_new_pae_pt kalloc p i s = Inr s' \<and> pae_ok s' p \<and> present64 (pae_pd s' p i) \<and>
    max_bit_extension s' = max_bit_extension s \<and>
    s' = new_table64 f (set_entry64 (frame64 (pdpt s p)) i (f OR 3) (s\<lparr>pae_mem := m\<rparr>))"
proof -
  let ?e = "f OR 3 :: u64"
  have e: "frame64 ?e = f" "present64 ?e"
    using frame64_mapped [of f 3] un by (simp_all add: unused_frame64_def)
  have f: "f \<noteq> frame64 (pdpt s p)"
    using un by (simp add: unused_frame64_def)
  define s0 where "s0 = s\<lparr>pae_mem := m\<rparr>"
  have ok0: "pae_ok s0 p" "pdpt s0 = pdpt s"
    using ok by (simp_all add: s0_def pae_ok_def pae_pd_def)
  define s1 where "s1 = set_entry64 (frame64 (pdpt s p)) i ?e s0"
  have pd1: "pae_pd s1 p k = (if k = i then ?e else pae_pd s p k)" "pdpt s1 = pdpt s" for k
    by (simp_all add: s1_def s0_def pae_pd_def set_entry64_def)
  have ok1: "pae_ok s1 p"
    using ok i e f unfolding pae_ok_def pd1 by auto
  have w: "pae_walk s1 (table_addr p i) = Some f"
    using pae_walk_window [OF ok1 p, of i] i e by (simp add: pd1)
  define s2 where "s2 = s1\<lparr>tables64 := (tables64 s1)(f := (\<lambda>j. if j < 512 then 0 else tables64 s1 f j))\<rparr>"
  have wr: "write_table64 (table_addr p 511) i ?e s0 = Inr s1"
    using write_directory [OF ok0(1) p] by (simp add: s1_def ok0)
  have pres: "present64 (pdpt s p)"
    using ok by (simp add: pae_ok_def)
  have eq: "create_new_pae_pt kalloc p i s = Inr s2"
    using w wr pres by (simp add: create_new_pae_pt_def al s2_def flip: s0_def cong: if_cong)
  have pd2: "pae_pd s2 p k = pae_pd s1 p k" "pdpt s2 = pdpt s1" for k
    using f by (simp_all add: s2_def pae_pd_def pd1)
  have "pae_ok s2 p"
    using ok1 by (simp add: pae_ok_def pd2)
  moreover have "present64 (pae_pd s2 p i)"
    by (simp add: pd2 pd1 e)
  moreover have "max_bit_extension s2 = max_bit_extension s"
    by (simp add: s2_def s1_def s0_def set_entry64_def)
  moreover have "s2 = new_table64 f s1"
    by (simp add: s2_def new_table64_def)
  ultimately show ?thesis using eq by (auto simp: s1_def s0_def)
qed

text \<open>
  C9. Round trip of the three-level tables: after \<open>pae_mmap\<close> of an aligned frame below the
  machine's limit, in a gigabyte whose directory maps itself, both the processor and
  \<open>get_phys_from_virt\<close> resolve the address to that frame, whether or not a page table had to be
  created. \<open>kalloc\<close>, the allocation of a missing directory, is not called.
\<close>

theorem pae_mmap_roundtrip:
  assumes ok: "pae_ok s (pdpt_index virt)" and i: "pae_pd_index virt \<noteq> 511"
    and ready: "present64 (pae_pd s (pdpt_index virt) (pae_pd_index virt)) \<or>
      (\<exists>f m. alloc_phys_page (pae_mem s) = Inr (f, m) \<and> unused_frame64 s (pdpt_index virt) f)"
    and lim: "drop_bit (unat (max_bit_extension s)) phys = 0"
    and al: "phys AND 0xFFF = 0" "(ucast flags :: u64) AND NOT 0xFFF = 0" "(ucast flags :: u64) AND 1 \<noteq> 0"
  shows "\<exists>s'. pae_mmap kalloc phys virt flags s = Inr s' \<and> pae_ok s' (pdpt_index virt) \<and>
    pae_walk s' virt = Some phys \<and> get_phys_from_virt virt s' = Inr phys"
proof (cases "present64 (pae_pd s (pdpt_index virt) (pae_pd_index virt))")
  case True
  show ?thesis
    using pae_map_existing [OF ok True i lim al] by blast
next
  case False
  let ?p = "pdpt_index virt" and ?i = "pae_pd_index virt"
  note less = pae_indices_less [of virt]
  obtain f m where f: "alloc_phys_page (pae_mem s) = Inr (f, m)" "unused_frame64 s ?p f"
    using ready False by blast
  have "?i < 511" using less i by simp
  then obtain s1 where s1: "create_new_pae_pt kalloc ?p ?i s = Inr s1" "pae_ok s1 ?p"
      "present64 (pae_pd s1 ?p ?i)" "max_bit_extension s1 = max_bit_extension s"
    using create_new_pae_pt_ok [OF ok less(1) _ False f] by blast
  have "pae_mmap kalloc phys virt flags s = pae_mmap kalloc phys virt flags s1"
    using False s1 read_directory [OF ok less(1)] read_directory [OF s1(2) less(1)]
    by (simp add: pae_mmap_def Let_def)
  then show ?thesis
    using pae_map_existing [OF s1(2,3) i _ al, of kalloc] lim s1(4) by auto
qed

definition demo_pae :: pae where
  "demo_pae =
     \<lparr>pdpt = (\<lambda>p. if p = 3 then 0x1001 else 0),
      tables64 = (\<lambda>f i. if f = 0x1000 \<and> i = 511 then 0x1001 else 0),
      max_bit_extension = 36,
      pae_mem = \<lparr>mem_top = 0, mem_bottom = 0, pre_mem = 0, frames = (\<lambda>_. 0), num_frames = 2560, last_frame = 0\<rparr>\<rparr>"

lemma pae_mmap_roundtrip_witness:
  "\<exists>s'. pae_mmap Inr 0xFD000000 0xC0000000 3 demo_pae = Inr s' \<and> get_phys_from_virt 0xC0000000 s' = Inr 0xFD000000"
proof -
  have ix: "pdpt_index 0xC0000000 = 3" "pae_pd_index 0xC0000000 = 0"
    by (simp_all add: pae_indices_nat)
  have ok: "pae_ok demo_pae 3"
    by (simp add: pae_ok_def demo_pae_def pae_pd_def present64_def frame64_def)
  have "scan_frames (\<lambda>_. 0) 2560 0 = Some (0, 0)"
    by (simp add: scan_frames.simps [of _ 2560] scan_word.simps [of _ 0])
  then have "\<exists>m. alloc_phys_page (pae_mem demo_pae) = Inr (0x100000, m)"
    by (simp add: alloc_phys_page_def get_first_frame_def demo_pae_def set_frame_def frame_to_physical_def Let_def)
  moreover have "unused_frame64 demo_pae 3 0x100000"
    by (simp add: unused_frame64_def demo_pae_def frame64_def)
  moreover have "drop_bit (unat (max_bit_extension demo_pae)) (0xFD000000 :: u64) = 0"
    by (simp add: demo_pae_def drop_bit_eq_div)
  ultimately show ?thesis
    using pae_mmap_roundtrip [of demo_pae "0xC0000000" "0xFD000000" 3 Inr] ok ix by auto
qed

end
