(* ===== verification/Acpi.thy ===== *)
theory Acpi
  imports Heap Paging Bytes
begin

text \<open>
  The ACPI tables of \<open>acpi/acpi.c\<close>: validation, looking a table up by its signature and copying it to
  the heap, and the walks over the interrupt controller (MADT) and PCI configuration (MCFG) tables.
  Tables are packed structs in memory; the offsets are those of \<open>acpi/tables.h\<close>. Memory is what the
  kernel reads once the pages are mapped.
\<close>

section \<open>Table headers\<close>

definition sdt_length :: "mem \<Rightarrow> u32 \<Rightarrow> u32" where
  "sdt_length m h = get32 m (h + 4)"

definition sizeof_sdt_header :: u32 where
  "sizeof_sdt_header = 36"

text \<open>\<open>char\<close> is signed; the index is a \<open>uint8_t\<close>, the length a \<open>uint32_t\<close>.\<close>

partial_function (option) validate_loop :: "u32 \<Rightarrow> u8 \<Rightarrow> u32 \<Rightarrow> mem \<Rightarrow> u32 option" where
  "validate_loop h i acc m =
     (if ucast i < sdt_length m h then validate_loop h (i + 1) (acc + scast (m (h + ucast i))) m else Some acc)"

declare validate_loop.simps [code]

definition validate_table :: "u32 \<Rightarrow> mem \<Rightarrow> bool option" where
  "validate_table h m = map_option (\<lambda>acc. acc = 0) (validate_loop h 0 0 m)"

section \<open>Tables by signature\<close>

text \<open>The pointers of the root table, \<open>NextSDT\<close>, and the first of them with a given signature.\<close>

definition rsdt_entries :: "u32 \<Rightarrow> mem \<Rightarrow> u32 list" where
  "rsdt_entries rsdt m =
     map (\<lambda>i. get32 m (rsdt + sizeof_sdt_header + 4 * of_nat i)) [0..<unat ((sdt_length m rsdt - sizeof_sdt_header) div 4)]"

fun find_sdt :: "u32 \<Rightarrow> mem \<Rightarrow> u32 list \<Rightarrow> paging \<Rightarrow> (u32 \<times> paging) result" where
  "find_sdt signature m [] pg = Inr (0, pg)"
| "find_sdt signature m (potential # ps) pg =
     (case memory_map (PGROUNDDOWN potential) (PGROUNDDOWN potential) 3 pg of
        Inl e \<Rightarrow> Inl e
      | Inr pg1 \<Rightarrow> if strcmp signature potential 4 m \<noteq> 0 then Inr (potential, pg1) else find_sdt signature m ps pg1)"

definition cache_sdt_by_signature :: "u32 \<Rightarrow> u32 \<Rightarrow> heap \<Rightarrow> paging \<Rightarrow> (u32 \<times> heap \<times> paging) outcome" where
  "cache_sdt_by_signature signature rsdt_store h pg =
     (case find_sdt signature (bytes h) (rsdt_entries rsdt_store (bytes h)) pg of
        Inl e \<Rightarrow> Some (Inl e)
      | Inr (found, pg1) \<Rightarrow>
          if found = 0 then Some (Inl (Panic ''Signature not found in ACPI tables''))
          else let n = sdt_length (bytes h) found
               in map_option (\<lambda>(store, h1). Inr (store, h1\<lparr>bytes := snd (memcpy store found n (bytes h1))\<rparr>, pg1)) (kalloc n h))"

section \<open>The interrupt controller table\<close>

text \<open>An entry starts with its type and its length; \<open>entries\<close> is at offset 44 of the table.\<close>

definition madt_first :: "u32 \<Rightarrow> u32" where
  "madt_first madt = madt + 44"

definition entry_kind :: "mem \<Rightarrow> u32 \<Rightarrow> u8" where
  "entry_kind m a = m a"

definition entry_size :: "mem \<Rightarrow> u32 \<Rightarrow> u8" where
  "entry_size m a = m (a + 1)"

text \<open>The counters, one byte for each type; the struct has 16 of them.\<close>

partial_function (option) count_loop :: "u32 \<Rightarrow> u32 \<Rightarrow> mem \<Rightarrow> (u8 \<Rightarrow> u8) \<Rightarrow> (u8 \<Rightarrow> u8) option" where
  "count_loop entry stop m counts =
     (if entry < stop
      then count_loop (entry + ucast (entry_size m entry)) stop m
             (counts(entry_kind m entry := counts (entry_kind m entry) + 1))
      else Some counts)"

declare count_loop.simps [code]

definition count_madt_entries :: "u32 \<Rightarrow> mem \<Rightarrow> (u8 \<Rightarrow> u8) \<Rightarrow> (u8 \<Rightarrow> u8) option" where
  "count_madt_entries madt m counts = count_loop (madt_first madt) (madt + sdt_length m madt) m counts"

partial_function (option) madt_loop :: "u32 \<Rightarrow> u32 \<Rightarrow> u8 \<Rightarrow> u8 \<Rightarrow> u8 \<Rightarrow> mem \<Rightarrow> u32 option" where
  "madt_loop entry stop ident num count m =
     (if entry < stop then
        (if entry_kind m entry = ident then
           (if count = num then Some (entry + 2)
            else madt_loop (entry + ucast (entry_size m entry)) stop ident num (count + 1) m)
         else madt_loop (entry + ucast (entry_size m entry)) stop ident num count m)
      else Some 0)"

declare madt_loop.simps [code]

definition get_madt_entry :: "u32 \<Rightarrow> u8 \<Rightarrow> u8 \<Rightarrow> mem \<Rightarrow> u32 option" where
  "get_madt_entry madt ident num m = madt_loop (madt_first madt) (madt + sdt_length m madt) ident num 0 m"

section \<open>The PCI configuration table\<close>

text \<open>
  The addresses are compared as 64-bit numbers; a conversion from a 32-bit pointer extends the sign.
  The argument \<open>num\<close> is not used.
\<close>

partial_function (option) mcfg_loop :: "u32 \<Rightarrow> u64 \<Rightarrow> u32 \<Rightarrow> u32 option" where
  "mcfg_loop entry stop ret_entry =
     (if (scast entry :: u64) < stop then mcfg_loop (entry + 16) stop entry else Some ret_entry)"

declare mcfg_loop.simps [code]

definition get_mcfg_entry :: "u32 \<Rightarrow> u8 \<Rightarrow> mem \<Rightarrow> u32 option" where
  "get_mcfg_entry mcfg num m = mcfg_loop (mcfg + 44) (scast mcfg + ucast (sdt_length m mcfg)) 0"

text \<open>\<open>cache_tables\<close>: \<open>apic\<close> and \<open>mcfg\<close> are the addresses of the literals \<open>"APIC"\<close> and \<open>"MCFG"\<close>.\<close>

definition cache_tables ::
  "u32 \<Rightarrow> u32 \<Rightarrow> u32 \<Rightarrow> (u8 \<Rightarrow> u8) \<Rightarrow> heap \<Rightarrow> paging \<Rightarrow> (u32 \<times> u32 \<times> (u8 \<Rightarrow> u8) \<times> heap \<times> paging) outcome" where
  "cache_tables apic mcfg rsdt_store counts h pg =
     bind_out (cache_sdt_by_signature apic rsdt_store h pg)
       (\<lambda>(madt, h1, pg1).
         Option.bind (count_madt_entries madt (bytes h1) counts)
           (\<lambda>counts1. bind_out (cache_sdt_by_signature mcfg rsdt_store h1 pg1)
             (\<lambda>(mc, h2, pg2). map_option (\<lambda>_. Inr (madt, mc, counts1, h2, pg2)) (get_mcfg_entry mc 0 (bytes h2)))))"

section \<open>Walking well-formed tables\<close>

text \<open>\<open>madt_entries m a b es\<close>: the entries from \<open>a\<close> on are at \<open>es\<close> and the last one ends at \<open>b\<close> or after.\<close>

fun madt_entries :: "mem \<Rightarrow> u32 \<Rightarrow> u32 \<Rightarrow> u32 list \<Rightarrow> bool" where
  "madt_entries m a b [] \<longleftrightarrow> b \<le> a"
| "madt_entries m a b (e # es) \<longleftrightarrow> e = a \<and> a < b \<and> madt_entries m (a + ucast (entry_size m a)) b es"

definition of_kind :: "mem \<Rightarrow> u8 \<Rightarrow> u32 list \<Rightarrow> u32 list" where
  "of_kind m ident es = filter (\<lambda>e. entry_kind m e = ident) es"

lemma of_kind_simps [simp]:
  "of_kind m ident [] = []"
  "of_kind m ident (e # es) = (if entry_kind m e = ident then e # of_kind m ident es else of_kind m ident es)"
  by (simp_all add: of_kind_def)

lemma count_loop_ok:
  "madt_entries m a b es \<Longrightarrow> count_loop a b m counts = Some (\<lambda>k. counts k + of_nat (length (of_kind m k es)))"
proof (induction es arbitrary: a counts)
  case Nil
  then show ?case by (subst count_loop.simps) (auto dest: leD)
next
  case (Cons e es)
  have step: "count_loop a b m counts =
      count_loop (a + ucast (entry_size m a)) b m (counts(entry_kind m a := counts (entry_kind m a) + 1))"
    using Cons.prems by (subst count_loop.simps) simp
  have "count_loop a b m counts = Some (\<lambda>k. (counts(entry_kind m a := counts (entry_kind m a) + 1)) k + of_nat (length (of_kind m k es)))"
    unfolding step using Cons by simp
  also have "(\<lambda>k. (counts(entry_kind m a := counts (entry_kind m a) + 1)) k + of_nat (length (of_kind m k es))) =
      (\<lambda>k. counts k + of_nat (length (of_kind m k (e # es))))"
    using Cons.prems by (auto simp: fun_eq_iff)
  finally show ?case .
qed

text \<open>The counter is a byte: it agrees with a count below 256 of matching entries seen.\<close>

lemma madt_loop_ok:
  "madt_entries m a b es \<Longrightarrow> c \<le> unat num \<Longrightarrow>
     madt_loop a b ident num (of_nat c) m =
       Some (if unat num - c < length (of_kind m ident es) then of_kind m ident es ! (unat num - c) + 2 else 0)"
proof (induction es arbitrary: a c)
  case Nil
  then show ?case by (subst madt_loop.simps) (auto dest: leD)
next
  case (Cons e es)
  note e = Cons.prems(1)
  have c: "unat (of_nat c :: u8) = c"
    using Cons.prems(2) unat_lt_u8 [of num] by (intro byte_index) simp
  show ?case
  proof (cases "entry_kind m a = ident")
    case False
    then have "madt_loop a b ident num (of_nat c) m = madt_loop (a + ucast (entry_size m a)) b ident num (of_nat c) m"
      using e by (subst madt_loop.simps) simp
    then show ?thesis
      using Cons.IH Cons.prems False e by simp
  next
    case True
    show ?thesis
    proof (cases "c = unat num")
      case True': True
      then have "of_nat c = num" by simp
      then show ?thesis
        using e True True' by (subst madt_loop.simps) simp
    next
      case False
      then have "of_nat c \<noteq> num" "Suc c \<le> unat num"
        using c Cons.prems(2) by auto
      moreover from this have "madt_loop a b ident num (of_nat c) m =
          madt_loop (a + ucast (entry_size m a)) b ident num (of_nat (Suc c)) m"
        using e True by (subst madt_loop.simps) (simp add: add.commute)
      moreover have "unat num - c = Suc (unat num - Suc c)"
        using \<open>Suc c \<le> unat num\<close> by simp
      ultimately show ?thesis
        using Cons.IH [of "a + ucast (entry_size m a)" "Suc c"] e True by simp
    qed
  qed
qed

section \<open>Properties\<close>

text \<open>
  On a well-formed interrupt controller table the search for an entry ends: the pointer returned is
  just behind the two-byte head of the entry with that number among those of its kind, and NULL
  when the table has no such entry. The counters of \<open>cache_tables\<close> agree with it modulo 256.
\<close>

theorem madt_search_correct:
  assumes "madt_entries m (madt_first madt) (madt + sdt_length m madt) es"
  shows "get_madt_entry madt ident num m =
      Some (if unat num < length (of_kind m ident es) then of_kind m ident es ! unat num + 2 else 0) \<and>
    count_madt_entries madt m (\<lambda>_. 0) = Some (\<lambda>k. of_nat (length (of_kind m k es)))"
  using madt_loop_ok [OF assms, of 0 num ident] count_loop_ok [OF assms, of "\<lambda>_. 0"]
  by (simp add: get_madt_entry_def count_madt_entries_def)

text \<open>A table at 0x1000 with a local APIC, an I/O APIC and an interrupt override.\<close>

definition demo_madt :: mem where
  "demo_madt = (\<lambda>_. 0)(0x1004 := 74, 0x102C := 0, 0x102D := 8, 0x1034 := 1, 0x1035 := 12, 0x1040 := 2, 0x1041 := 10)"

lemma demo_madt_entries: "madt_entries demo_madt (madt_first 0x1000) (0x1000 + sdt_length demo_madt 0x1000) [0x102C, 0x1034, 0x1040]"
  by (simp add: demo_madt_def madt_first_def sdt_length_def get32_def entry_size_def)

lemma madt_search_correct_witness:
  "get_madt_entry 0x1000 1 0 demo_madt = Some 0x1036 \<and> get_madt_entry 0x1000 1 1 demo_madt = Some 0 \<and>
   (\<exists>c. count_madt_entries 0x1000 demo_madt (\<lambda>_. 0) = Some c \<and> c 2 = 1)"
  using madt_search_correct [OF demo_madt_entries, of 1 0] madt_search_correct [OF demo_madt_entries, of 1 1]
  by (simp add: of_kind_def entry_kind_def demo_madt_def)

text \<open>The sum of the first \<open>n\<close> bytes of a table, as signed numbers.\<close>

definition byte_sum :: "mem \<Rightarrow> u32 \<Rightarrow> nat \<Rightarrow> int" where
  "byte_sum m h n = (\<Sum>i<n. sint (m (h + of_nat i)))"

lemma validate_loop_ok:
  "i \<le> unat (sdt_length m h) \<Longrightarrow> unat (sdt_length m h) < 256 \<Longrightarrow>
     validate_loop h (of_nat i) (of_int (byte_sum m h i)) m = Some (of_int (byte_sum m h (unat (sdt_length m h))))"
proof (induction "unat (sdt_length m h) - i" arbitrary: i)
  case 0
  then have i: "i = unat (sdt_length m h)" "i < 256"
    by simp_all
  have "ucast (of_nat i :: u8) = sdt_length m h"
    using byte_index(2) [OF i(2)] unfolding i(1) by simp
  then have "\<not> ucast (of_nat i :: u8) < sdt_length m h"
    by simp
  then have "validate_loop h (of_nat i) (of_int (byte_sum m h i)) m = Some (of_int (byte_sum m h i))"
    by (subst validate_loop.simps) (simp only: if_False)
  then show ?case
    by (simp only: i(1))
next
  case (Suc n)
  then have i: "i < unat (sdt_length m h)" "i < 256"
    by simp_all
  have "ucast (of_nat i :: u8) < sdt_length m h"
    using i by (simp add: byte_index word_less_nat_alt unat_of_nat_u32)
  moreover have "of_int (byte_sum m h (Suc i)) = (of_int (byte_sum m h i) + scast (m (h + of_nat i)) :: u32)"
    by (simp add: byte_sum_def)
  ultimately have "validate_loop h (of_nat i) (of_int (byte_sum m h i)) m =
      validate_loop h (of_nat (Suc i)) (of_int (byte_sum m h (Suc i))) m"
    using i by (subst validate_loop.simps) (simp add: add.commute byte_index)
  then show ?case
    using Suc.hyps(1) [of "Suc i"] Suc.hyps(2) Suc.prems i by simp
qed

lemma byte_end: "\<not> ucast (i :: u8) < (n :: u32) \<Longrightarrow> unat n < 256"
proof -
  assume "\<not> ucast i < n"
  then have "unat n \<le> unat (ucast i :: u32)"
    by (simp add: word_le_nat_alt not_less)
  moreover have "unat (ucast i :: u32) \<le> unat i"
    by (simp add: unsigned_ucast_eq)
  ultimately show ?thesis
    using unat_lt_u8 [of i] by simp
qed

lemma validate_loop_short:
  assumes "validate_loop h i acc m = Some r"
  shows "unat (sdt_length m h) < 256"
  by (rule validate_loop.raw_induct [where P = "\<lambda>h i acc m r. unat (sdt_length m h) < 256", OF _ assms])
    (auto split: if_splits intro: byte_end)

lemma byte_sum_bound: "\<bar>byte_sum m h n\<bar> \<le> 128 * int n"
proof (induction n)
  case (Suc n)
  have "- 128 \<le> sint (m (h + of_nat n)) \<and> sint (m (h + of_nat n)) < 128"
    using sint_greater_eq [of "m (h + of_nat n)"] sint_less [of "m (h + of_nat n)"] by simp
  then show ?case
    using Suc by (simp add: byte_sum_def) linarith
qed (simp add: byte_sum_def)

text \<open>
  C36. What \<open>validate_table\<close> really accepts: on a table shorter than 256 bytes it returns, and accepts
  exactly when the bytes sum to zero as signed numbers (the specification asks for a sum of zero
  modulo 256); on a longer table its byte-sized index wraps and it never returns.
\<close>

theorem validate_table_meaning:
  "validate_table h m =
     (if unat (sdt_length m h) < 256 then Some (byte_sum m h (unat (sdt_length m h)) = 0) else None)"
proof (cases "unat (sdt_length m h) < 256")
  case True
  let ?s = "byte_sum m h (unat (sdt_length m h))"
  have "\<bar>?s\<bar> < 2 ^ 32"
  proof -
    have "int (unat (sdt_length m h)) < 256"
      using True by linarith
    then have "\<bar>?s\<bar> < 4294967296"
      using byte_sum_bound [of m h "unat (sdt_length m h)"] by linarith
    then show ?thesis by simp
  qed
  then have "2 ^ 32 dvd ?s \<longleftrightarrow> ?s = 0"
    using dvd_imp_le_int [of ?s "2 ^ 32"] by auto
  then have "(of_int ?s :: u32) = 0 \<longleftrightarrow> ?s = 0"
    by (simp add: word_of_int_eq_0_iff)
  then show ?thesis
    using validate_loop_ok [of 0 m h] True by (simp add: validate_table_def byte_sum_def)
next
  case False
  then have "validate_loop h 0 0 m = None"
    using validate_loop_short [of h 0 0 m] by (cases "validate_loop h 0 0 m") auto
  then show ?thesis
    using False by (simp add: validate_table_def)
qed

end
