(* ===== verification/Multiboot.thy ===== *)
theory Multiboot
  imports Acpi
begin

text \<open>
  What \<open>multiboot/mb_parse.c\<close> takes from the boot loader: the walk over the information tags and the
  root pointer of the ACPI tables. The framebuffer part of the file is in the theory \<open>Framebuffer\<close>.
\<close>

section \<open>The ACPI root pointer\<close>

text \<open>The loop of \<open>validate_RSDP\<close>; \<open>char\<close> is signed.\<close>

fun rsdp_sum :: "nat \<Rightarrow> u32 \<Rightarrow> mem \<Rightarrow> u32" where
  "rsdp_sum 0 b m = 0"
| "rsdp_sum (Suc i) b m = rsdp_sum i b m + scast (m (b + of_nat i))"

definition validate_RSDP :: "u32 \<Rightarrow> nat \<Rightarrow> mem \<Rightarrow> bool" where
  "validate_RSDP byte_array sz m \<longleftrightarrow> rsdp_sum sz byte_array m AND 0xFF = 0"

text \<open>The packed descriptor has its revision at offset 15 and the table's address at 16.\<close>

definition rsdp_revision :: "mem \<Rightarrow> u32 \<Rightarrow> u8" where
  "rsdp_revision m rsdp = m (rsdp + 15)"

definition rsdt_address :: "mem \<Rightarrow> u32 \<Rightarrow> u32" where
  "rsdt_address m rsdp = get32 m (rsdp + 16)"

text \<open>
  \<open>init_rsdt_v1\<close> with the tag at \<open>old_acpi\<close>; the result is the new \<open>rsdt_addr\<close>. In the second mapping the
  C operators bind as \<open>RsdtAddress & (~0xFFF + 4096)\<close>.
\<close>

definition init_rsdt_v1 :: "u32 \<Rightarrow> u32 \<Rightarrow> mem \<Rightarrow> paging \<Rightarrow> (u32 \<times> paging) outcome" where
  "init_rsdt_v1 old_acpi rsdt_addr m pg =
     (let rsdp = old_acpi + 8; a = rsdt_address m rsdp
      in if old_acpi = 0 then Some (Inr (rsdt_addr, pg))
         else if rsdp_revision m rsdp \<ge> 2
         then map_option (\<lambda>ok. Inl (Panic (if ok then ''Xsdt validated'' else ''XSDT NOT VALIDATED''))) (validate_table rsdp m)
         else if validate_RSDP rsdp 19 m then Some (Inl (Panic ''RSDP NOT VALIDATED''))
         else Some
           (case memory_map (a AND NOT 0xFFF) (a AND NOT 0xFFF) 1 pg of
              Inl e \<Rightarrow> Inl e
            | Inr pg1 \<Rightarrow>
                map_sum id (\<lambda>pg2. (a, pg2))
                  (if sdt_length m a + a > PGROUNDUP a
                   then memory_map (a AND (NOT 0xFFF + 4096)) (a AND (NOT 0xFFF + 4096)) 1 pg1 else Inr pg1)))"

fun find_loaded_sdt :: "u32 \<Rightarrow> mem \<Rightarrow> u32 list \<Rightarrow> paging \<Rightarrow> (u32 \<times> paging) result" where
  "find_loaded_sdt signature m [] pg = Inl (Panic ''Signature not found in ACPI tables'')"
| "find_loaded_sdt signature m (potential # ps) pg =
     (case memory_map (PGROUNDDOWN potential) (PGROUNDDOWN potential) 3 pg of
        Inl e \<Rightarrow> Inl e
      | Inr pg1 \<Rightarrow> if strcmp signature potential 4 m \<noteq> 0 then Inr (potential, pg1) else find_loaded_sdt signature m ps pg1)"

definition get_sdt_by_signature :: "u32 \<Rightarrow> u32 \<Rightarrow> mem \<Rightarrow> paging \<Rightarrow> (u32 \<times> paging) result" where
  "get_sdt_by_signature signature rsdt_addr m pg = find_loaded_sdt signature m (rsdt_entries rsdt_addr m) pg"

section \<open>The information tags\<close>

record multiboot_tag_pointers =
  mmap :: u32
  tag_framebuffer :: u32
  old_acpi :: u32

definition tag_type :: "mem \<Rightarrow> u32 \<Rightarrow> u32" where
  "tag_type m t = get32 m t"

definition tag_size :: "mem \<Rightarrow> u32 \<Rightarrow> u32" where
  "tag_size m t = get32 m (t + 4)"

definition next_tag :: "mem \<Rightarrow> u32 \<Rightarrow> u32" where
  "next_tag m t = t + ((tag_size m t + 7) AND NOT 7)"

definition note_tag :: "mem \<Rightarrow> u32 \<Rightarrow> multiboot_tag_pointers \<Rightarrow> multiboot_tag_pointers" where
  "note_tag m t p =
     (if tag_type m t = 6 then p\<lparr>mmap := t\<rparr>
      else if tag_type m t = 8 then p\<lparr>tag_framebuffer := t\<rparr>
      else if tag_type m t = 14 then p\<lparr>old_acpi := t\<rparr>
      else p)"

partial_function (option) tag_loop :: "u32 \<Rightarrow> mem \<Rightarrow> multiboot_tag_pointers \<Rightarrow> multiboot_tag_pointers option" where
  "tag_loop t m p = (if tag_type m t = 0 then Some p else tag_loop (next_tag m t) m (note_tag m t p))"

declare tag_loop.simps [code]

definition init_multiboot :: "u32 \<Rightarrow> u32 \<Rightarrow> mem \<Rightarrow> paging \<Rightarrow> (multiboot_tag_pointers \<times> u32 \<times> paging) outcome" where
  "init_multiboot addr rsdt_addr m pg =
     (let sz = get32 m addr
      in case (if addr + sz > PGROUNDUP addr then
                 (case memory_map (PGROUNDDOWN (addr - 0xC0000000)) (PGROUNDDOWN addr) 3 pg of
                    Inl e \<Rightarrow> Inl e
                  | Inr pg1 \<Rightarrow> memory_map (PGROUNDDOWN (addr - 0xC0000000 + sz)) (PGROUNDDOWN (addr + sz)) 3 pg1)
               else Inr pg) of
           Inl e \<Rightarrow> Some (Inl e)
         | Inr pg1 \<Rightarrow>
             Option.bind (tag_loop (addr + 8) m \<lparr>mmap = 0, tag_framebuffer = 0, old_acpi = 0\<rparr>)
               (\<lambda>p. if old_acpi p = 0 then Some (Inr (p, rsdt_addr, pg1))
                 else bind_out (init_rsdt_v1 (old_acpi p) rsdt_addr m pg1)
                        (\<lambda>(rsdt, pg2). Some (Inr (p, rsdt, pg2)))))"

section \<open>Walking the tags\<close>

text \<open>The tags from \<open>t\<close> on are at \<open>ts\<close>, and an end tag follows.\<close>

fun tags_at :: "mem \<Rightarrow> u32 \<Rightarrow> u32 list \<Rightarrow> bool" where
  "tags_at m t [] \<longleftrightarrow> tag_type m t = 0"
| "tags_at m t (x # ts) \<longleftrightarrow> x = t \<and> tag_type m t \<noteq> 0 \<and> tags_at m (next_tag m t) ts"

text \<open>The last tag of a type, \<open>d\<close> when there is none.\<close>

definition last_tag :: "mem \<Rightarrow> u32 \<Rightarrow> u32 \<Rightarrow> u32 list \<Rightarrow> u32" where
  "last_tag m k d ts = last (d # filter (\<lambda>t. tag_type m t = k) ts)"

lemma last_tag_simps [simp]:
  "last_tag m k d [] = d"
  "last_tag m k d (t # ts) = (if tag_type m t = k then last_tag m k t ts else last_tag m k d ts)"
  by (simp_all add: last_tag_def)

lemma tag_loop_ok:
  "tags_at m t ts \<Longrightarrow> tag_loop t m p =
     Some \<lparr>mmap = last_tag m 6 (mmap p) ts, tag_framebuffer = last_tag m 8 (tag_framebuffer p) ts,
       old_acpi = last_tag m 14 (old_acpi p) ts\<rparr>"
proof (induction ts arbitrary: t p)
  case Nil
  then show ?case by (subst tag_loop.simps) simp
next
  case (Cons x ts)
  then show ?case by (subst tag_loop.simps) (simp add: note_tag_def)
qed


text \<open>Two tags at 0x1008 and 0x1020 (the first of 20 bytes, padded to 24), then the end tag.\<close>

definition demo_tags :: mem where
  "demo_tags = (\<lambda>_. 0)(0x1008 := 6, 0x100C := 20, 0x1020 := 8, 0x1024 := 32)"


section \<open>The check of the root pointer\<close>

lemma scast_low: "unat (scast (b :: u8) :: u32) mod 256 = unat b"
proof -
  have "take_bit 8 (scast b :: u32) = ucast b"
  proof (rule bit_word_eqI)
    fix n :: nat
    consider "n < 7" | "n = 7" | "7 < n" by linarith
    then show "bit (take_bit 8 (scast b :: u32)) n = bit (ucast b :: u32) n" if "n < LENGTH(32)"
      by cases (auto simp: bit_simps dest: bit_imp_le_length)
  qed
  then have "unat (take_bit 8 (scast b :: u32)) = unat b"
    using unat_lt_u8 [of b] by (simp add: unsigned_ucast_eq take_bit_nat_eq_self)
  then have "take_bit 8 (unat (scast b :: u32)) = unat b"
    by (simp only: unsigned_take_bit_eq)
  then show ?thesis
    by (simp add: take_bit_eq_mod)
qed

lemma low_byte_sum: "unat (rsdp_sum n b m) mod 256 = (\<Sum>i<n. unat (m (b + of_nat i))) mod 256"
proof (induction n)
  case 0
  then show ?case by simp
next
  case (Suc n)
  have "unat (rsdp_sum (Suc n) b m) mod 256 =
      (unat (rsdp_sum n b m) + unat (scast (m (b + of_nat n)) :: u32)) mod 2 ^ 32 mod 256"
    by (simp add: unat_word_ariths)
  also have "\<dots> = (unat (rsdp_sum n b m) mod 256 + unat (scast (m (b + of_nat n)) :: u32) mod 256) mod 256"
    by (simp add: mod_mod_cancel mod_add_eq)
  finally show ?case
    unfolding Suc.IH scast_low by (simp add: mod_simps)
qed

lemma validate_RSDP_eq: "validate_RSDP b n m \<longleftrightarrow> 256 dvd (\<Sum>i<n. unat (m (b + of_nat i)))"
proof -
  have "rsdp_sum n b m AND 0xFF = take_bit 8 (rsdp_sum n b m)"
    by (simp add: take_bit_eq_mask mask_eq_exp_minus_1)
  moreover have "unat (take_bit 8 (rsdp_sum n b m)) = unat (rsdp_sum n b m) mod 256"
    by (simp only: unsigned_take_bit_eq) (simp add: take_bit_eq_mod)
  ultimately have "validate_RSDP b n m \<longleftrightarrow> unat (rsdp_sum n b m) mod 256 = 0"
    unfolding validate_RSDP_def by (metis unsigned_eq_0_iff)
  then show ?thesis
    unfolding low_byte_sum by (simp only: dvd_eq_mod_eq_0)
qed

lemma byte_zero: "(ucast (c :: u8) :: u32) = 0 \<Longrightarrow> c = 0"
proof -
  assume "(ucast c :: u32) = 0"
  then have "(ucast (ucast c :: u32) :: u8) = 0"
    by (simp only: ucast_0)
  moreover have "(ucast (ucast c :: u32) :: u8) = c"
    by (rule bit_word_eqI) (simp add: bit_simps)
  ultimately show "c = 0" by simp
qed

text \<open>
  C37. The check of the root pointer is inverted and one byte short: a descriptor of revision 0 or 1
  whose 20 bytes have the checksum the specification asks for makes the kernel panic when its last
  byte is 0, that is, when the root table lies below 16 MiB.
\<close>

theorem valid_rsdp_refused:
  assumes "old_tag \<noteq> 0" and "rsdp_revision m (old_tag + 8) < 2"
    and "256 dvd (\<Sum>i<20. unat (m (old_tag + 8 + of_nat i)))"
    and "rsdt_address m (old_tag + 8) < 0x1000000"
  shows "init_rsdt_v1 old_tag rsdt_addr m pg = Some (Inl (Panic ''RSDP NOT VALIDATED''))"
proof -
  let ?b = "old_tag + 8"
  have "drop_bit 24 (rsdt_address m ?b) = ucast (m (?b + 19))"
    by (rule bit_word_eqI) (auto simp: rsdt_address_def get32_def bit_simps add.assoc dest: bit_imp_le_length)
  moreover have "drop_bit 24 (rsdt_address m ?b) = 0"
  proof -
    have "unat (rsdt_address m ?b) < 2 ^ 24"
      using assms(4) by (simp add: word_less_nat_alt)
    then have "unat (drop_bit 24 (rsdt_address m ?b)) = 0"
      by (simp add: unsigned_drop_bit_eq drop_bit_eq_div unat_div)
    then show ?thesis
      by (simp add: unsigned_eq_0_iff)
  qed
  ultimately have "m (?b + 19) = 0"
    by (metis byte_zero)
  moreover have "(\<Sum>i<20. unat (m (?b + of_nat i))) = (\<Sum>i<19. unat (m (?b + of_nat i))) + unat (m (?b + of_nat 19))"
    using sum.lessThan_Suc [of "\<lambda>i. unat (m (?b + of_nat i))" 19] by simp
  ultimately have "validate_RSDP ?b 19 m"
    using assms(3) by (simp add: validate_RSDP_eq)
  moreover have "\<not> 2 \<le> rsdp_revision m ?b"
    using assms(2) by simp
  ultimately show ?thesis
    using assms(1) by (simp add: init_rsdt_v1_def Let_def)
qed

text \<open>A descriptor with the table at 0x7000: the checksum byte makes the sum 256.\<close>

definition demo_rsdp :: mem where
  "demo_rsdp = (\<lambda>_. 0)(0x1010 := 0x90, 0x1019 := 0x70)"

theorem valid_rsdp_refused_witness:
  "init_rsdt_v1 0x1000 0 demo_rsdp demo_paging = Some (Inl (Panic ''RSDP NOT VALIDATED''))"
  by (rule valid_rsdp_refused)
    (simp_all add: rsdp_revision_def rsdt_address_def get32_def demo_rsdp_def lessThan_nat_numeral lessThan_Suc)

end
