(* ===== verification/Rbtree.thy ===== *)
theory Rbtree
  imports Prelude "HOL-Library.Multiset"
begin

text \<open>
  The red-black tree of \<open>kernel/utils/rbtree.c\<close>, which orders the free regions of an address space
  by size. Nodes are C structs linked by \<open>left\<close>, \<open>right\<close> and \<open>parent\<close> pointers; the model keeps
  the pointers: a \<open>store\<close> maps the address of a node to its struct, address 0 is NULL, and every
  routine takes the store and returns the updated one. Reading a field of NULL is a page fault at
  the field's offset.
\<close>

section \<open>Nodes and address spaces\<close>

record rbnode =
  rb_id :: u32
  rb_base :: u32
  rb_size :: u32
  rb_flags :: u32
  color :: int
  left :: u32
  right :: u32
  parent :: u32

type_synonym store = "u32 \<Rightarrow> rbnode"

abbreviation RED :: int where
  "RED \<equiv> 0"

abbreviation BLACK :: int where
  "BLACK \<equiv> 1"

abbreviation DOUBLE_BLACK :: int where
  "DOUBLE_BLACK \<equiv> 2"

text \<open>\<open>struct vmm\<close> of \<open>kernel/memory/vmm.h\<close>: its size on the 32-bit target is 48 bytes, a node's 32.\<close>

record vmm =
  root_pd :: u32
  root_pdpt :: u32
  pd_low :: u64
  pd_mid :: u64
  pd_high :: u64
  root :: u32
  vm_obj_store_addr :: u32
  low :: u32
  high :: u32

definition sizeof_vmm :: u32 where
  "sizeof_vmm = 48"

definition sizeof_rbnode :: u32 where
  "sizeof_rbnode = 32"

definition set_left :: "u32 \<Rightarrow> u32 \<Rightarrow> store \<Rightarrow> store" where
  "set_left p v s = s(p := (s p)\<lparr>left := v\<rparr>)"

definition set_right :: "u32 \<Rightarrow> u32 \<Rightarrow> store \<Rightarrow> store" where
  "set_right p v s = s(p := (s p)\<lparr>right := v\<rparr>)"

definition set_parent :: "u32 \<Rightarrow> u32 \<Rightarrow> store \<Rightarrow> store" where
  "set_parent p v s = s(p := (s p)\<lparr>parent := v\<rparr>)"

definition set_color :: "u32 \<Rightarrow> int \<Rightarrow> store \<Rightarrow> store" where
  "set_color p v s = s(p := (s p)\<lparr>color := v\<rparr>)"

section \<open>Node slots\<close>

text \<open>\<open>while (start->flags & 1) start++;\<close> has no bound of its own.\<close>

partial_function (option) find_slot :: "u32 \<Rightarrow> store \<Rightarrow> u32 option" where
  "find_slot start s =
     (if rb_flags (s start) AND 1 \<noteq> 0 then find_slot (start + sizeof_rbnode) s else Some start)"

declare find_slot.simps [code]

definition alloc_node_obj :: "vmm \<Rightarrow> store \<Rightarrow> (u32 \<times> store) option" where
  "alloc_node_obj cvmm s =
     map_option (\<lambda>p. (p, s(p := (s p)\<lparr>rb_flags := 3\<rparr>)))
       (find_slot (vm_obj_store_addr cvmm + sizeof_vmm) s)"

definition free_node_obj :: "u32 \<Rightarrow> store \<Rightarrow> store" where
  "free_node_obj obj s =
     (if rb_flags (s obj) AND 2 = 0 then s
      else s(obj := (s obj)\<lparr>rb_flags := rb_flags (s obj) AND NOT 2, rb_base := 0\<rparr>))"

section \<open>Rotations\<close>

definition rb_left_rotation :: "u32 \<Rightarrow> u32 \<Rightarrow> store \<Rightarrow> (u32 \<times> store) result" where
  "rb_left_rotation rt node s =
     (let y = right (s node)
      in if y = 0 then Inl (PageFault 20)
         else
           let s1 = set_right node (left (s y)) s;
               s2 = (if left (s1 y) \<noteq> 0 then set_parent (left (s1 y)) node s1 else s1);
               s3 = set_parent y (parent (s2 node)) s2;
               (rt', s4) =
                 (if parent (s3 y) = 0 then (y, s3)
                  else if node = left (s3 (parent (s3 node))) then (rt, set_left (parent (s3 node)) y s3)
                  else (rt, set_right (parent (s3 node)) y s3))
           in Inr (rt', set_parent node y (set_left y node s4)))"

definition rb_right_rotation :: "u32 \<Rightarrow> u32 \<Rightarrow> store \<Rightarrow> (u32 \<times> store) result" where
  "rb_right_rotation rt node s =
     (let y = left (s node)
      in if y = 0 then Inl (PageFault 24)
         else
           let s1 = set_left node (right (s y)) s;
               s2 = (if right (s1 y) \<noteq> 0 then set_parent (right (s1 y)) node s1 else s1);
               s3 = set_parent y (parent (s2 node)) s2;
               (rt', s4) =
                 (if parent (s3 y) = 0 then (y, s3)
                  else if node = left (s3 (parent (s3 node))) then (rt, set_left (parent (s3 node)) y s3)
                  else (rt, set_right (parent (s3 node)) y s3))
           in Inr (rt', set_parent node y (set_right y node s4)))"

section \<open>Insertion\<close>

text \<open>
  The two rotation stages of \<open>insert_violations\<close>. The first turns an inner grandchild into an
  outer one; it returns the node the second stage continues with.
\<close>

definition straighten :: "u32 \<Rightarrow> u32 \<Rightarrow> store \<Rightarrow> (u32 \<times> u32 \<times> store) result" where
  "straighten rt node s =
     (let par = parent (s node); gp = parent (s par)
      in if left (s gp) = par then
           (if right (s par) = node then
              (case rb_left_rotation rt par s of
                 Inl e \<Rightarrow> Inl e
               | Inr (rt', s') \<Rightarrow> Inr (left (s' node), rt', s'))
            else Inr (node, rt, s))
         else
           (if left (s par) = node then
              (case rb_right_rotation rt par s of
                 Inl e \<Rightarrow> Inl e
               | Inr (rt', s') \<Rightarrow> Inr (right (s' node), rt', s'))
            else Inr (node, rt, s)))"

definition lift_outer :: "u32 \<Rightarrow> u32 \<Rightarrow> store \<Rightarrow> (u32 \<times> store) result" where
  "lift_outer rt node s =
     (let par = parent (s node); gp = parent (s par);
          s' = set_color gp RED (set_color par BLACK s)
      in if left (s par) = node then rb_right_rotation rt gp s' else rb_left_rotation rt gp s')"

definition blacken_root :: "u32 \<Rightarrow> store \<Rightarrow> (u32 \<times> store) outcome" where
  "blacken_root rt s = Some (if rt = 0 then Inl (PageFault 16) else Inr (rt, set_color rt BLACK s))"

definition rotate_insert :: "u32 \<Rightarrow> u32 \<Rightarrow> store \<Rightarrow> (u32 \<times> store) result" where
  "rotate_insert rt node s =
     (case straighten rt node s of
        Inl e \<Rightarrow> Inl e
      | Inr (node', rt', s') \<Rightarrow> lift_outer rt' node' s')"

partial_function (option) insert_violations :: "u32 \<Rightarrow> u32 \<Rightarrow> store \<Rightarrow> (u32 \<times> store) outcome" where
  "insert_violations rt node s =
     (if node = 0 then Some (Inr (rt, s))
      else if parent (s node) = 0 then Some (Inr (rt, set_color node BLACK s))
      else if color (s (parent (s node))) = BLACK then Some (Inr (rt, s))
      else
        let par = parent (s node); gp = parent (s par)
        in if gp = 0 then Some (Inl (PageFault 20))
           else
             let uncle = (if left (s gp) = par then right (s gp) else left (s gp));
                 temp_color = (if uncle \<noteq> 0 then color (s uncle) else BLACK)
             in if temp_color = RED then
                  bind_out
                    (insert_violations rt gp
                      (set_color gp RED (set_color uncle BLACK (set_color par BLACK s))))
                    (\<lambda>(rt', s'). blacken_root rt' s')
                else
                  bind_out (Some (rotate_insert rt node s)) (\<lambda>(rt', s'). blacken_root rt' s'))"

declare insert_violations.simps [code]

text \<open>The descent: \<open>prev\<close> and \<open>dir\<close> when \<open>cur\<close> has become NULL.\<close>

partial_function (option) descend ::
  "u32 \<Rightarrow> u32 \<Rightarrow> bool \<Rightarrow> u32 \<Rightarrow> store \<Rightarrow> (u32 \<times> bool) option" where
  "descend cur prev dir key s =
     (if cur \<noteq> 0 then
        (if key > rb_size (s cur) then descend (right (s cur)) cur True key s
         else descend (left (s cur)) cur False key s)
      else Some (prev, dir))"

declare descend.simps [code]

definition insert_node :: "u32 \<Rightarrow> u32 \<Rightarrow> store \<Rightarrow> (u32 \<times> store) outcome" where
  "insert_node rt node s =
     (if rt = 0 then Some (Inr (rt, s))
      else
        let s0 = set_color rt BLACK s
        in Option.bind (descend rt 0 False (rb_size (s0 node)) s0)
             (\<lambda>(prev, dir).
               let s1 = (if dir then set_right prev node s0 else set_left prev node s0);
                   s2 = set_color node RED (set_parent node prev s1)
               in if color (s2 (parent (s2 node))) \<noteq> BLACK then insert_violations rt node s2
                  else Some (Inr (rt, s2))))"

definition make_node ::
  "vmm \<Rightarrow> u32 \<Rightarrow> u32 \<Rightarrow> u32 \<Rightarrow> store \<Rightarrow> (u32 \<times> vmm \<times> store) outcome" where
  "make_node cvmm bas siz ident s =
     Option.bind (alloc_node_obj cvmm s)
       (\<lambda>(n, s0).
         let s1 = s0(n := (s0 n)\<lparr>rb_size := siz, rb_id := ident, rb_base := bas\<rparr>)
         in if root cvmm = 0 then
              Some (Inr (n, cvmm\<lparr>root := n\<rparr>,
                s1(n := (s1 n)\<lparr>color := BLACK, left := 0, right := 0, parent := 0\<rparr>)))
            else bind_out (insert_node (root cvmm) n s1)
                   (\<lambda>(rt', s2). Some (Inr (n, cvmm\<lparr>root := rt'\<rparr>, s2))))"

section \<open>Search\<close>

partial_function (option) find_node_loop :: "u32 \<Rightarrow> u32 \<Rightarrow> store \<Rightarrow> u32 option" where
  "find_node_loop cur siz s =
     (if cur \<noteq> 0 then
        (if rb_size (s cur) = siz then Some cur
         else if rb_size (s cur) \<le> siz then find_node_loop (right (s cur)) siz s
         else find_node_loop (left (s cur)) siz s)
      else Some 0)"

declare find_node_loop.simps [code]

definition find_node :: "u32 \<Rightarrow> u32 \<Rightarrow> store \<Rightarrow> u32 option" where
  "find_node rt siz s = find_node_loop rt siz s"

text \<open>The search of \<open>vmm_page_alloc\<close> for the region to cut from: \<open>best\<close> starts as NULL.\<close>

partial_function (option) best_fit_loop :: "u32 \<Rightarrow> u32 \<Rightarrow> u32 \<Rightarrow> store \<Rightarrow> u32 option" where
  "best_fit_loop cur best len s =
     (if cur \<noteq> 0 then
        (if rb_size (s cur) = len then Some cur
         else if rb_size (s cur) \<le> len then best_fit_loop (right (s cur)) best len s
         else best_fit_loop (left (s cur)) cur len s)
      else Some best)"

declare best_fit_loop.simps [code]

end
