(* ===== verification/Rbtree_Shape.thy ===== *)
theory Rbtree_Shape
  imports Rbtree
begin

text \<open>
  The abstraction of the pointer structure of \<open>rbtree.c\<close>: a store and a root pointer represent an
  abstract tree whose nodes carry their addresses and colours (\<open>tree_at\<close>), and the surroundings of
  a node represent a one-hole context (\<open>ctx_at\<close>). Rotations act on both as on the pictures in a
  textbook; the red-black invariants are stated on the abstract side.
\<close>

section \<open>Abstract trees and contexts\<close>

datatype rtree = Lf | Nd rtree u32 int rtree

datatype ctx = Top | LCtx u32 int rtree ctx | RCtx rtree u32 int ctx

fun tree_at :: "store \<Rightarrow> u32 \<Rightarrow> u32 \<Rightarrow> rtree \<Rightarrow> bool" where
  "tree_at s par p Lf \<longleftrightarrow> p = 0"
| "tree_at s par p (Nd l a c r) \<longleftrightarrow> p = a \<and> a \<noteq> 0 \<and> parent (s a) = par \<and> color (s a) = c \<and>
     tree_at s a (left (s a)) l \<and> tree_at s a (right (s a)) r"

fun ctx_at :: "store \<Rightarrow> u32 \<Rightarrow> u32 \<Rightarrow> u32 \<Rightarrow> ctx \<Rightarrow> bool" where
  "ctx_at s rt p par Top \<longleftrightarrow> rt = p \<and> par = 0"
| "ctx_at s rt p par (LCtx a c r C) \<longleftrightarrow> par = a \<and> a \<noteq> 0 \<and> left (s a) = p \<and> color (s a) = c \<and>
     tree_at s a (right (s a)) r \<and> ctx_at s rt a (parent (s a)) C"
| "ctx_at s rt p par (RCtx l a c C) \<longleftrightarrow> par = a \<and> a \<noteq> 0 \<and> right (s a) = p \<and> color (s a) = c \<and>
     tree_at s a (left (s a)) l \<and> ctx_at s rt a (parent (s a)) C"

fun fill :: "ctx \<Rightarrow> rtree \<Rightarrow> rtree" where
  "fill Top t = t"
| "fill (LCtx a c r C) t = fill C (Nd t a c r)"
| "fill (RCtx l a c C) t = fill C (Nd l a c t)"

fun inorder :: "rtree \<Rightarrow> u32 list" where
  "inorder Lf = []"
| "inorder (Nd l a c r) = inorder l @ a # inorder r"

fun pre_of :: "ctx \<Rightarrow> u32 list" where
  "pre_of Top = []"
| "pre_of (LCtx a c r C) = pre_of C"
| "pre_of (RCtx l a c C) = pre_of C @ inorder l @ [a]"

fun post_of :: "ctx \<Rightarrow> u32 list" where
  "post_of Top = []"
| "post_of (LCtx a c r C) = a # inorder r @ post_of C"
| "post_of (RCtx l a c C) = post_of C"

definition nodes :: "rtree \<Rightarrow> u32 set" where
  "nodes t = set (inorder t)"

definition ctx_nodes :: "ctx \<Rightarrow> u32 set" where
  "ctx_nodes C = set (pre_of C) \<union> set (post_of C)"

text \<open>The colour of a pointer, NULL counting as black, as the code reads it.\<close>

fun col :: "rtree \<Rightarrow> int" where
  "col Lf = BLACK"
| "col (Nd l a c r) = c"

fun bheight :: "rtree \<Rightarrow> nat" where
  "bheight Lf = 0"
| "bheight (Nd l a c r) = (if c = BLACK then Suc (bheight l) else bheight l)"

fun invc :: "rtree \<Rightarrow> bool" where
  "invc Lf = True"
| "invc (Nd l a c r) = ((c = RED \<or> c = BLACK) \<and> (c = RED \<longrightarrow> col l = BLACK \<and> col r = BLACK) \<and>
     invc l \<and> invc r)"

fun invh :: "rtree \<Rightarrow> bool" where
  "invh Lf = True"
| "invh (Nd l a c r) = (bheight l = bheight r \<and> invh l \<and> invh r)"

definition rbt :: "rtree \<Rightarrow> bool" where
  "rbt t \<longleftrightarrow> invc t \<and> invh t \<and> col t = BLACK"

text \<open>What a context demands of the tree in its hole, whose black height is \<open>n\<close>.\<close>

fun ctx_black :: "ctx \<Rightarrow> bool" where
  "ctx_black Top = False"
| "ctx_black (LCtx a c r C) = (c = BLACK)"
| "ctx_black (RCtx l a c C) = (c = BLACK)"

fun ctx_ok :: "ctx \<Rightarrow> nat \<Rightarrow> bool" where
  "ctx_ok Top n = True"
| "ctx_ok (LCtx a c r C) n = ((c = RED \<or> c = BLACK) \<and> (c = RED \<longrightarrow> col r = BLACK \<and> ctx_black C) \<and>
     invc r \<and> invh r \<and> n = bheight r \<and> ctx_ok C (if c = BLACK then Suc n else n))"
| "ctx_ok (RCtx l a c C) n = ((c = RED \<or> c = BLACK) \<and> (c = RED \<longrightarrow> col l = BLACK \<and> ctx_black C) \<and>
     invc l \<and> invh l \<and> bheight l = n \<and> ctx_ok C (if c = BLACK then Suc n else n))"

named_theorems shape_simps \<open>reading fields after pointer updates\<close>

section \<open>Field updates\<close>

lemma set_left_fields [shape_simps]:
  "left (set_left p v s q) = (if q = p then v else left (s q))"
  "right (set_left p v s q) = right (s q)" "parent (set_left p v s q) = parent (s q)"
  "color (set_left p v s q) = color (s q)" "rb_size (set_left p v s q) = rb_size (s q)"
  "rb_flags (set_left p v s q) = rb_flags (s q)" "rb_base (set_left p v s q) = rb_base (s q)"
  by (simp_all add: set_left_def)

lemma set_right_fields [shape_simps]:
  "right (set_right p v s q) = (if q = p then v else right (s q))"
  "left (set_right p v s q) = left (s q)" "parent (set_right p v s q) = parent (s q)"
  "color (set_right p v s q) = color (s q)" "rb_size (set_right p v s q) = rb_size (s q)"
  "rb_flags (set_right p v s q) = rb_flags (s q)" "rb_base (set_right p v s q) = rb_base (s q)"
  by (simp_all add: set_right_def)

lemma set_parent_fields [shape_simps]:
  "parent (set_parent p v s q) = (if q = p then v else parent (s q))"
  "left (set_parent p v s q) = left (s q)" "right (set_parent p v s q) = right (s q)"
  "color (set_parent p v s q) = color (s q)" "rb_size (set_parent p v s q) = rb_size (s q)"
  "rb_flags (set_parent p v s q) = rb_flags (s q)" "rb_base (set_parent p v s q) = rb_base (s q)"
  by (simp_all add: set_parent_def)

lemma set_color_fields [shape_simps]:
  "color (set_color p v s q) = (if q = p then v else color (s q))"
  "left (set_color p v s q) = left (s q)" "right (set_color p v s q) = right (s q)"
  "parent (set_color p v s q) = parent (s q)" "rb_size (set_color p v s q) = rb_size (s q)"
  "rb_flags (set_color p v s q) = rb_flags (s q)" "rb_base (set_color p v s q) = rb_base (s q)"
  by (simp_all add: set_color_def)

text \<open>What the balancing code never writes.\<close>

definition same_data :: "store \<Rightarrow> store \<Rightarrow> bool" where
  "same_data s s' \<longleftrightarrow>
     (\<forall>q. rb_size (s' q) = rb_size (s q) \<and> rb_base (s' q) = rb_base (s q) \<and> rb_flags (s' q) = rb_flags (s q))"

lemma same_data_refl [simp]: "same_data s s"
  by (simp add: same_data_def)

lemma same_data_trans: "same_data s s' \<Longrightarrow> same_data s' s'' \<Longrightarrow> same_data s s''"
  by (simp add: same_data_def)

lemma same_data_set [simp]:
  "same_data s (set_left p v s') = same_data s s'" "same_data s (set_right p v s') = same_data s s'"
  "same_data s (set_parent p v s') = same_data s s'" "same_data s (set_color p c s') = same_data s s'"
  by (simp_all add: same_data_def shape_simps)

lemma same_data_size: "same_data s s' \<Longrightarrow> map (\<lambda>a. rb_size (s' a)) xs = map (\<lambda>a. rb_size (s a)) xs"
  by (simp add: same_data_def)

section \<open>Frame\<close>

lemma nodes_simps [simp]:
  "nodes Lf = {}" "nodes (Nd l a c r) = insert a (nodes l \<union> nodes r)"
  by (auto simp: nodes_def)

lemma ctx_nodes_simps [simp]:
  "ctx_nodes Top = {}" "ctx_nodes (LCtx a c r C) = insert a (nodes r \<union> ctx_nodes C)"
  "ctx_nodes (RCtx l a c C) = insert a (nodes l \<union> ctx_nodes C)"
  by (auto simp: ctx_nodes_def nodes_def)

text \<open>Two stores agree on the links and colours of a set of nodes.\<close>

definition agree :: "u32 set \<Rightarrow> store \<Rightarrow> store \<Rightarrow> bool" where
  "agree A s s' \<longleftrightarrow> (\<forall>a\<in>A. left (s' a) = left (s a) \<and> right (s' a) = right (s a) \<and>
     parent (s' a) = parent (s a) \<and> color (s' a) = color (s a))"

lemma agree_subset: "agree A s s' \<Longrightarrow> B \<subseteq> A \<Longrightarrow> agree B s s'"
  by (auto simp: agree_def)

lemma agreeD:
  "agree A s s' \<Longrightarrow> a \<in> A \<Longrightarrow> left (s' a) = left (s a)"
  "agree A s s' \<Longrightarrow> a \<in> A \<Longrightarrow> right (s' a) = right (s a)"
  "agree A s s' \<Longrightarrow> a \<in> A \<Longrightarrow> parent (s' a) = parent (s a)"
  "agree A s s' \<Longrightarrow> a \<in> A \<Longrightarrow> color (s' a) = color (s a)"
  by (simp_all add: agree_def)

lemma tree_at_agree: "tree_at s par p t \<Longrightarrow> agree (nodes t) s s' \<Longrightarrow> tree_at s' par p t"
proof (induction t arbitrary: par p)
  case Lf
  then show ?case by simp
next
  case (Nd l a c r)
  have "agree (nodes l) s s'" "agree (nodes r) s s'"
    using Nd.prems(2) by (auto elim: agree_subset)
  with Nd show ?case by (simp add: agreeD [OF Nd.prems(2)])
qed

lemma ctx_at_agree: "ctx_at s rt p par C \<Longrightarrow> agree (ctx_nodes C) s s' \<Longrightarrow> ctx_at s' rt p par C"
proof (induction C arbitrary: p par)
  case Top
  then show ?case by simp
next
  case (LCtx a c r C)
  have agree: "agree (nodes r) s s'" "agree (ctx_nodes C) s s'"
    using LCtx.prems(2) by (auto elim: agree_subset)
  with LCtx show ?case by (simp add: agreeD [OF LCtx.prems(2)] tree_at_agree [OF _ agree(1)])
next
  case (RCtx l a c C)
  have agree: "agree (nodes l) s s'" "agree (ctx_nodes C) s s'"
    using RCtx.prems(2) by (auto elim: agree_subset)
  with RCtx show ?case by (simp add: agreeD [OF RCtx.prems(2)] tree_at_agree [OF _ agree(1)])
qed

lemma inorder_fill: "inorder (fill C t) = pre_of C @ inorder t @ post_of C"
  by (induction C arbitrary: t) simp_all

lemma tree_at_NULL: "tree_at s par p t \<Longrightarrow> p = 0 \<longleftrightarrow> t = Lf"
  by (cases t) auto

lemma tree_at_ptr: "tree_at s par p t \<Longrightarrow> p \<noteq> 0 \<Longrightarrow> p \<in> nodes t"
  by (cases t) auto

lemma tree_at_nonzero: "tree_at s par p t \<Longrightarrow> 0 \<notin> nodes t"
  by (induction t arbitrary: par p) auto

lemma ctx_at_nonzero: "ctx_at s rt p par C \<Longrightarrow> 0 \<notin> ctx_nodes C"
proof (induction C arbitrary: p par)
  case (LCtx a c r C)
  then show ?case using tree_at_nonzero [of s a "right (s a)" r] by auto
next
  case (RCtx l a c C)
  then show ?case using tree_at_nonzero [of s a "left (s a)" l] by auto
qed simp

lemma tree_at_fill: "tree_at s 0 rt (fill C t) \<longleftrightarrow> (\<exists>p par. ctx_at s rt p par C \<and> tree_at s par p t)"
proof (induction C arbitrary: t)
  case Top
  then show ?case by simp
next
  case (LCtx a c r C)
  have "tree_at s 0 rt (fill (LCtx a c r C) t) \<longleftrightarrow>
      (\<exists>p par. ctx_at s rt p par C \<and> tree_at s par p (Nd t a c r))"
    by (simp only: fill.simps LCtx.IH)
  also have "\<dots> \<longleftrightarrow> (\<exists>p par. ctx_at s rt p par (LCtx a c r C) \<and> tree_at s par p t)"
    by (simp only: tree_at.simps ctx_at.simps) blast
  finally show ?case .
next
  case (RCtx l a c C)
  have "tree_at s 0 rt (fill (RCtx l a c C) t) \<longleftrightarrow>
      (\<exists>p par. ctx_at s rt p par C \<and> tree_at s par p (Nd l a c t))"
    by (simp only: fill.simps RCtx.IH)
  also have "\<dots> \<longleftrightarrow> (\<exists>p par. ctx_at s rt p par (RCtx l a c C) \<and> tree_at s par p t)"
    by (simp only: tree_at.simps ctx_at.simps) blast
  finally show ?case .
qed

section \<open>Red-black invariants and contexts\<close>

lemma rbt_fill:
  "rbt (fill C t) \<longleftrightarrow> ctx_ok C (bheight t) \<and> invc t \<and> invh t \<and> (col t = BLACK \<or> ctx_black C)"
proof (induction C arbitrary: t)
  case Top
  then show ?case by (auto simp: rbt_def)
next
  case (LCtx a c r C)
  consider "c = BLACK" | "c = RED" | "c \<noteq> BLACK \<and> c \<noteq> RED" by blast
  then show ?case
    by cases (simp_all add: LCtx.IH conj_ac)
next
  case (RCtx l a c C)
  consider "c = BLACK" | "c = RED" | "c \<noteq> BLACK \<and> c \<noteq> RED" by blast
  then show ?case
    by cases (auto simp: RCtx.IH)
qed

section \<open>Rotations\<close>

text \<open>What a rotation writes, field by field.\<close>

lemma left_rotation_fields:
  assumes "right (s x) = y" "y \<noteq> 0" "x \<noteq> y" "left (s y) \<noteq> x" "left (s y) \<noteq> y"
    and "parent (s x) = par" "par \<noteq> x" "par \<noteq> y"
  obtains s' where "rb_left_rotation rt x s = Inr (if par = 0 then y else rt, s')"
    and "\<And>q. left (s' q) = (if q = y then x else if q = par \<and> par \<noteq> 0 \<and> left (s par) = x then y else left (s q))"
    and "\<And>q. right (s' q) = (if q = x then left (s y) else if q = par \<and> par \<noteq> 0 \<and> left (s par) \<noteq> x then y else right (s q))"
    and "\<And>q. parent (s' q) = (if q = x then y else if q = y then par else if q = left (s y) \<and> q \<noteq> 0 then x else parent (s q))"
    and "\<And>q. color (s' q) = color (s q)" and "same_data s s'"
proof -
  define s1 where "s1 = set_right x (left (s y)) s"
  define s2 where "s2 = (if left (s y) \<noteq> 0 then set_parent (left (s y)) x s1 else s1)"
  define s3 where "s3 = set_parent y par s2"
  define s4 where "s4 = (if par = 0 then s3 else if left (s par) = x then set_left par y s3 else set_right par y s3)"
  have ne: "y \<noteq> x" "x \<noteq> left (s y)" "y \<noteq> left (s y)" "x \<noteq> par" "y \<noteq> par"
    using assms by auto
  have "rb_left_rotation rt x s = Inr (if par = 0 then y else rt, set_parent x y (set_left y x s4))"
    unfolding rb_left_rotation_def Let_def s4_def s3_def s2_def s1_def
    by (cases "left (s y) = 0"; cases "par = 0"; cases "left (s par) = x"; simp add: assms ne shape_simps)
  then show thesis
    by (rule that) (use assms in \<open>auto simp: s4_def s3_def s2_def s1_def shape_simps\<close>)
qed

lemma right_rotation_fields:
  assumes "left (s x) = y" "y \<noteq> 0" "x \<noteq> y" "right (s y) \<noteq> x" "right (s y) \<noteq> y"
    and "parent (s x) = par" "par \<noteq> x" "par \<noteq> y"
  obtains s' where "rb_right_rotation rt x s = Inr (if par = 0 then y else rt, s')"
    and "\<And>q. left (s' q) = (if q = x then right (s y) else if q = par \<and> par \<noteq> 0 \<and> left (s par) = x then y else left (s q))"
    and "\<And>q. right (s' q) = (if q = y then x else if q = par \<and> par \<noteq> 0 \<and> left (s par) \<noteq> x then y else right (s q))"
    and "\<And>q. parent (s' q) = (if q = x then y else if q = y then par else if q = right (s y) \<and> q \<noteq> 0 then x else parent (s q))"
    and "\<And>q. color (s' q) = color (s q)" and "same_data s s'"
proof -
  define s1 where "s1 = set_left x (right (s y)) s"
  define s2 where "s2 = (if right (s y) \<noteq> 0 then set_parent (right (s y)) x s1 else s1)"
  define s3 where "s3 = set_parent y par s2"
  define s4 where "s4 = (if par = 0 then s3 else if left (s par) = x then set_left par y s3 else set_right par y s3)"
  have ne: "y \<noteq> x" "x \<noteq> right (s y)" "y \<noteq> right (s y)" "x \<noteq> par" "y \<noteq> par"
    using assms by auto
  have "rb_right_rotation rt x s = Inr (if par = 0 then y else rt, set_parent x y (set_right y x s4))"
    unfolding rb_right_rotation_def Let_def s4_def s3_def s2_def s1_def
    by (cases "right (s y) = 0"; cases "par = 0"; cases "left (s par) = x"; simp add: assms ne shape_simps)
  then show thesis
    by (rule that) (use assms in \<open>auto simp: s4_def s3_def s2_def s1_def shape_simps\<close>)
qed

lemma tree_at_reparent:
  assumes "tree_at s par p t" and "agree (nodes t - {p}) s s'"
    and "p \<noteq> 0 \<Longrightarrow> left (s' p) = left (s p) \<and> right (s' p) = right (s p) \<and> color (s' p) = color (s p) \<and> parent (s' p) = v"
    and "distinct (inorder t)"
  shows "tree_at s' v p t"
proof (cases t)
  case Lf
  with assms(1) show ?thesis by simp
next
  case (Nd l a c r)
  have "agree (nodes l) s s'" "agree (nodes r) s s'"
    using assms(1,2,4) Nd by (auto elim!: agree_subset simp: nodes_def)
  with assms Nd show ?thesis by (auto intro: tree_at_agree)
qed

text \<open>The parent's child pointer follows the rotation, whichever side it is on.\<close>

lemma ctx_at_replace:
  assumes "ctx_at s rt x par C" and "x \<noteq> 0" and "x \<notin> ctx_nodes C"
    and "distinct (pre_of C @ post_of C)"
    and "agree (ctx_nodes C - {par}) s s'"
    and "par \<noteq> 0 \<Longrightarrow> left (s' par) = (if left (s par) = x then y else left (s par))"
    and "par \<noteq> 0 \<Longrightarrow> right (s' par) = (if left (s par) = x then right (s par) else y)"
    and "par \<noteq> 0 \<Longrightarrow> parent (s' par) = parent (s par) \<and> color (s' par) = color (s par)"
  shows "ctx_at s' (if par = 0 then y else rt) y par C"
proof (cases C)
  case Top
  with assms(1) show ?thesis by simp
next
  case (LCtx a c r C1)
  have "agree (nodes r) s s'" "agree (ctx_nodes C1) s s'"
    using assms(1,4,5) LCtx by (auto elim!: agree_subset simp: nodes_def ctx_nodes_def)
  with assms LCtx show ?thesis by (auto intro: tree_at_agree ctx_at_agree)
next
  case (RCtx l a c C1)
  have "agree (nodes l) s s'" "agree (ctx_nodes C1) s s'"
    using assms(1,4,5) RCtx by (auto elim!: agree_subset simp: nodes_def ctx_nodes_def)
  moreover have "left (s a) \<noteq> x"
    using assms(1,2,3) RCtx tree_at_ptr by fastforce
  ultimately show ?thesis
    using assms RCtx by (auto intro: tree_at_agree ctx_at_agree)
qed

lemma ctx_at_parent: "ctx_at s rt p par C \<Longrightarrow> par = 0 \<or> par \<in> ctx_nodes C"
  by (cases C) auto

text \<open>A configuration: a context, the tree in its hole, and no address occurring twice.\<close>

definition focus :: "store \<Rightarrow> u32 \<Rightarrow> u32 \<Rightarrow> u32 \<Rightarrow> ctx \<Rightarrow> rtree \<Rightarrow> bool" where
  "focus s rt p par C t \<longleftrightarrow> ctx_at s rt p par C \<and> tree_at s par p t \<and> distinct (inorder (fill C t))"

lemma distinct_ctx: "distinct (inorder (fill C t)) \<Longrightarrow> distinct (pre_of C @ post_of C)"
  by (auto simp: inorder_fill)

lemma distinct_hole:
  "distinct (inorder (fill C t)) \<Longrightarrow> distinct (inorder t) \<and> nodes t \<inter> ctx_nodes C = {}"
  by (auto simp: inorder_fill nodes_def ctx_nodes_def)

lemma distinct_Nd:
  "distinct (inorder (Nd l a c r)) \<longleftrightarrow> a \<notin> nodes l \<and> a \<notin> nodes r \<and> nodes l \<inter> nodes r = {} \<and>
     distinct (inorder l) \<and> distinct (inorder r)"
  by (auto simp: nodes_def)

lemma left_rotation:
  assumes "focus s rt x par C (Nd a x c (Nd b y d e))"
  obtains rt' s' where "rb_left_rotation rt x s = Inr (rt', s')" "same_data s s'"
    and "focus s' rt' y par C (Nd (Nd a x c b) y d e)"
proof -
  have ctx: "ctx_at s rt x par C" and t: "tree_at s par x (Nd a x c (Nd b y d e))"
    and dist: "distinct (inorder (fill C (Nd a x c (Nd b y d e))))"
    using assms by (simp_all add: focus_def)
  note d = distinct_hole [OF dist, unfolded distinct_Nd nodes_simps]
  have bp: "left (s y) \<noteq> 0 \<Longrightarrow> left (s y) \<in> nodes b"
    using t tree_at_ptr by auto
  have par: "par = 0 \<or> par \<in> ctx_nodes C"
    using ctx by (rule ctx_at_parent)
  have ne: "right (s x) = y" "y \<noteq> 0" "x \<noteq> y" "left (s y) \<noteq> x" "left (s y) \<noteq> y"
      "parent (s x) = par" "par \<noteq> x" "par \<noteq> y"
    using t d bp par by (auto simp:)
  obtain s' where s': "rb_left_rotation rt x s = Inr (if par = 0 then y else rt, s')"
    and l: "\<And>q. left (s' q) = (if q = y then x else if q = par \<and> par \<noteq> 0 \<and> left (s par) = x then y else left (s q))"
    and r: "\<And>q. right (s' q) = (if q = x then left (s y) else if q = par \<and> par \<noteq> 0 \<and> left (s par) \<noteq> x then y else right (s q))"
    and p: "\<And>q. parent (s' q) = (if q = x then y else if q = y then par else if q = left (s y) \<and> q \<noteq> 0 then x else parent (s q))"
    and k: "\<And>q. color (s' q) = color (s q)" and data: "same_data s s'"
    using left_rotation_fields [OF ne] by blast
  have "0 \<notin> nodes (Nd a x c (Nd b y d e))"
    using t by (rule tree_at_nonzero)
  then have zero: "0 \<notin> nodes a" "0 \<notin> nodes b" "0 \<notin> nodes e" by auto
  have same: "agree A s s'" if "x \<notin> A" "y \<notin> A" "par \<notin> A" "left (s y) \<notin> A" for A
    unfolding agree_def
  proof
    fix q assume "q \<in> A"
    then have "q \<noteq> x" "q \<noteq> y" "q \<noteq> par" "q \<noteq> left (s y)"
      using that by auto
    then show "left (s' q) = left (s q) \<and> right (s' q) = right (s q) \<and> parent (s' q) = parent (s q) \<and>
        color (s' q) = color (s q)"
      by (simp add: l r p k)
  qed
  have dj: "nodes a \<inter> ctx_nodes C = {}" "nodes b \<inter> ctx_nodes C = {}" "nodes e \<inter> ctx_nodes C = {}"
      "nodes a \<inter> nodes b = {}" "nodes b \<inter> nodes e = {}" "x \<notin> ctx_nodes C" "y \<notin> ctx_nodes C"
    using d by auto
  have out: "par \<notin> nodes a" "par \<notin> nodes b" "par \<notin> nodes e" "left (s y) \<notin> nodes a" "left (s y) \<notin> nodes e"
      "left (s y) \<notin> ctx_nodes C" "x \<notin> ctx_nodes C" "y \<notin> ctx_nodes C" "0 \<notin> ctx_nodes C"
    using par bp zero dj ctx_at_nonzero [OF ctx] by (metis disjoint_iff)+
  have agree: "agree (nodes a) s s'" "agree (nodes e) s s'" "agree (nodes b - {left (s y)}) s s'"
      "agree (ctx_nodes C - {par}) s s'"
    using d out ne(1-5) by (auto intro!: same)
  have "tree_at s' x (left (s y)) b"
  proof (rule tree_at_reparent [of s y _ b])
    show "tree_at s y (left (s y)) b" "distinct (inorder b)"
      using t d by simp_all
    show "agree (nodes b - {left (s y)}) s s'" by (rule agree(3))
    assume "left (s y) \<noteq> 0"
    then have "left (s y) \<noteq> par"
      using bp out(2) by blast
    with \<open>left (s y) \<noteq> 0\<close> ne(4,5) show "left (s' (left (s y))) = left (s (left (s y))) \<and>
        right (s' (left (s y))) = right (s (left (s y))) \<and> color (s' (left (s y))) = color (s (left (s y))) \<and>
        parent (s' (left (s y))) = x"
      by (simp add: l r p k)
  qed
  moreover have "tree_at s' x (left (s x)) a" "tree_at s' y (right (s y)) e"
    using t tree_at_agree [OF _ agree(1)] tree_at_agree [OF _ agree(2)] by simp_all
  ultimately have "tree_at s' par y (Nd (Nd a x c b) y d e)"
    using t ne by (simp add: l r p k)
  moreover have "ctx_at s' (if par = 0 then y else rt) y par C"
  proof (rule ctx_at_replace [OF ctx _ _ distinct_ctx [OF dist] agree(4)])
    show "x \<noteq> 0" "x \<notin> ctx_nodes C"
      using t out by simp_all
    assume "par \<noteq> 0"
    then have "par \<in> ctx_nodes C" using par by simp
    then have "par \<noteq> left (s y)" using out(6) \<open>par \<noteq> 0\<close> by metis
    with ne \<open>par \<noteq> 0\<close> show "left (s' par) = (if left (s par) = x then y else left (s par))"
      "right (s' par) = (if left (s par) = x then right (s par) else y)"
      "parent (s' par) = parent (s par) \<and> color (s' par) = color (s par)"
      by (simp_all add: l r p k)
  qed
  ultimately show thesis
    using that [OF s' data] dist by (simp add: focus_def inorder_fill)
qed

lemma right_rotation:
  assumes "focus s rt x par C (Nd (Nd a y d b) x c e)"
  obtains rt' s' where "rb_right_rotation rt x s = Inr (rt', s')" "same_data s s'"
    and "focus s' rt' y par C (Nd a y d (Nd b x c e))"
proof -
  have ctx: "ctx_at s rt x par C" and t: "tree_at s par x (Nd (Nd a y d b) x c e)"
    and dist: "distinct (inorder (fill C (Nd (Nd a y d b) x c e)))"
    using assms by (simp_all add: focus_def)
  note d = distinct_hole [OF dist, unfolded distinct_Nd nodes_simps]
  have bp: "right (s y) \<noteq> 0 \<Longrightarrow> right (s y) \<in> nodes b"
    using t tree_at_ptr by auto
  have par: "par = 0 \<or> par \<in> ctx_nodes C"
    using ctx by (rule ctx_at_parent)
  have ne: "left (s x) = y" "y \<noteq> 0" "x \<noteq> y" "right (s y) \<noteq> x" "right (s y) \<noteq> y"
      "parent (s x) = par" "par \<noteq> x" "par \<noteq> y"
    using t d bp par by (auto simp:)
  obtain s' where s': "rb_right_rotation rt x s = Inr (if par = 0 then y else rt, s')"
    and l: "\<And>q. left (s' q) = (if q = x then right (s y) else if q = par \<and> par \<noteq> 0 \<and> left (s par) = x then y else left (s q))"
    and r: "\<And>q. right (s' q) = (if q = y then x else if q = par \<and> par \<noteq> 0 \<and> left (s par) \<noteq> x then y else right (s q))"
    and p: "\<And>q. parent (s' q) = (if q = x then y else if q = y then par else if q = right (s y) \<and> q \<noteq> 0 then x else parent (s q))"
    and k: "\<And>q. color (s' q) = color (s q)" and data: "same_data s s'"
    using right_rotation_fields [OF ne] by blast
  have "0 \<notin> nodes (Nd (Nd a y d b) x c e)"
    using t by (rule tree_at_nonzero)
  then have zero: "0 \<notin> nodes a" "0 \<notin> nodes b" "0 \<notin> nodes e" by auto
  have same: "agree A s s'" if "x \<notin> A" "y \<notin> A" "par \<notin> A" "right (s y) \<notin> A" for A
    unfolding agree_def
  proof
    fix q assume "q \<in> A"
    then have "q \<noteq> x" "q \<noteq> y" "q \<noteq> par" "q \<noteq> right (s y)"
      using that by auto
    then show "left (s' q) = left (s q) \<and> right (s' q) = right (s q) \<and> parent (s' q) = parent (s q) \<and>
        color (s' q) = color (s q)"
      by (simp add: l r p k)
  qed
  have dj: "nodes a \<inter> ctx_nodes C = {}" "nodes b \<inter> ctx_nodes C = {}" "nodes e \<inter> ctx_nodes C = {}"
      "nodes a \<inter> nodes b = {}" "nodes b \<inter> nodes e = {}" "x \<notin> ctx_nodes C" "y \<notin> ctx_nodes C"
    using d by auto
  have out: "par \<notin> nodes a" "par \<notin> nodes b" "par \<notin> nodes e" "right (s y) \<notin> nodes a" "right (s y) \<notin> nodes e"
      "right (s y) \<notin> ctx_nodes C" "x \<notin> ctx_nodes C" "y \<notin> ctx_nodes C" "0 \<notin> ctx_nodes C"
    using par bp zero dj ctx_at_nonzero [OF ctx] by (metis disjoint_iff)+
  have agree: "agree (nodes a) s s'" "agree (nodes e) s s'" "agree (nodes b - {right (s y)}) s s'"
      "agree (ctx_nodes C - {par}) s s'"
    using d out ne(1-5) by (auto intro!: same)
  have "tree_at s' x (right (s y)) b"
  proof (rule tree_at_reparent [of s y _ b])
    show "tree_at s y (right (s y)) b" "distinct (inorder b)"
      using t d by simp_all
    show "agree (nodes b - {right (s y)}) s s'" by (rule agree(3))
    assume "right (s y) \<noteq> 0"
    then have "right (s y) \<noteq> par"
      using bp out(2) by blast
    with \<open>right (s y) \<noteq> 0\<close> ne(4,5) show "left (s' (right (s y))) = left (s (right (s y))) \<and>
        right (s' (right (s y))) = right (s (right (s y))) \<and> color (s' (right (s y))) = color (s (right (s y))) \<and>
        parent (s' (right (s y))) = x"
      by (simp add: l r p k)
  qed
  moreover have "tree_at s' y (left (s y)) a" "tree_at s' x (right (s x)) e"
    using t tree_at_agree [OF _ agree(1)] tree_at_agree [OF _ agree(2)] by simp_all
  ultimately have "tree_at s' par y (Nd a y d (Nd b x c e))"
    using t ne by (simp add: l r p k)
  moreover have "ctx_at s' (if par = 0 then y else rt) y par C"
  proof (rule ctx_at_replace [OF ctx _ _ distinct_ctx [OF dist] agree(4)])
    show "x \<noteq> 0" "x \<notin> ctx_nodes C"
      using t out by simp_all
    assume "par \<noteq> 0"
    then have "par \<in> ctx_nodes C" using par by simp
    then have "par \<noteq> right (s y)" using out(6) \<open>par \<noteq> 0\<close> by metis
    with ne \<open>par \<noteq> 0\<close> show "left (s' par) = (if left (s par) = x then y else left (s par))"
      "right (s' par) = (if left (s par) = x then right (s par) else y)"
      "parent (s' par) = parent (s par) \<and> color (s' par) = color (s par)"
      by (simp_all add: l r p k)
  qed
  ultimately show thesis
    using that [OF s' data] dist by (simp add: focus_def inorder_fill)
qed

end
