(* ===== verification/Rbtree_Insert.thy ===== *)
theory Rbtree_Insert
  imports Rbtree_Shape
begin

text \<open>
  Insertion into the red-black tree, on the pointer structure: the rebalancing
  \<open>insert_violations\<close> ends and restores the red-black invariants without changing the in-order
  sequence, and \<open>insert_node\<close> and \<open>make_node\<close> add exactly one node at the place its size demands.
\<close>

section \<open>Recolouring\<close>

fun recolor :: "u32 \<Rightarrow> int \<Rightarrow> rtree \<Rightarrow> rtree" where
  "recolor q k Lf = Lf"
| "recolor q k (Nd l a c r) = Nd (recolor q k l) a (if a = q then k else c) (recolor q k r)"

lemma recolor_absent [simp]: "q \<notin> nodes t \<Longrightarrow> recolor q k t = t"
  by (induction t) auto

lemma inorder_recolor [simp]: "inorder (recolor q k t) = inorder t"
  by (induction t) auto

lemma nodes_recolor [simp]: "nodes (recolor q k t) = nodes t"
  by (simp add: nodes_def)

lemma set_inorder [simp]: "set (inorder t) = nodes t"
  by (simp add: nodes_def)

lemma tree_at_recolor: "tree_at s par p t \<Longrightarrow> tree_at (set_color q k s) par p (recolor q k t)"
  by (induction t arbitrary: par p) (auto simp: shape_simps)

lemma set_color_same: "color (s p) = k \<Longrightarrow> set_color p k s = s"
  by (auto simp: set_color_def)

lemma same_data_from [simp]:
  "same_data (set_color p c s) s' = same_data s s'" "same_data (set_parent p v s) s' = same_data s s'"
  "same_data (set_left p v s) s' = same_data s s'" "same_data (set_right p v s) s' = same_data s s'"
  by (simp_all add: same_data_def shape_simps)

lemma focus_recolor:
  assumes "focus s rt p par C t" and "q \<notin> ctx_nodes C"
  shows "focus (set_color q k s) rt p par C (recolor q k t)"
proof -
  have "agree (ctx_nodes C) s (set_color q k s)"
    using assms(2) by (auto simp: agree_def shape_simps)
  with assms(1) show ?thesis
    by (auto simp: focus_def inorder_fill tree_at_recolor intro: ctx_at_agree)
qed

section \<open>Moving the focus\<close>

lemma focus_LCtx:
  "focus s rt p par (LCtx a c r C) t \<longleftrightarrow>
     par = a \<and> left (s a) = p \<and> focus s rt a (parent (s a)) C (Nd t a c r)"
  by (auto simp: focus_def)

lemma focus_RCtx:
  "focus s rt p par (RCtx l a c C) t \<longleftrightarrow>
     par = a \<and> right (s a) = p \<and> focus s rt a (parent (s a)) C (Nd l a c t)"
  by (auto simp: focus_def)

lemma focus_Nd:
  assumes "focus s rt p par C (Nd l a c r)"
  shows "p = a" "a \<noteq> 0" "parent (s a) = par" "color (s a) = c" "a \<notin> ctx_nodes C" "a \<notin> nodes l" "a \<notin> nodes r"
    "nodes l \<inter> nodes r = {}" "nodes l \<inter> ctx_nodes C = {}" "nodes r \<inter> ctx_nodes C = {}"
    "tree_at s a (left (s a)) l" "tree_at s a (right (s a)) r"
    "distinct (inorder l)" "distinct (inorder r)"
  using assms distinct_hole [of C "Nd l a c r"] by (auto simp: focus_def)

lemma focus_left: "focus s rt a par C (Nd l a c r) \<Longrightarrow> focus s rt (left (s a)) a (LCtx a c r C) l"
  using focus_Nd(3) [of s rt a par C l a c r] by (auto simp: focus_LCtx)

lemma focus_right: "focus s rt a par C (Nd l a c r) \<Longrightarrow> focus s rt (right (s a)) a (RCtx l a c C) r"
  using focus_Nd(3) [of s rt a par C l a c r] by (auto simp: focus_RCtx)

lemma focus_here: "focus s rt p par C (Nd l a c r) \<Longrightarrow> focus s rt a par C (Nd l a c r)"
  using focus_Nd(1) by metis

lemma focus_par:
  "focus s rt p par C t \<Longrightarrow> focus s1 rt1 p1 par1 C t1 \<Longrightarrow> par1 = par"
  by (cases C) (auto simp: focus_def)

lemma focus_tree: "focus s rt p par C t \<Longrightarrow> tree_at s 0 rt (fill C t) \<and> distinct (inorder (fill C t))"
  by (auto simp: focus_def tree_at_fill)

lemma tree_at_other:
  "tree_at s par p t \<Longrightarrow> x \<notin> nodes t \<Longrightarrow> x \<noteq> 0 \<Longrightarrow> p \<noteq> x"
  using tree_at_ptr [of s par p t] by auto

section \<open>The four rotation cases\<close>

text \<open>Each lemma describes one shape of red node, red parent, black grandparent \<open>g\<close>.\<close>

lemma lift_LL:
  assumes "focus s rt g gpar C (Nd (Nd (Nd l x RED r) p RED sp) g BLACK u)"
  obtains rt' s' where "lift_outer rt x s = Inr (rt', s')" "same_data s s'"
    "focus s' rt' p gpar C (Nd (Nd l x RED r) p BLACK (Nd sp g RED u))"
proof -
  note g = focus_Nd [OF assms]
  let ?s = "set_color g RED (set_color p BLACK s)"
  have f: "focus ?s rt g gpar C (Nd (Nd (Nd l x RED r) p BLACK sp) g RED u)"
    using focus_recolor [OF focus_recolor [OF assms, of p BLACK], of g RED] g by auto
  have "parent (s x) = p" "parent (s p) = g" "left (s p) = x"
    using g by auto
  then have eq: "lift_outer rt x s = rb_right_rotation rt g ?s"
    by (simp add: lift_outer_def Let_def)
  show thesis
    by (rule right_rotation [OF f]) (rule that, simp_all add: eq)
qed

lemma lift_RR:
  assumes "focus s rt g gpar C (Nd u g BLACK (Nd sp p RED (Nd l x RED r)))"
  obtains rt' s' where "lift_outer rt x s = Inr (rt', s')" "same_data s s'"
    "focus s' rt' p gpar C (Nd (Nd u g RED sp) p BLACK (Nd l x RED r))"
proof -
  note g = focus_Nd [OF assms]
  let ?s = "set_color g RED (set_color p BLACK s)"
  have f: "focus ?s rt g gpar C (Nd u g RED (Nd sp p BLACK (Nd l x RED r)))"
    using focus_recolor [OF focus_recolor [OF assms, of p BLACK], of g RED] g by auto
  have px: "parent (s x) = p" "parent (s p) = g"
    using g by auto
  have "left (s p) \<noteq> x"
    using g tree_at_other [of s p "left (s p)" sp x] by auto
  then have eq: "lift_outer rt x s = rb_left_rotation rt g ?s"
    using px by (simp add: lift_outer_def Let_def)
  show thesis
    by (rule left_rotation [OF f]) (rule that, simp_all add: eq)
qed

lemma straighten_outer:
  assumes "parent (s x) = p" "parent (s p) = g"
    and "left (s g) = p \<and> right (s p) \<noteq> x \<or> left (s g) \<noteq> p \<and> left (s p) \<noteq> x"
  shows "straighten rt x s = Inr (x, rt, s)"
  using assms by (auto simp: straighten_def Let_def)

lemma rotate_LL:
  assumes f: "focus s rt g gpar C (Nd (Nd (Nd l x RED r) p RED sp) g BLACK u)"
  obtains rt' s' where "rotate_insert rt x s = Inr (rt', s')" "same_data s s'"
    "focus s' rt' p gpar C (Nd (Nd l x RED r) p BLACK (Nd sp g RED u))"
proof -
  note g = focus_Nd [OF f]
  have "right (s p) \<noteq> x"
    using g tree_at_other [of s p "right (s p)" sp x] by auto
  then have "straighten rt x s = Inr (x, rt, s)"
    using g by (intro straighten_outer [of s x p g]) auto
  then have eq: "rotate_insert rt x s = lift_outer rt x s"
    by (simp add: rotate_insert_def)
  show thesis
    by (rule lift_LL [OF f]) (rule that, simp_all add: eq)
qed

lemma rotate_RR:
  assumes f: "focus s rt g gpar C (Nd u g BLACK (Nd sp p RED (Nd l x RED r)))"
  obtains rt' s' where "rotate_insert rt x s = Inr (rt', s')" "same_data s s'"
    "focus s' rt' p gpar C (Nd (Nd u g RED sp) p BLACK (Nd l x RED r))"
proof -
  note g = focus_Nd [OF f]
  have "left (s p) \<noteq> x" "left (s g) \<noteq> p"
    using g tree_at_other [of s p "left (s p)" sp x] tree_at_other [of s g "left (s g)" u p] by auto
  then have "straighten rt x s = Inr (x, rt, s)"
    using g by (intro straighten_outer [of s x p g]) auto
  then have eq: "rotate_insert rt x s = lift_outer rt x s"
    by (simp add: rotate_insert_def)
  show thesis
    by (rule lift_RR [OF f]) (rule that, simp_all add: eq)
qed

lemma rotate_LR:
  assumes f: "focus s rt g gpar C (Nd (Nd sp p RED (Nd l x RED r)) g BLACK u)"
  obtains rt' s' where "rotate_insert rt x s = Inr (rt', s')" "same_data s s'"
    "focus s' rt' x gpar C (Nd (Nd sp p RED l) x BLACK (Nd r g RED u))"
proof -
  note g = focus_Nd [OF f]
  have at: "parent (s x) = p" "parent (s p) = g" "left (s g) = p" "right (s p) = x"
    using g by auto
  have "focus s rt p g (LCtx g BLACK u C) (Nd sp p RED (Nd l x RED r))"
    using focus_left [OF focus_here [OF f]] at by simp
  then obtain rt1 s1 where s1: "rb_left_rotation rt p s = Inr (rt1, s1)" "same_data s s1"
      "focus s1 rt1 x g (LCtx g BLACK u C) (Nd (Nd sp p RED l) x RED r)"
    using left_rotation by blast
  have "left (s1 x) = p"
    using focus_Nd(11) [OF s1(3)] by simp
  moreover have f1: "focus s1 rt1 g gpar C (Nd (Nd (Nd sp p RED l) x RED r) g BLACK u)"
    using s1(3) focus_par [OF f] unfolding focus_LCtx by blast
  ultimately have "straighten rt x s = Inr (p, rt1, s1)"
    using at s1(1) by (simp add: straighten_def Let_def)
  moreover obtain rt' s' where "lift_outer rt1 p s1 = Inr (rt', s')" "same_data s1 s'"
      "focus s' rt' x gpar C (Nd (Nd sp p RED l) x BLACK (Nd r g RED u))"
    using lift_LL [OF f1] by blast
  ultimately show thesis
    using that s1(2) same_data_trans by (simp add: rotate_insert_def)
qed

lemma rotate_RL:
  assumes f: "focus s rt g gpar C (Nd u g BLACK (Nd (Nd l x RED r) p RED sp))"
  obtains rt' s' where "rotate_insert rt x s = Inr (rt', s')" "same_data s s'"
    "focus s' rt' x gpar C (Nd (Nd u g RED l) x BLACK (Nd r p RED sp))"
proof -
  note g = focus_Nd [OF f]
  have at: "parent (s x) = p" "parent (s p) = g" "right (s g) = p" "left (s p) = x"
    using g by auto
  have "left (s g) \<noteq> p"
    using g tree_at_other [of s g "left (s g)" u p] by auto
  have "focus s rt p g (RCtx u g BLACK C) (Nd (Nd l x RED r) p RED sp)"
    using focus_right [OF focus_here [OF f]] at by simp
  then obtain rt1 s1 where s1: "rb_right_rotation rt p s = Inr (rt1, s1)" "same_data s s1"
      "focus s1 rt1 x g (RCtx u g BLACK C) (Nd l x RED (Nd r p RED sp))"
    using right_rotation by blast
  have "right (s1 x) = p"
    using focus_Nd(12) [OF s1(3)] by simp
  moreover have f1: "focus s1 rt1 g gpar C (Nd u g BLACK (Nd l x RED (Nd r p RED sp)))"
    using s1(3) focus_par [OF f] unfolding focus_RCtx by blast
  ultimately have "straighten rt x s = Inr (p, rt1, s1)"
    using at s1(1) \<open>left (s g) \<noteq> p\<close> by (simp add: straighten_def Let_def)
  moreover obtain rt' s' where "lift_outer rt1 p s1 = Inr (rt', s')" "same_data s1 s'"
      "focus s' rt' x gpar C (Nd (Nd u g RED l) x BLACK (Nd r p RED sp))"
    using lift_RR [OF f1] by blast
  ultimately show thesis
    using that s1(2) same_data_trans by (simp add: rotate_insert_def)
qed

section \<open>Rebalancing after an insertion\<close>

text \<open>
  What the rebalancing promises: it returns, the structure is a red-black tree with the same
  in-order sequence, and no size, base or flag word has changed.
\<close>

definition rebalanced :: "store \<Rightarrow> u32 list \<Rightarrow> (u32 \<times> store) outcome \<Rightarrow> bool" where
  "rebalanced s xs out \<longleftrightarrow> (\<exists>rt' s' T. out = Some (Inr (rt', s')) \<and> tree_at s' 0 rt' T \<and> rbt T \<and>
     inorder T = xs \<and> same_data s s')"

lemma rebalancedI:
  "out = Some (Inr (rt', s')) \<Longrightarrow> tree_at s' 0 rt' T \<Longrightarrow> rbt T \<Longrightarrow> inorder T = xs \<Longrightarrow> same_data s s' \<Longrightarrow>
   rebalanced s xs out"
  by (auto simp: rebalanced_def)

lemma blacken_noop:
  assumes "tree_at s 0 rt T" "rbt T" "T \<noteq> Lf"
  shows "blacken_root rt s = Some (Inr (rt, s))"
  using assms by (cases T) (auto simp: blacken_root_def rbt_def set_color_same)

lemma rebalanced_blacken:
  assumes "rebalanced s xs out" "xs \<noteq> []"
  shows "rebalanced s xs (bind_out out (\<lambda>(rt', s'). blacken_root rt' s'))"
proof -
  obtain rt' s' T where *: "out = Some (Inr (rt', s'))" "tree_at s' 0 rt' T" "rbt T"
      "inorder T = xs" "same_data s s'"
    using assms(1) by (auto simp: rebalanced_def)
  then have "blacken_root rt' s' = Some (Inr (rt', s'))"
    using assms(2) by (intro blacken_noop) auto
  with * show ?thesis
    by (intro rebalancedI [of _ rt' s' T]) simp_all
qed

lemma col_pointer:
  "tree_at s par q u \<Longrightarrow> (if q \<noteq> 0 then color (s q) else BLACK) = col u"
  by (cases u) auto

lemma insert_violations_parent:
  assumes "x \<noteq> 0" "parent (s x) = p" "p \<noteq> 0" "color (s p) = RED" "parent (s p) = g" "g \<noteq> 0"
    and "un = (if left (s g) = p then right (s g) else left (s g))"
    and "(if un \<noteq> 0 then color (s un) else BLACK) = k"
  shows "insert_violations rt x s =
    (if k = RED
     then bind_out (insert_violations rt g (set_color g RED (set_color un BLACK (set_color p BLACK s))))
       (\<lambda>(rt', s'). blacken_root rt' s')
     else bind_out (Some (rotate_insert rt x s)) (\<lambda>(rt', s'). blacken_root rt' s'))"
  using assms by (subst insert_violations.simps) (simp add: Let_def split del: if_split cong: if_cong)

lemma recolor_ptr:
  assumes "tree_at s par q u" "col u = RED"
  shows "q \<noteq> 0" "q \<in> nodes u"
  using assms by (cases u; simp)+

text \<open>The induction hypothesis: the code repairs the tree when the violation is at \<open>g\<close>.\<close>

definition climbs :: "u32 \<Rightarrow> u32 \<Rightarrow> u32 \<Rightarrow> ctx \<Rightarrow> bool" where
  "climbs rt g gpar C \<longleftrightarrow> (\<forall>s1 l' r'. focus s1 rt g gpar C (Nd l' g RED r') \<longrightarrow> ctx_ok C (bheight l') \<longrightarrow>
     invc (Nd l' g RED r') \<longrightarrow> invh (Nd l' g RED r') \<longrightarrow>
     rebalanced s1 (inorder (fill C (Nd l' g RED r'))) (insert_violations rt g s1))"

text \<open>One step below a black grandparent \<open>g\<close>: recolour and go up, or rotate and stop.\<close>

lemma violations_step:
  assumes f: "focus s rt g gpar C (Nd tL g BLACK tR)"
    and ptr: "x \<noteq> 0" "parent (s x) = p" "p \<noteq> 0" "color (s p) = RED" "parent (s p) = g"
    and side: "left (s g) = p \<and> p \<notin> nodes tR \<and> u = tR \<or> left (s g) \<noteq> p \<and> p \<notin> nodes tL \<and> u = tL"
    and p_out: "p \<notin> ctx_nodes C" "p \<noteq> g"
    and IH: "climbs rt g gpar C"
    and up: "\<And>q. tree_at s g q u \<Longrightarrow> col u = RED \<Longrightarrow>
      ctx_ok C (bheight (recolor q BLACK (recolor p BLACK tL))) \<and>
      invc (Nd (recolor q BLACK (recolor p BLACK tL)) g RED (recolor q BLACK (recolor p BLACK tR))) \<and>
      invh (Nd (recolor q BLACK (recolor p BLACK tL)) g RED (recolor q BLACK (recolor p BLACK tR)))"
    and rot: "col u \<noteq> RED \<Longrightarrow> \<exists>rt' s' q T. rotate_insert rt x s = Inr (rt', s') \<and> same_data s s' \<and>
      focus s' rt' q gpar C T \<and> rbt (fill C T) \<and> inorder T = inorder (Nd tL g BLACK tR)"
  shows "rebalanced s (inorder (fill C (Nd tL g BLACK tR))) (insert_violations rt x s)"
proof -
  note g = focus_Nd [OF f]
  define un where "un = (if left (s g) = p then right (s g) else left (s g))"
  have un: "tree_at s g un u"
    using side g by (auto simp: un_def)
  have eq: "insert_violations rt x s =
    (if col u = RED
     then bind_out (insert_violations rt g (set_color g RED (set_color un BLACK (set_color p BLACK s))))
       (\<lambda>(rt', s'). blacken_root rt' s')
     else bind_out (Some (rotate_insert rt x s)) (\<lambda>(rt', s'). blacken_root rt' s'))"
    by (rule insert_violations_parent [OF ptr g(2) un_def col_pointer [OF un]])
  have ne: "inorder (fill C (Nd tL g BLACK tR)) \<noteq> []"
    by (simp add: inorder_fill)
  show ?thesis
  proof (cases "col u = RED")
    case True
    define s1 where "s1 = set_color g RED (set_color un BLACK (set_color p BLACK s))"
    let ?l = "recolor un BLACK (recolor p BLACK tL)" and ?r = "recolor un BLACK (recolor p BLACK tR)"
    have "un \<in> nodes u"
      using recolor_ptr [OF un True] by simp
    then have o: "un \<notin> ctx_nodes C" "un \<noteq> g"
      using side g by auto
    have "focus s1 rt g gpar C (Nd ?l g RED ?r)"
      using focus_recolor [OF focus_recolor [OF focus_recolor [OF f p_out(1)] o(1)] g(5), of RED BLACK BLACK] g p_out o
      by (simp add: s1_def)
    then have "rebalanced s1 (inorder (fill C (Nd ?l g RED ?r))) (insert_violations rt g s1)"
      using up [OF un True] IH unfolding climbs_def by blast
    then have "rebalanced s (inorder (fill C (Nd tL g BLACK tR))) (insert_violations rt g s1)"
      by (simp add: rebalanced_def s1_def inorder_fill)
    from rebalanced_blacken [OF this ne] True show ?thesis
      by (simp add: eq s1_def)
  next
    case False
    obtain rt' s' q T where T: "rotate_insert rt x s = Inr (rt', s')" "same_data s s'"
        "focus s' rt' q gpar C T" "rbt (fill C T)" "inorder T = inorder (Nd tL g BLACK tR)"
      using rot [OF False] by blast
    have "rebalanced s (inorder (fill C (Nd tL g BLACK tR))) (Some (rotate_insert rt x s))"
      using T focus_tree [OF T(3)] by (intro rebalancedI [of _ rt' s' "fill C T"]) (simp_all add: inorder_fill)
    from rebalanced_blacken [OF this ne] False show ?thesis
      by (simp add: eq)
  qed
qed

text \<open>The colours and heights around a red node with a red parent and a black grandparent.\<close>

lemma rotated_ok:
  assumes "ctx_ok C (Suc n)" "bheight a = n" "bheight b = n" "bheight c = n" "bheight d = n"
    and "invc a" "invc b" "invc c" "invc d" "invh a" "invh b" "invh c" "invh d"
    and "col a = BLACK" "col b = BLACK" "col c = BLACK" "col d = BLACK"
  shows "rbt (fill C (Nd (Nd a x RED b) y BLACK (Nd c z RED d)))"
  using assms by (simp add: rbt_fill)

lemma col_cases: "invc t \<Longrightarrow> col t \<noteq> RED \<Longrightarrow> col t = BLACK"
  by (cases t) auto

lemma rotatedI:
  assumes "rotate_insert rt x s = Inr (rt', s')" "same_data s s'" "focus s' rt' q gpar C T"
    "rbt (fill C T)" "inorder T = xs"
  shows "\<exists>rt' s' q T. rotate_insert rt x s = Inr (rt', s') \<and> same_data s s' \<and>
    focus s' rt' q gpar C T \<and> rbt (fill C T) \<and> inorder T = xs"
  using assms by blast

text \<open>The balanced subtrees \<open>l\<close>, \<open>r\<close>, \<open>sp\<close> hanging below the red pair, and the uncle.\<close>

definition red_pair :: "ctx \<Rightarrow> rtree \<Rightarrow> rtree \<Rightarrow> rtree \<Rightarrow> rtree \<Rightarrow> bool" where
  "red_pair C l r sp u \<longleftrightarrow> (\<exists>n. ctx_ok C (Suc n) \<and> bheight l = n \<and> bheight r = n \<and> bheight sp = n \<and> bheight u = n \<and>
     invc l \<and> invc r \<and> invc sp \<and> invc u \<and> invh l \<and> invh r \<and> invh sp \<and> invh u \<and>
     col l = BLACK \<and> col r = BLACK \<and> col sp = BLACK)"

lemma red_pairD:
  assumes "red_pair C l r sp u"
  shows "bheight l = bheight u" "bheight r = bheight u" "bheight sp = bheight u" "ctx_ok C (Suc (bheight u))"
    "invc l" "invc r" "invc sp" "invc u" "invh l" "invh r" "invh sp" "invh u"
    "col l = BLACK" "col r = BLACK" "col sp = BLACK"
  using assms by (auto simp: red_pair_def)

lemma red_pair_black:
  assumes "red_pair C l r sp u" "col u \<noteq> RED"
  shows "rbt (fill C (Nd (Nd l x RED r) p BLACK (Nd sp g RED u)))"
    "rbt (fill C (Nd (Nd sp p RED l) x BLACK (Nd r g RED u)))"
    "rbt (fill C (Nd (Nd u g RED sp) p BLACK (Nd l x RED r)))"
    "rbt (fill C (Nd (Nd u g RED l) x BLACK (Nd r p RED sp)))"
  using assms col_cases [of u] by (auto simp: red_pair_def rbt_fill)

lemma red_uncle_node:
  assumes "tree_at s g q u" "col u = RED"
  obtains ul ur where "u = Nd ul q RED ur"
  using assms by (cases u) auto

lemma violations_LL:
  assumes f: "focus s rt g gpar C (Nd (Nd (Nd l x RED r) p RED sp) g BLACK u)"
    and pair: "red_pair C l r sp u" and IH: "climbs rt g gpar C"
  shows "rebalanced s (inorder (fill C (Nd (Nd (Nd l x RED r) p RED sp) g BLACK u))) (insert_violations rt x s)"
proof (rule violations_step [OF f, where p = p and u = u])
  note g = focus_Nd [OF f]
  show "x \<noteq> 0" "parent (s x) = p" "p \<noteq> 0" "color (s p) = RED" "parent (s p) = g" "p \<notin> ctx_nodes C" "p \<noteq> g"
    using g by auto
  show "left (s g) = p \<and> p \<notin> nodes u \<and> u = u \<or> left (s g) \<noteq> p \<and> p \<notin> nodes (Nd (Nd l x RED r) p RED sp) \<and> u = (Nd (Nd l x RED r) p RED sp)"
    using g by auto
next
  note g = focus_Nd [OF f]
  have out: "p \<noteq> x" "p \<notin> nodes l" "p \<notin> nodes r" "p \<notin> nodes sp" "p \<notin> nodes u" "x \<notin> nodes u"
      "nodes l \<inter> nodes u = {}" "nodes r \<inter> nodes u = {}" "nodes sp \<inter> nodes u = {}"
    using g(5-8,13,14) by (auto simp: distinct_Nd simp del: inorder.simps)
  fix q assume "tree_at s g q u" "col u = RED"
  then obtain ul ur where u: "u = Nd ul q RED ur" by (rule red_uncle_node)
  have "q \<noteq> p" "q \<noteq> x" "q \<notin> nodes l" "q \<notin> nodes r" "q \<notin> nodes sp" "p \<notin> nodes ul" "p \<notin> nodes ur"
      "q \<notin> nodes ul" "q \<notin> nodes ur"
    using out g(13,14) by (auto simp: u distinct_Nd simp del: inorder.simps)
  then show "ctx_ok C (bheight (recolor q BLACK (recolor p BLACK (Nd (Nd l x RED r) p RED sp)))) \<and>
      invc (Nd (recolor q BLACK (recolor p BLACK (Nd (Nd l x RED r) p RED sp))) g RED (recolor q BLACK (recolor p BLACK u))) \<and>
      invh (Nd (recolor q BLACK (recolor p BLACK (Nd (Nd l x RED r) p RED sp))) g RED (recolor q BLACK (recolor p BLACK u)))"
    using out(1-4) red_pairD [OF pair] by (simp add: u)
next
  assume "col u \<noteq> RED"
  note rb = red_pair_black(1) [OF pair this]
  show "\<exists>rt' s' q T. rotate_insert rt x s = Inr (rt', s') \<and> same_data s s' \<and> focus s' rt' q gpar C T \<and>
      rbt (fill C T) \<and> inorder T = inorder (Nd (Nd (Nd l x RED r) p RED sp) g BLACK u)"
    by (rule rotate_LL [OF f]) (rule rotatedI [OF _ _ _ rb], assumption+, simp)
qed (rule IH)

lemma violations_LR:
  assumes f: "focus s rt g gpar C (Nd (Nd sp p RED (Nd l x RED r)) g BLACK u)"
    and pair: "red_pair C l r sp u" and IH: "climbs rt g gpar C"
  shows "rebalanced s (inorder (fill C (Nd (Nd sp p RED (Nd l x RED r)) g BLACK u))) (insert_violations rt x s)"
proof (rule violations_step [OF f, where p = p and u = u])
  note g = focus_Nd [OF f]
  show "x \<noteq> 0" "parent (s x) = p" "p \<noteq> 0" "color (s p) = RED" "parent (s p) = g" "p \<notin> ctx_nodes C" "p \<noteq> g"
    using g by auto
  show "left (s g) = p \<and> p \<notin> nodes u \<and> u = u \<or> left (s g) \<noteq> p \<and> p \<notin> nodes (Nd sp p RED (Nd l x RED r)) \<and> u = (Nd sp p RED (Nd l x RED r))"
    using g by auto
next
  note g = focus_Nd [OF f]
  have out: "p \<noteq> x" "p \<notin> nodes l" "p \<notin> nodes r" "p \<notin> nodes sp" "p \<notin> nodes u" "x \<notin> nodes u"
      "nodes l \<inter> nodes u = {}" "nodes r \<inter> nodes u = {}" "nodes sp \<inter> nodes u = {}"
    using g(5-8,13,14) by (auto simp: distinct_Nd simp del: inorder.simps)
  fix q assume "tree_at s g q u" "col u = RED"
  then obtain ul ur where u: "u = Nd ul q RED ur" by (rule red_uncle_node)
  have "q \<noteq> p" "q \<noteq> x" "q \<notin> nodes l" "q \<notin> nodes r" "q \<notin> nodes sp" "p \<notin> nodes ul" "p \<notin> nodes ur"
      "q \<notin> nodes ul" "q \<notin> nodes ur"
    using out g(13,14) by (auto simp: u distinct_Nd simp del: inorder.simps)
  then show "ctx_ok C (bheight (recolor q BLACK (recolor p BLACK (Nd sp p RED (Nd l x RED r))))) \<and>
      invc (Nd (recolor q BLACK (recolor p BLACK (Nd sp p RED (Nd l x RED r)))) g RED (recolor q BLACK (recolor p BLACK u))) \<and>
      invh (Nd (recolor q BLACK (recolor p BLACK (Nd sp p RED (Nd l x RED r)))) g RED (recolor q BLACK (recolor p BLACK u)))"
    using out(1-4) red_pairD [OF pair] by (simp add: u)
next
  assume "col u \<noteq> RED"
  note rb = red_pair_black(2) [OF pair this]
  show "\<exists>rt' s' q T. rotate_insert rt x s = Inr (rt', s') \<and> same_data s s' \<and> focus s' rt' q gpar C T \<and>
      rbt (fill C T) \<and> inorder T = inorder (Nd (Nd sp p RED (Nd l x RED r)) g BLACK u)"
    by (rule rotate_LR [OF f]) (rule rotatedI [OF _ _ _ rb], assumption+, simp)
qed (rule IH)

lemma violations_RR:
  assumes f: "focus s rt g gpar C (Nd u g BLACK (Nd sp p RED (Nd l x RED r)))"
    and pair: "red_pair C l r sp u" and IH: "climbs rt g gpar C"
  shows "rebalanced s (inorder (fill C (Nd u g BLACK (Nd sp p RED (Nd l x RED r))))) (insert_violations rt x s)"
proof (rule violations_step [OF f, where p = p and u = u])
  note g = focus_Nd [OF f]
  show "x \<noteq> 0" "parent (s x) = p" "p \<noteq> 0" "color (s p) = RED" "parent (s p) = g" "p \<notin> ctx_nodes C" "p \<noteq> g"
    using g by auto
  show "left (s g) = p \<and> p \<notin> nodes (Nd sp p RED (Nd l x RED r)) \<and> u = (Nd sp p RED (Nd l x RED r)) \<or> left (s g) \<noteq> p \<and> p \<notin> nodes u \<and> u = u"
    using g tree_at_other [of s g "left (s g)" u p] by auto
next
  note g = focus_Nd [OF f]
  have out: "p \<noteq> x" "p \<notin> nodes l" "p \<notin> nodes r" "p \<notin> nodes sp" "p \<notin> nodes u" "x \<notin> nodes u"
      "nodes l \<inter> nodes u = {}" "nodes r \<inter> nodes u = {}" "nodes sp \<inter> nodes u = {}"
    using g(5-8,13,14) by (auto simp: distinct_Nd simp del: inorder.simps)
  fix q assume "tree_at s g q u" "col u = RED"
  then obtain ul ur where u: "u = Nd ul q RED ur" by (rule red_uncle_node)
  have "q \<noteq> p" "q \<noteq> x" "q \<notin> nodes l" "q \<notin> nodes r" "q \<notin> nodes sp" "p \<notin> nodes ul" "p \<notin> nodes ur"
      "q \<notin> nodes ul" "q \<notin> nodes ur"
    using out g(13,14) by (auto simp: u distinct_Nd simp del: inorder.simps)
  then show "ctx_ok C (bheight (recolor q BLACK (recolor p BLACK u))) \<and>
      invc (Nd (recolor q BLACK (recolor p BLACK u)) g RED (recolor q BLACK (recolor p BLACK (Nd sp p RED (Nd l x RED r))))) \<and>
      invh (Nd (recolor q BLACK (recolor p BLACK u)) g RED (recolor q BLACK (recolor p BLACK (Nd sp p RED (Nd l x RED r)))))"
    using out(1-4) red_pairD [OF pair] by (simp add: u)
next
  assume "col u \<noteq> RED"
  note rb = red_pair_black(3) [OF pair this]
  show "\<exists>rt' s' q T. rotate_insert rt x s = Inr (rt', s') \<and> same_data s s' \<and> focus s' rt' q gpar C T \<and>
      rbt (fill C T) \<and> inorder T = inorder (Nd u g BLACK (Nd sp p RED (Nd l x RED r)))"
    by (rule rotate_RR [OF f]) (rule rotatedI [OF _ _ _ rb], assumption+, simp)
qed (rule IH)

lemma violations_RL:
  assumes f: "focus s rt g gpar C (Nd u g BLACK (Nd (Nd l x RED r) p RED sp))"
    and pair: "red_pair C l r sp u" and IH: "climbs rt g gpar C"
  shows "rebalanced s (inorder (fill C (Nd u g BLACK (Nd (Nd l x RED r) p RED sp)))) (insert_violations rt x s)"
proof (rule violations_step [OF f, where p = p and u = u])
  note g = focus_Nd [OF f]
  show "x \<noteq> 0" "parent (s x) = p" "p \<noteq> 0" "color (s p) = RED" "parent (s p) = g" "p \<notin> ctx_nodes C" "p \<noteq> g"
    using g by auto
  show "left (s g) = p \<and> p \<notin> nodes (Nd (Nd l x RED r) p RED sp) \<and> u = (Nd (Nd l x RED r) p RED sp) \<or> left (s g) \<noteq> p \<and> p \<notin> nodes u \<and> u = u"
    using g tree_at_other [of s g "left (s g)" u p] by auto
next
  note g = focus_Nd [OF f]
  have out: "p \<noteq> x" "p \<notin> nodes l" "p \<notin> nodes r" "p \<notin> nodes sp" "p \<notin> nodes u" "x \<notin> nodes u"
      "nodes l \<inter> nodes u = {}" "nodes r \<inter> nodes u = {}" "nodes sp \<inter> nodes u = {}"
    using g(5-8,13,14) by (auto simp: distinct_Nd simp del: inorder.simps)
  fix q assume "tree_at s g q u" "col u = RED"
  then obtain ul ur where u: "u = Nd ul q RED ur" by (rule red_uncle_node)
  have "q \<noteq> p" "q \<noteq> x" "q \<notin> nodes l" "q \<notin> nodes r" "q \<notin> nodes sp" "p \<notin> nodes ul" "p \<notin> nodes ur"
      "q \<notin> nodes ul" "q \<notin> nodes ur"
    using out g(13,14) by (auto simp: u distinct_Nd simp del: inorder.simps)
  then show "ctx_ok C (bheight (recolor q BLACK (recolor p BLACK u))) \<and>
      invc (Nd (recolor q BLACK (recolor p BLACK u)) g RED (recolor q BLACK (recolor p BLACK (Nd (Nd l x RED r) p RED sp)))) \<and>
      invh (Nd (recolor q BLACK (recolor p BLACK u)) g RED (recolor q BLACK (recolor p BLACK (Nd (Nd l x RED r) p RED sp))))"
    using out(1-4) red_pairD [OF pair] by (simp add: u)
next
  assume "col u \<noteq> RED"
  note rb = red_pair_black(4) [OF pair this]
  show "\<exists>rt' s' q T. rotate_insert rt x s = Inr (rt', s') \<and> same_data s s' \<and> focus s' rt' q gpar C T \<and>
      rbt (fill C T) \<and> inorder T = inorder (Nd u g BLACK (Nd (Nd l x RED r) p RED sp))"
    by (rule rotate_RL [OF f]) (rule rotatedI [OF _ _ _ rb], assumption+, simp)
qed (rule IH)

lemma insert_violations_ok:
  assumes "focus s rt x par C (Nd l x RED r)" "ctx_ok C (bheight l)"
    and "invc (Nd l x RED r)" "invh (Nd l x RED r)"
  shows "rebalanced s (inorder (fill C (Nd l x RED r))) (insert_violations rt x s)"
  using assms
proof (induction "size C" arbitrary: C s x par l r rule: less_induct)
  case less
  note f = less.prems(1) and ok = less.prems(2) and ic = less.prems(3) and ih = less.prems(4)
  note x = focus_Nd [OF f]
  have climbs: "climbs rt g gpar C2" if "size C2 < size C" for g gpar C2
    unfolding climbs_def using less.hyps [OF that] by blast
  have stop: ?case if "color (s par) = BLACK" "ctx_black C" "par \<noteq> 0"
  proof (rule rebalancedI [of _ rt s "fill C (Nd l x RED r)"])
    show "insert_violations rt x s = Some (Inr (rt, s))"
      using that x by (subst insert_violations.simps) simp
    show "rbt (fill C (Nd l x RED r))"
      using that ok ic ih by (simp add: rbt_fill)
  qed (use focus_tree [OF f] in simp_all)
  consider "C = Top" | p pc sp C1 where "C = LCtx p pc sp C1" "pc = BLACK"
    | p sp g u C2 where "C = LCtx p RED sp (LCtx g BLACK u C2)"
    | p sp g u C2 where "C = LCtx p RED sp (RCtx u g BLACK C2)"
    | p pc sp C1 where "C = RCtx sp p pc C1" "pc = BLACK"
    | p sp g u C2 where "C = RCtx sp p RED (LCtx g BLACK u C2)"
    | p sp g u C2 where "C = RCtx sp p RED (RCtx u g BLACK C2)"
    using ok by (cases C rule: ctx.exhaust; cases "case C of LCtx p c r D \<Rightarrow> D | RCtx l p c D \<Rightarrow> D | Top \<Rightarrow> Top") auto
  then show ?case
  proof cases
    case 1
    have "insert_violations rt x s = Some (Inr (rt, set_color x BLACK s))"
      using f x 1 by (subst insert_violations.simps) (simp add: focus_def)
    moreover have "focus (set_color x BLACK s) rt x par C (Nd l x BLACK r)"
      using focus_recolor [OF f x(5), of BLACK] x by simp
    ultimately show ?thesis
      using ic ih 1 focus_tree
      by (intro rebalancedI [of _ rt "set_color x BLACK s" "Nd l x BLACK r"]) (force simp: rbt_def)+
  next
    case 2
    then show ?thesis using stop f by (simp add: focus_def)
  next
    case 3
    then have "focus s rt g (parent (s g)) C2 (Nd (Nd (Nd l x RED r) p RED sp) g BLACK u)"
      using f by (auto simp: focus_LCtx)
    moreover have "red_pair C2 l r sp u"
      using 3 ok ic ih by (auto simp: red_pair_def)
    ultimately show ?thesis
      using violations_LL climbs 3 by (fastforce simp: inorder_fill)
  next
    case 4
    then have "focus s rt g (parent (s g)) C2 (Nd u g BLACK (Nd (Nd l x RED r) p RED sp))"
      using f by (auto simp: focus_LCtx focus_RCtx)
    moreover have "red_pair C2 l r sp u"
      using 4 ok ic ih by (auto simp: red_pair_def)
    ultimately show ?thesis
      using violations_RL climbs 4 by (fastforce simp: inorder_fill)
  next
    case 5
    then show ?thesis using stop f by (simp add: focus_def)
  next
    case 6
    then have "focus s rt g (parent (s g)) C2 (Nd (Nd sp p RED (Nd l x RED r)) g BLACK u)"
      using f by (auto simp: focus_LCtx focus_RCtx)
    moreover have "red_pair C2 l r sp u"
      using 6 ok ic ih by (auto simp: red_pair_def)
    ultimately show ?thesis
      using violations_LR climbs 6 by (fastforce simp: inorder_fill)
  next
    case 7
    then have "focus s rt g (parent (s g)) C2 (Nd u g BLACK (Nd sp p RED (Nd l x RED r)))"
      using f by (auto simp: focus_LCtx focus_RCtx)
    moreover have "red_pair C2 l r sp u"
      using 7 ok ic ih by (auto simp: red_pair_def)
    ultimately show ?thesis
      using violations_RR climbs 7 by (fastforce simp: inorder_fill)
  qed
qed

end
