(* ===== verification/Rbtree_Spec.thy ===== *)
theory Rbtree_Spec
  imports Rbtree_Insert
begin

text \<open>
  What the region tree promises its client, the page allocator of \<open>vmm.c\<close>: insertion keeps the
  red-black and search-tree invariants and adds exactly one node, the two searches find an exact
  and a best fit, and the slots of the node store are handed out in order.
\<close>

section \<open>Well-formed region trees\<close>

definition sizes :: "store \<Rightarrow> u32 list \<Rightarrow> u32 list" where
  "sizes s xs = map (\<lambda>a. rb_size (s a)) xs"

definition region_tree :: "store \<Rightarrow> u32 \<Rightarrow> rtree \<Rightarrow> bool" where
  "region_tree s rt T \<longleftrightarrow> tree_at s 0 rt T \<and> distinct (inorder T) \<and> rbt T \<and> sorted (sizes s (inorder T))"

lemma sizes_simps [simp]:
  "sizes s [] = []" "sizes s (a # xs) = rb_size (s a) # sizes s xs"
  "sizes s (xs @ ys) = sizes s xs @ sizes s ys" "set (sizes s xs) = (\<lambda>a. rb_size (s a)) ` set xs"
  by (auto simp: sizes_def)

lemma sizes_same_data: "same_data s s' \<Longrightarrow> sizes s' xs = sizes s xs"
  by (simp add: sizes_def same_data_size)

lemma sizes_fill: "sizes s (inorder (fill C t)) = sizes s (pre_of C) @ sizes s (inorder t) @ sizes s (post_of C)"
  by (simp add: inorder_fill)

section \<open>Searching\<close>

lemma find_node_loop_ok:
  assumes "tree_at s par p t" "sorted (sizes s (inorder t))"
  shows "\<exists>r. find_node_loop p siz s = Some r \<and> (r = 0 \<longrightarrow> siz \<notin> set (sizes s (inorder t))) \<and>
    (r \<noteq> 0 \<longrightarrow> r \<in> nodes t \<and> rb_size (s r) = siz)"
  using assms
proof (induction t arbitrary: par p)
  case Lf
  then show ?case by (subst find_node_loop.simps) simp
next
  case (Nd l a c r)
  have l: "\<forall>b\<in>nodes l. rb_size (s b) \<le> rb_size (s a)" and r: "\<forall>b\<in>nodes r. rb_size (s a) \<le> rb_size (s b)"
    and so: "sorted (sizes s (inorder l))" "sorted (sizes s (inorder r))"
    using Nd.prems(2) by (auto simp: sorted_append)
  show ?case
  proof (cases "rb_size (s a) = siz")
    case True
    then show ?thesis using Nd.prems(1) by (subst find_node_loop.simps) (auto simp:)
  next
    case False
    then show ?thesis
      using Nd.IH(1) [of a "left (s a)"] Nd.IH(2) [of a "right (s a)"] Nd.prems(1) so l r
      by (subst find_node_loop.simps) force
  qed
qed

lemma best_fit_loop_ok:
  assumes "tree_at s par p t" "sorted (sizes s (inorder t))"
  shows "\<exists>b. best_fit_loop p best len s = Some b \<and>
    (b \<in> nodes t \<and> len \<le> rb_size (s b) \<and> (\<forall>a\<in>nodes t. len \<le> rb_size (s a) \<longrightarrow> rb_size (s b) \<le> rb_size (s a)) \<or>
     b = best \<and> (\<forall>a\<in>nodes t. rb_size (s a) < len))"
  using assms
proof (induction t arbitrary: par p best)
  case Lf
  then show ?case by (subst best_fit_loop.simps) simp
next
  case (Nd l a c r)
  have l: "\<forall>b\<in>nodes l. rb_size (s b) \<le> rb_size (s a)" and r: "\<forall>b\<in>nodes r. rb_size (s a) \<le> rb_size (s b)"
    and so: "sorted (sizes s (inorder l))" "sorted (sizes s (inorder r))"
    and at: "p = a" "a \<noteq> 0" "tree_at s a (left (s a)) l" "tree_at s a (right (s a)) r"
    using Nd.prems by (auto simp: sorted_append)
  consider "rb_size (s a) = len" | "rb_size (s a) < len" | "len < rb_size (s a)"
    using less_linear by blast
  then show ?case
  proof cases
    case 1
    then show ?thesis using at by (subst best_fit_loop.simps) auto
  next
    case 2
    then have eq: "best_fit_loop p best len s = best_fit_loop (right (s a)) best len s"
      using at by (subst best_fit_loop.simps) auto
    have "\<forall>b\<in>insert a (nodes l). rb_size (s b) < len"
      using 2 l by (auto intro: le_less_trans)
    then show ?thesis
      using Nd.IH(2) [OF at(4) so(2), of best] by (auto simp: eq dest: leD)
  next
    case 3
    then have eq: "best_fit_loop p best len s = best_fit_loop (left (s a)) a len s"
      using at by (subst best_fit_loop.simps) auto
    obtain b where b: "best_fit_loop (left (s a)) a len s = Some b"
      "b \<in> nodes l \<and> len \<le> rb_size (s b) \<and> (\<forall>a\<in>nodes l. len \<le> rb_size (s a) \<longrightarrow> rb_size (s b) \<le> rb_size (s a)) \<or>
       b = a \<and> (\<forall>a\<in>nodes l. rb_size (s a) < len)"
      using Nd.IH(1) [OF at(3) so(1), of a] by blast
    have "len \<le> rb_size (s b) \<and> b \<in> nodes (Nd l a c r) \<and>
        (\<forall>q\<in>nodes (Nd l a c r). len \<le> rb_size (s q) \<longrightarrow> rb_size (s b) \<le> rb_size (s q))"
      using b(2) 3 l r by (auto dest: leD intro: order_trans)
    then show ?thesis
      by (auto simp: eq b(1))
  qed
qed

section \<open>Descending to the insertion point\<close>

fun right_hole :: "ctx \<Rightarrow> bool" where
  "right_hole Top = False"
| "right_hole (LCtx a c r C) = False"
| "right_hole (RCtx l a c C) = True"

lemma descend_ok:
  assumes "tree_at s par p t" "ctx_at s rt p par C" "sorted (sizes s (inorder (fill C t)))"
    and "\<forall>a\<in>set (pre_of C). rb_size (s a) < key" "\<forall>a\<in>set (post_of C). key \<le> rb_size (s a)"
    and "dir = right_hole C"
  shows "\<exists>prev C'. descend p par dir key s = Some (prev, right_hole C') \<and> fill C' Lf = fill C t \<and>
    ctx_at s rt 0 prev C' \<and>
    (\<forall>a\<in>set (pre_of C'). rb_size (s a) < key) \<and> (\<forall>a\<in>set (post_of C'). key \<le> rb_size (s a))"
  using assms
proof (induction t arbitrary: par p C dir)
  case Lf
  then show ?case
    by (subst descend.simps) auto
next
  case (Nd l a c r)
  have at: "p = a" "a \<noteq> 0" "parent (s a) = par" "tree_at s a (left (s a)) l" "tree_at s a (right (s a)) r"
      "color (s a) = c"
    using Nd.prems(1) by simp_all
  have so: "\<forall>b\<in>nodes l. rb_size (s b) \<le> rb_size (s a)" "\<forall>b\<in>nodes r. rb_size (s a) \<le> rb_size (s b)"
    using Nd.prems(3) by (auto simp: sizes_fill sorted_append)
  show ?case
  proof (cases "rb_size (s a) < key")
    case True
    have "\<forall>b\<in>set (pre_of (RCtx l a c C)). rb_size (s b) < key"
      using True so Nd.prems(4) by (auto intro: le_less_trans)
    moreover have "descend p par dir key s = descend (right (s a)) a True key s"
      using at True by (subst descend.simps) simp
    ultimately show ?thesis
      using Nd.IH(2) [of a "right (s a)" "RCtx l a c C" True] at Nd.prems by simp
  next
    case False
    have "\<forall>b\<in>set (post_of (LCtx a c r C)). key \<le> rb_size (s b)"
      using False so Nd.prems(5) by (auto intro: order_trans)
    moreover have "descend p par dir key s = descend (left (s a)) a False key s"
      using at False by (subst descend.simps) simp
    ultimately show ?thesis
      using Nd.IH(1) [of a "left (s a)" "LCtx a c r C" False] at Nd.prems by simp
  qed
qed

text \<open>Linking a fresh node \<open>n\<close> into an empty hole.\<close>

lemma agree_set_child [simp]:
  "p \<notin> A \<Longrightarrow> agree A s (set_left p v s)" "p \<notin> A \<Longrightarrow> agree A s (set_right p v s)"
  "p \<notin> A \<Longrightarrow> agree A s (set_color p k (set_parent p v s))"
  by (auto simp: agree_def shape_simps)

lemma ctx_at_link:
  assumes "ctx_at s rt 0 par C" "C \<noteq> Top" "distinct (pre_of C @ post_of C)"
  shows "ctx_at (if right_hole C then set_right par n s else set_left par n s) rt n par C"
proof (cases C)
  case (LCtx a c r C1)
  have "a \<notin> nodes r" "a \<notin> ctx_nodes C1"
    using assms(3) by (simp_all add: LCtx ctx_nodes_def)
  moreover have at: "par = a" "a \<noteq> 0" "color (s a) = c" "tree_at s a (right (s a)) r" "ctx_at s rt a (parent (s a)) C1"
    using assms(1) by (simp_all add: LCtx)
  ultimately have "tree_at (set_left a n s) a (right (s a)) r" "ctx_at (set_left a n s) rt a (parent (s a)) C1"
    by (auto intro: tree_at_agree ctx_at_agree)
  then show ?thesis
    using at(1-3) by (simp add: LCtx shape_simps)
next
  case (RCtx l a c C1)
  have "a \<notin> nodes l" "a \<notin> ctx_nodes C1"
    using assms(3) by (auto simp add: RCtx ctx_nodes_def)
  moreover have at: "par = a" "a \<noteq> 0" "color (s a) = c" "tree_at s a (left (s a)) l" "ctx_at s rt a (parent (s a)) C1"
    using assms(1) by (simp_all add: RCtx)
  ultimately have "tree_at (set_right a n s) a (left (s a)) l" "ctx_at (set_right a n s) rt a (parent (s a)) C1"
    by (auto intro: tree_at_agree ctx_at_agree)
  then show ?thesis
    using at(1-3) by (simp add: RCtx shape_simps)
qed (use assms(2) in simp)

lemma link_focus:
  assumes "ctx_at s rt 0 prev C" "C \<noteq> Top" "distinct (inorder (fill C Lf))" "n \<noteq> 0" "n \<notin> ctx_nodes C"
    and "left (s n) = 0" "right (s n) = 0"
    and "s2 = set_color n RED (set_parent n prev (if right_hole C then set_right prev n s else set_left prev n s))"
  shows "focus s2 rt n prev C (Nd Lf n RED Lf)" "prev \<noteq> 0" "same_data s s2" "n \<noteq> prev"
proof -
  have d: "distinct (pre_of C @ post_of C)" "n \<notin> set (pre_of C)" "n \<notin> set (post_of C)"
    using assms(3,5) by (simp_all add: inorder_fill ctx_nodes_def)
  have "prev \<in> ctx_nodes C" "prev \<noteq> 0"
    using assms(1,2) by (cases C; simp)+
  then have ne: "prev \<noteq> 0" "prev \<noteq> n"
    using assms(5) by auto
  have "ctx_at s2 rt n prev C"
    unfolding assms(8) by (rule ctx_at_agree [OF ctx_at_link [OF assms(1,2) d(1)]]) (simp add: assms(5))
  moreover have "tree_at s2 prev n (Nd Lf n RED Lf)"
    using assms ne by (simp add: shape_simps)
  ultimately show "focus s2 rt n prev C (Nd Lf n RED Lf)"
    using d by (simp add: focus_def inorder_fill)
  show "prev \<noteq> 0" "n \<noteq> prev"
    using ne by simp_all
  show "same_data s s2"
    by (simp add: assms(8))
qed

section \<open>Insertion\<close>

lemma insert_node_violations:
  assumes "rt \<noteq> 0" "color (s rt) = BLACK" "descend rt 0 False (rb_size (s n)) s = Some (prev, dir)"
    and "s2 = set_color n RED (set_parent n prev (if dir then set_right prev n s else set_left prev n s))"
    and "n \<noteq> 0" "prev \<noteq> 0" "n \<noteq> prev"
  shows "insert_node rt n s = insert_violations rt n s2"
proof -
  have "insert_violations rt n s2 = Some (Inr (rt, s2))" if "color (s2 prev) = BLACK"
    using that assms(5-7) by (subst insert_violations.simps) (simp add: assms(4) shape_simps)
  then show ?thesis
    using assms by (simp add: insert_node_def set_color_same Let_def shape_simps)
qed

lemma insert_node_region:
  assumes "region_tree s rt T" "T \<noteq> Lf" "n \<noteq> 0" "n \<notin> nodes T" "left (s n) = 0" "right (s n) = 0"
  shows "\<exists>rt' s' T' xs ys. insert_node rt n s = Some (Inr (rt', s')) \<and> region_tree s' rt' T' \<and>
    inorder T = xs @ ys \<and> inorder T' = xs @ n # ys \<and>
    (\<forall>a\<in>set xs. rb_size (s a) < rb_size (s n)) \<and> (\<forall>a\<in>set ys. rb_size (s n) \<le> rb_size (s a)) \<and>
    same_data s s'"
proof -
  have T: "tree_at s 0 rt T" "distinct (inorder T)" "rbt T" "sorted (sizes s (inorder T))"
    using assms(1) by (simp_all add: region_tree_def)
  have rt: "rt \<noteq> 0" "color (s rt) = BLACK"
    using T(1,3) assms(2) by (cases T; simp add: rbt_def)+
  obtain prev C where C: "descend rt 0 False (rb_size (s n)) s = Some (prev, right_hole C)"
      "fill C Lf = T" "ctx_at s rt 0 prev C"
      "\<forall>a\<in>set (pre_of C). rb_size (s a) < rb_size (s n)" "\<forall>a\<in>set (post_of C). rb_size (s n) \<le> rb_size (s a)"
    using descend_ok [of s 0 rt T rt Top "rb_size (s n)" False] T by auto
  have top: "C \<noteq> Top"
    using C(2) assms(2) by auto
  have in_T: "inorder T = pre_of C @ post_of C"
    by (simp add: C(2) [symmetric] inorder_fill)
  have out: "n \<notin> ctx_nodes C"
    using assms(4) in_T by (simp add: ctx_nodes_def flip: set_inorder)
  define s2 where "s2 = set_color n RED (set_parent n prev
    (if right_hole C then set_right prev n s else set_left prev n s))"
  have d: "distinct (inorder (fill C Lf))"
    using T(2) C(2) by simp
  note link = link_focus [OF C(3) top d assms(3) out assms(5,6) s2_def]
  have "insert_node rt n s = insert_violations rt n s2"
    by (rule insert_node_violations [OF rt C(1) s2_def assms(3) link(2,4)])
  moreover have "rebalanced s2 (inorder (fill C (Nd Lf n RED Lf))) (insert_violations rt n s2)"
    using T(3) by (intro insert_violations_ok [OF link(1)]) (simp_all add: C(2) [symmetric] rbt_fill)
  ultimately obtain rt' s' T' where out: "insert_node rt n s = Some (Inr (rt', s'))" "tree_at s' 0 rt' T'" "rbt T'"
      "inorder T' = pre_of C @ n # post_of C" "same_data s2 s'"
    by (auto simp: rebalanced_def inorder_fill)
  have same: "same_data s s'"
    using link(3) out(5) by (rule same_data_trans)
  have "sorted (sizes s (pre_of C @ n # post_of C))"
    using T(4) C(4,5) in_T by (auto simp: sorted_append intro: less_imp_le order_trans)
  then have "sorted (sizes s' (inorder T'))"
    by (simp only: out(4) sizes_same_data [OF same])
  moreover have "distinct (inorder T')"
    using T(2) in_T assms(4) by (simp add: out(4) flip: set_inorder)
  ultimately have "region_tree s' rt' T'"
    using out by (simp add: region_tree_def)
  with out in_T C(4,5) same show ?thesis by blast
qed

section \<open>Node slots\<close>

text \<open>The first slot whose "used" bit is clear; nothing bounds the scan.\<close>

lemma find_slot_first:
  assumes "\<forall>j<k. rb_flags (s (start + of_nat j * 32)) AND 1 \<noteq> 0" "rb_flags (s (start + of_nat k * 32)) AND 1 = 0"
  shows "find_slot start s = Some (start + of_nat k * 32)"
  using assms
proof (induction k arbitrary: start)
  case 0
  then show ?case by (subst find_slot.simps) simp
next
  case (Suc k)
  have "rb_flags (s start) AND 1 \<noteq> 0"
    using Suc.prems(1) by force
  moreover have "find_slot (start + sizeof_rbnode) s = Some (start + sizeof_rbnode + of_nat k * 32)"
  proof (rule Suc.IH)
    show "\<forall>j<k. rb_flags (s (start + sizeof_rbnode + of_nat j * 32)) AND 1 \<noteq> 0"
    proof (intro allI impI)
      fix j assume "j < k"
      with Suc.prems(1) have "rb_flags (s (start + of_nat (Suc j) * 32)) AND 1 \<noteq> 0" by blast
      then show "rb_flags (s (start + sizeof_rbnode + of_nat j * 32)) AND 1 \<noteq> 0"
        by (simp add: sizeof_rbnode_def algebra_simps)
    qed
    show "rb_flags (s (start + sizeof_rbnode + of_nat k * 32)) AND 1 = 0"
      using Suc.prems(2) by (simp add: sizeof_rbnode_def algebra_simps)
  qed
  ultimately show ?case
    by (subst find_slot.simps) (simp add: sizeof_rbnode_def algebra_simps)
qed

lemma find_slot_free:
  assumes "find_slot start s = Some n"
  shows "rb_flags (s n) AND 1 = 0"
  by (rule find_slot.raw_induct [where P = "\<lambda>_ s n. rb_flags (s n) AND 1 = 0", OF _ assms])
    (auto split: if_splits)

text \<open>A region tree does not see updates of other structs, nor of the words it does not order by.\<close>

lemma region_tree_other:
  assumes "region_tree s rt T" "n \<notin> nodes T"
  shows "region_tree (s(n := v)) rt T"
proof -
  have "agree (nodes T) s (s(n := v))"
    using assms(2) by (auto simp: agree_def)
  moreover have "sizes (s(n := v)) (inorder T) = sizes s (inorder T)"
    using assms(2) by (auto simp: sizes_def simp flip: set_inorder)
  ultimately show ?thesis
    using assms(1) by (auto simp: region_tree_def intro: tree_at_agree)
qed

lemma region_tree_Lf: "region_tree s 0 T \<longleftrightarrow> T = Lf"
  by (cases T) (auto simp: region_tree_def rbt_def)

section \<open>Making a node\<close>

lemma make_node_region:
  assumes T: "region_tree s (root cvmm) T"
    and slot: "find_slot (vm_obj_store_addr cvmm + sizeof_vmm) s = Some n" "n \<noteq> 0" "n \<notin> nodes T"
    and zero: "left (s n) = 0" "right (s n) = 0"
  shows "\<exists>cvmm' s' T' xs ys. make_node cvmm bas siz ident s = Some (Inr (n, cvmm', s')) \<and>
    region_tree s' (root cvmm') T' \<and> inorder T = xs @ ys \<and> inorder T' = xs @ n # ys \<and>
    rb_base (s' n) = bas \<and> rb_size (s' n) = siz \<and> rb_flags (s' n) = 3 \<and>
    (\<forall>a. a \<noteq> n \<longrightarrow> rb_base (s' a) = rb_base (s a) \<and> rb_size (s' a) = rb_size (s a) \<and> rb_flags (s' a) = rb_flags (s a))"
proof -
  define s1 where "s1 = s(n := (s n)\<lparr>rb_flags := 3, rb_size := siz, rb_id := ident, rb_base := bas\<rparr>)"
  show ?thesis
  proof (cases "root cvmm = 0")
    case True
    define s2 where "s2 = s1(n := (s1 n)\<lparr>color := BLACK, left := 0, right := 0, parent := 0\<rparr>)"
    have "make_node cvmm bas siz ident s = Some (Inr (n, cvmm\<lparr>root := n\<rparr>, s2))"
      using True slot by (simp add: make_node_def alloc_node_obj_def s2_def s1_def)
    moreover have "T = Lf"
      using T True by (simp add: region_tree_Lf)
    moreover have "region_tree s2 n (Nd Lf n BLACK Lf)"
      using slot by (simp add: region_tree_def rbt_def s2_def)
    ultimately show ?thesis
      by (intro exI [of _ "cvmm\<lparr>root := n\<rparr>"] exI [of _ s2] exI [of _ "Nd Lf n BLACK Lf"])
        (simp add: s2_def s1_def)
  next
    case False
    have eq: "make_node cvmm bas siz ident s =
        bind_out (insert_node (root cvmm) n s1) (\<lambda>(rt', s2). Some (Inr (n, cvmm\<lparr>root := rt'\<rparr>, s2)))"
      using False slot by (simp add: make_node_def alloc_node_obj_def s1_def)
    have "region_tree s1 (root cvmm) T"
      using region_tree_other [OF T slot(3)] by (simp add: s1_def)
    moreover have "T \<noteq> Lf"
      using T False by (auto simp: region_tree_def)
    ultimately obtain rt' s' T' xs ys where out: "insert_node (root cvmm) n s1 = Some (Inr (rt', s'))"
        "region_tree s' rt' T'" "inorder T = xs @ ys" "inorder T' = xs @ n # ys" "same_data s1 s'"
      using insert_node_region [of s1 "root cvmm" T n] slot zero by (auto simp: s1_def)
    have "make_node cvmm bas siz ident s = Some (Inr (n, cvmm\<lparr>root := rt'\<rparr>, s'))"
      by (simp add: eq out)
    with out show ?thesis
      by (intro exI [of _ "cvmm\<lparr>root := rt'\<rparr>"] exI [of _ s'] exI [of _ T'] exI [of _ xs] exI [of _ ys])
        (simp add: same_data_def s1_def)
  qed
qed

section \<open>Properties\<close>

text \<open>
  A small address space used by the witnesses: a region of 8 pages at the black root (address 160)
  and a free slot at address 192; the store itself starts at 112.
\<close>

definition blank_node :: rbnode where
  "blank_node = \<lparr>rb_id = 0, rb_base = 0, rb_size = 0, rb_flags = 0, color = BLACK, left = 0, right = 0, parent = 0\<rparr>"

definition demo_store :: store where
  "demo_store = (\<lambda>_. blank_node)(160 := blank_node\<lparr>rb_base := 0x100000, rb_size := 0x8000, rb_flags := 3\<rparr>)"

definition demo_vmm :: vmm where
  "demo_vmm = \<lparr>root_pd = 0, root_pdpt = 0, pd_low = 0, pd_mid = 0, pd_high = 0, root = 160,
     vm_obj_store_addr = 112, low = 0, high = 0\<rparr>"

lemma demo_region: "region_tree demo_store 160 (Nd Lf 160 BLACK Lf)"
  by (simp add: region_tree_def rbt_def demo_store_def blank_node_def)

text \<open>
  C2. Inserting a node whose links are NULL into a non-empty region tree returns, and leaves a
  red-black search tree (colours, black heights, order by size, parent pointers, no sharing) whose
  in-order sequence is the old one with exactly the new node added, after every smaller region and
  before every region at least as large; no size, base or flag word changes.
\<close>

theorem insert_node_correct:
  assumes "region_tree s rt T" "rt \<noteq> 0" "n \<noteq> 0" "n \<notin> nodes T" "left (s n) = 0" "right (s n) = 0"
  shows "\<exists>rt' s' T' xs ys. insert_node rt n s = Some (Inr (rt', s')) \<and> region_tree s' rt' T' \<and>
    inorder T = xs @ ys \<and> inorder T' = xs @ n # ys \<and>
    (\<forall>a\<in>set xs. rb_size (s a) < rb_size (s n)) \<and> (\<forall>a\<in>set ys. rb_size (s n) \<le> rb_size (s a)) \<and>
    same_data s s'"
  using assms region_tree_Lf [of s Lf] by (intro insert_node_region) (auto simp: region_tree_def)

theorem insert_node_correct_witness:
  "\<exists>rt' s' T' xs ys. insert_node 160 192 demo_store = Some (Inr (rt', s')) \<and> region_tree s' rt' T' \<and>
    inorder (Nd Lf 160 BLACK Lf) = xs @ ys \<and> inorder T' = xs @ 192 # ys \<and>
    (\<forall>a\<in>set xs. rb_size (demo_store a) < rb_size (demo_store 192)) \<and>
    (\<forall>a\<in>set ys. rb_size (demo_store 192) \<le> rb_size (demo_store a)) \<and> same_data demo_store s'"
  by (rule insert_node_correct [OF demo_region]) (simp_all add: demo_store_def blank_node_def)

text \<open>
  Registering a free region: \<open>make_node\<close> takes the first slot of the store whose "used" bit is
  clear, fills in base and size, and adds exactly that region to the tree, empty or not; every other
  region keeps its slot, base, size and flags, and the tree stays a region tree. All live nodes are
  marked used, and unused slots have NULL links.
\<close>

theorem make_node_adds_region:
  fixes s :: store
  assumes "region_tree s (root cvmm) T"
    and "\<forall>a\<in>nodes T. rb_flags (s a) AND 1 \<noteq> 0"
    and "\<forall>j<k. rb_flags (s (vm_obj_store_addr cvmm + 48 + of_nat j * 32)) AND 1 \<noteq> 0"
    and "n = vm_obj_store_addr cvmm + 48 + of_nat k * 32" "rb_flags (s n) AND 1 = 0"
    and "n \<noteq> 0" "left (s n) = 0" "right (s n) = 0"
  shows "\<exists>cvmm' s' T' xs ys. make_node cvmm bas siz ident s = Some (Inr (n, cvmm', s')) \<and>
    region_tree s' (root cvmm') T' \<and> inorder T = xs @ ys \<and> inorder T' = xs @ n # ys \<and>
    rb_base (s' n) = bas \<and> rb_size (s' n) = siz \<and> rb_flags (s' n) = 3 \<and>
    (\<forall>a. a \<noteq> n \<longrightarrow> rb_base (s' a) = rb_base (s a) \<and> rb_size (s' a) = rb_size (s a) \<and> rb_flags (s' a) = rb_flags (s a))"
proof (rule make_node_region [OF assms(1)])
  show "find_slot (vm_obj_store_addr cvmm + sizeof_vmm) s = Some n"
    using find_slot_first assms(3-5) by (simp add: sizeof_vmm_def)
qed (use assms in auto)

theorem make_node_adds_region_witness:
  "\<exists>cvmm' s' T' xs ys. make_node demo_vmm 0x200000 0x4000 0 demo_store = Some (Inr (192, cvmm', s')) \<and>
    region_tree s' (root cvmm') T' \<and> inorder (Nd Lf 160 BLACK Lf) = xs @ ys \<and> inorder T' = xs @ 192 # ys \<and>
    rb_base (s' 192) = 0x200000 \<and> rb_size (s' 192) = 0x4000 \<and> rb_flags (s' 192) = 3 \<and>
    (\<forall>a. a \<noteq> 192 \<longrightarrow> rb_base (s' a) = rb_base (demo_store a) \<and> rb_size (s' a) = rb_size (demo_store a) \<and>
      rb_flags (s' a) = rb_flags (demo_store a))"
  by (rule make_node_adds_region [where k = 1 and T = "Nd Lf 160 BLACK Lf"])
    (simp_all add: demo_region demo_vmm_def, simp_all add: demo_store_def blank_node_def)

text \<open>
  C23. The search of the page allocator is a best fit: on a region tree it ends, answers NULL exactly
  when every region is smaller than the request, and otherwise a region that is large enough and no
  larger than any other region that is large enough.
\<close>

theorem best_fit_is_best:
  assumes "region_tree s rt T"
  shows "\<exists>b. best_fit_loop rt 0 len s = Some b \<and>
    (b = 0 \<longleftrightarrow> (\<forall>a\<in>nodes T. rb_size (s a) < len)) \<and>
    (b \<noteq> 0 \<longrightarrow> b \<in> nodes T \<and> len \<le> rb_size (s b) \<and>
      (\<forall>a\<in>nodes T. len \<le> rb_size (s a) \<longrightarrow> rb_size (s b) \<le> rb_size (s a)))"
proof -
  have T: "tree_at s 0 rt T" "sorted (sizes s (inorder T))"
    using assms by (simp_all add: region_tree_def)
  then have "0 \<notin> nodes T"
    using tree_at_nonzero by blast
  then show ?thesis
    using best_fit_loop_ok [OF T, of 0 len] by (auto simp: not_le [symmetric])
qed

theorem best_fit_is_best_witness:
  "\<exists>b. best_fit_loop 160 0 0x1000 demo_store = Some b \<and>
    (b = 0 \<longleftrightarrow> (\<forall>a\<in>nodes (Nd Lf 160 BLACK Lf). rb_size (demo_store a) < 0x1000)) \<and>
    (b \<noteq> 0 \<longrightarrow> b \<in> nodes (Nd Lf 160 BLACK Lf) \<and> 0x1000 \<le> rb_size (demo_store b) \<and>
      (\<forall>a\<in>nodes (Nd Lf 160 BLACK Lf). 0x1000 \<le> rb_size (demo_store a) \<longrightarrow> rb_size (demo_store b) \<le> rb_size (demo_store a)))"
  by (rule best_fit_is_best [OF demo_region])

text \<open>
  \<open>find_node\<close> ends on every region tree; it answers NULL exactly when no region has the
  requested size, and otherwise a region of that size.
\<close>

theorem find_node_correct:
  assumes "region_tree s rt T"
  shows "\<exists>r. find_node rt siz s = Some r \<and> (r = 0 \<longleftrightarrow> (\<forall>a\<in>nodes T. rb_size (s a) \<noteq> siz)) \<and>
    (r \<noteq> 0 \<longrightarrow> r \<in> nodes T \<and> rb_size (s r) = siz)"
proof -
  have T: "tree_at s 0 rt T" "sorted (sizes s (inorder T))"
    using assms by (simp_all add: region_tree_def)
  obtain r where r: "find_node rt siz s = Some r" "r = 0 \<longrightarrow> siz \<notin> set (sizes s (inorder T))"
      "r \<noteq> 0 \<longrightarrow> r \<in> nodes T \<and> rb_size (s r) = siz"
    using find_node_loop_ok [OF T] by (auto simp: find_node_def)
  then show ?thesis by auto
qed

theorem find_node_correct_witness:
  "\<exists>r. find_node 160 0x8000 demo_store = Some r \<and>
    (r = 0 \<longleftrightarrow> (\<forall>a\<in>nodes (Nd Lf 160 BLACK Lf). rb_size (demo_store a) \<noteq> 0x8000)) \<and>
    (r \<noteq> 0 \<longrightarrow> r \<in> nodes (Nd Lf 160 BLACK Lf) \<and> rb_size (demo_store r) = 0x8000)"
  by (rule find_node_correct [OF demo_region])

text \<open>
  Freeing a node does not return its slot: \<open>free_node_obj\<close> clears the bit that says the node is
  live, but the allocator looks at the other bit, so a slot that was ever handed out is never
  handed out again.
\<close>

theorem freed_slot_never_reused:
  assumes "rb_flags (s a) AND 1 \<noteq> 0" "alloc_node_obj cvmm (free_node_obj a s) = Some (n, s')"
  shows "n \<noteq> a"
proof
  assume "n = a"
  have "find_slot (vm_obj_store_addr cvmm + sizeof_vmm) (free_node_obj a s) = Some n"
    using assms(2) by (auto simp: alloc_node_obj_def)
  then have "rb_flags (free_node_obj a s a) AND 1 = 0"
    using find_slot_free \<open>n = a\<close> by blast
  moreover have "rb_flags (free_node_obj a s a) AND 1 = rb_flags (s a) AND 1"
  proof -
    have "NOT (2 :: u32) AND 1 = 1" by simp
    then show ?thesis
      by (auto simp: free_node_obj_def and.assoc)
  qed
  ultimately show False
    using assms(1) by simp
qed

theorem freed_slot_never_reused_witness:
  "\<exists>n s'. alloc_node_obj demo_vmm (free_node_obj 160 demo_store) = Some (n, s') \<and> n \<noteq> 160"
proof -
  have "find_slot (112 + sizeof_vmm) (free_node_obj 160 demo_store) = Some (112 + sizeof_vmm + of_nat 1 * 32)"
    by (rule find_slot_first) (simp_all add: sizeof_vmm_def free_node_obj_def demo_store_def blank_node_def)
  then obtain n s' where "alloc_node_obj demo_vmm (free_node_obj 160 demo_store) = Some (n, s')"
    by (auto simp: alloc_node_obj_def demo_vmm_def)
  moreover from this have "n \<noteq> 160"
    by (rule freed_slot_never_reused [rotated]) (simp add: demo_store_def)
  ultimately show ?thesis by blast
qed

end
