(* ===== verification/Rbtree_Delete.thy ===== *)
theory Rbtree_Delete
  imports Rbtree_Spec
begin

text \<open>
  Deletion from the red-black tree, \<open>delete_violations\<close> and \<open>delete_node\<close> of \<open>rbtree.c\<close>, on the same
  pointer model. The code handles the deletion of a red leaf; several of its other cases do not
  keep the tree, and two of them are stated here as what the code does.
\<close>

section \<open>Rebalancing before a deletion\<close>

definition null_color :: "u32 \<Rightarrow> store \<Rightarrow> int" where
  "null_color p s = (if p \<noteq> 0 then color (s p) else BLACK)"

text \<open>A near red nephew is rotated outwards; \<open>sdir\<close> says that the sibling is a right child.\<close>

definition turn_near :: "bool \<Rightarrow> u32 \<Rightarrow> int \<Rightarrow> int \<Rightarrow> u32 \<Rightarrow> store \<Rightarrow> (u32 \<times> store) result" where
  "turn_near sdir sib slc src rt s =
     (if slc = BLACK \<and> src = RED \<and> \<not> sdir then
        (let s1 = set_color sib RED s in rb_left_rotation rt sib (set_color (right (s1 sib)) BLACK s1))
      else if src = BLACK \<and> slc = RED \<and> sdir then
        (let s1 = set_color sib RED s in rb_right_rotation rt sib (set_color (left (s1 sib)) BLACK s1))
      else Inr (rt, s))"

text \<open>The colours of parent and sibling are exchanged, the parent rotated, the far nephew blackened.\<close>

definition swap_colors :: "u32 \<Rightarrow> u32 \<Rightarrow> store \<Rightarrow> store" where
  "swap_colors par sib s = (let pc = color (s par); s1 = set_color par (color (s sib)) s in set_color sib pc s1)"

definition blacken_far :: "bool \<Rightarrow> u32 \<Rightarrow> u32 \<times> store \<Rightarrow> (u32 \<times> store) result" where
  "blacken_far on_right node rs =
     (let (rt, s0) = rs; s = set_color node BLACK s0; gp = parent (s (parent (s node)));
          far = (if on_right then right (s gp) else left (s gp))
      in if parent (s node) = 0 then Inl (PageFault 28)
         else if gp = 0 then Inl (PageFault (if on_right then 24 else 20))
         else if far = 0 then Inl (PageFault 16)
         else Inr (rt, set_color far BLACK s))"

definition lift_far :: "bool \<Rightarrow> int \<Rightarrow> int \<Rightarrow> u32 \<Rightarrow> u32 \<Rightarrow> store \<Rightarrow> (u32 \<times> store) result" where
  "lift_far sdir0 slc src node rt s =
     (let par = parent (s node);
          sdir = (left (s par) = node \<or> sdir0);
          sib = (if left (s par) = node then right (s par) else left (s par))
      in if slc = RED \<and> sdir then
           (if sib = 0 then Inl (PageFault 16)
            else case rb_left_rotation rt par (swap_colors par sib s) of
                   Inl e \<Rightarrow> Inl e | Inr rs \<Rightarrow> blacken_far True node rs)
         else if src = RED \<and> \<not> sdir then
           (if sib = 0 then Inl (PageFault 16)
            else case rb_right_rotation rt par (swap_colors par sib s) of
                   Inl e \<Rightarrow> Inl e | Inr rs \<Rightarrow> blacken_far False node rs)
         else Inr (rt, s))"

definition red_nephew :: "bool \<Rightarrow> u32 \<Rightarrow> int \<Rightarrow> int \<Rightarrow> u32 \<Rightarrow> u32 \<Rightarrow> store \<Rightarrow> (u32 \<times> store) result" where
  "red_nephew sdir sib slc src node rt s =
     (case turn_near sdir sib slc src rt s of
        Inl e \<Rightarrow> Inl e
      | Inr (rt', s') \<Rightarrow> lift_far sdir slc src node rt' s')"

partial_function (option) delete_violations :: "u32 \<Rightarrow> u32 \<Rightarrow> store \<Rightarrow> (u32 \<times> store) outcome" where
  "delete_violations rt node s =
     (if parent (s node) = 0 then Some (Inr (rt, set_color node BLACK s))
      else if color (s node) = RED then Some (Inr (rt, s))
      else
        let par = parent (s node);
            sdir = (left (s par) = node);
            sib = (if sdir then right (s par) else left (s par))
        in if color (s node) \<noteq> BLACK \<and> color (s node) \<noteq> DOUBLE_BLACK then Some (Inr (rt, s))
           else if sib = 0 then Some (Inl (PageFault 20))
           else
             let s1 = set_color node DOUBLE_BLACK s;
                 slc = null_color (left (s1 sib)) s1;
                 src = null_color (right (s1 sib)) s1
             in if color (s1 sib) = BLACK \<and> slc = BLACK \<and> src = BLACK then
                  (let s2 = set_color sib RED (set_color node BLACK s1)
                   in if color (s2 par) = BLACK then delete_violations rt par (set_color par DOUBLE_BLACK s2)
                      else Some (Inr (rt, set_color par BLACK s2)))
                else if color (s1 sib) = RED then
                  (let temp = color (s1 sib); s2 = set_color par temp (set_color sib (color (s1 par)) s1)
                   in bind_out
                        (Some (if sdir then rb_left_rotation rt par s2 else rb_right_rotation rt par s2))
                        (\<lambda>(rt', s'). delete_violations rt' node s'))
                else if color (s1 sib) = BLACK then Some (red_nephew sdir sib slc src node rt s1)
                else Some (Inr (rt, s1)))"

declare delete_violations.simps [code]

section \<open>Deletion\<close>

text \<open>\<open>node->base = src->base; node->size = src->size; node->flags = src->flags;\<close>\<close>

definition copy_region :: "u32 \<Rightarrow> u32 \<Rightarrow> store \<Rightarrow> store" where
  "copy_region node src s =
     s(node := (s node)\<lparr>rb_base := rb_base (s src), rb_size := rb_size (s src), rb_flags := rb_flags (s src)\<rparr>)"

partial_function (option) rightmost :: "u32 \<Rightarrow> store \<Rightarrow> u32 option" where
  "rightmost p s = (if p = 0 then Some p else if right (s p) = 0 then Some p else rightmost (right (s p)) s)"

declare rightmost.simps [code]

definition delete_leaf :: "u32 \<Rightarrow> u32 \<Rightarrow> store \<Rightarrow> (u32 \<times> store) outcome" where
  "delete_leaf rt node s =
     (let par = parent (s node)
      in bind_out (delete_violations rt node s)
           (\<lambda>(rt1, s1).
             if par = 0 then Some (Inl (PageFault 8))
             else
               let s2 = (if rb_size (s1 node) > rb_size (s1 par) then set_right par 0 s1 else set_left par 0 s1)
               in Some (Inr (rt1, free_node_obj node s2))))"

definition delete_inner :: "u32 \<Rightarrow> u32 \<Rightarrow> store \<Rightarrow> (u32 \<times> store) outcome" where
  "delete_inner rt node s =
     Option.bind (rightmost (left (s node)) s)
       (\<lambda>m. bind_out (delete_violations rt m s)
         (\<lambda>(rt1, s1).
           let s2 = copy_region node m s1
           in if m \<noteq> left (s2 node) \<and> parent (s2 m) = 0 then Some (Inl (PageFault 24))
              else
                let s3 = (if m = left (s2 node) then set_left node 0 s2 else set_right (parent (s2 m)) 0 s2);
                    s4 = (if node = rt1 then set_color node BLACK s3 else s3)
                in Some (Inr (rt1, free_node_obj m s4))))"

definition delete_single :: "u32 \<Rightarrow> u32 \<Rightarrow> store \<Rightarrow> (u32 \<times> store) outcome" where
  "delete_single rt node s =
     (let cp = (if left (s node) \<noteq> 0 then left (s node) else right (s node))
      in bind_out (delete_violations rt cp (copy_region node cp s))
           (\<lambda>(rt1, s1).
             let s2 = set_color node (color (s1 cp)) s1;
                 s3 = set_right node (right (s2 cp)) s2;
                 s4 = set_left node (left (s3 cp)) s3;
                 s5 = (if node = rt1 then set_color node BLACK s4 else s4)
             in Some (Inr (rt1, free_node_obj cp s5))))"

definition delete_node :: "u32 \<Rightarrow> u32 \<Rightarrow> store \<Rightarrow> (u32 \<times> store) outcome" where
  "delete_node rt node s =
     (let (rt0, s0) = (if node = rt \<and> left (s node) = 0 \<and> right (s node) = 0
                       then (0, free_node_obj node s) else (rt, s))
      in if left (s0 node) = 0 \<and> right (s0 node) = 0 then delete_leaf rt0 node s0
         else if left (s0 node) \<noteq> 0 \<and> right (s0 node) \<noteq> 0 then delete_inner rt0 node s0
         else delete_single rt0 node s0)"

section \<open>Red leaves\<close>

lemma violations_red:
  "parent (s n) \<noteq> 0 \<Longrightarrow> color (s n) = RED \<Longrightarrow> delete_violations rt n s = Some (Inr (rt, s))"
  by (subst delete_violations.simps) simp

lemma region_tree_focus:
  assumes "region_tree s rt (fill C (Nd Lf n RED Lf))"
  shows "focus s rt n (parent (s n)) C (Nd Lf n RED Lf)" "parent (s n) \<noteq> 0" "C \<noteq> Top"
proof -
  obtain p par where *: "ctx_at s rt p par C" "tree_at s par p (Nd Lf n RED Lf)"
    using assms unfolding region_tree_def tree_at_fill by blast
  show f: "focus s rt n (parent (s n)) C (Nd Lf n RED Lf)"
    using * assms by (auto simp: focus_def region_tree_def)
  have "rbt (fill C (Nd Lf n RED Lf))"
    using assms by (simp add: region_tree_def)
  then have "ctx_black C"
    by (simp add: rbt_fill)
  then show "C \<noteq> Top" "parent (s n) \<noteq> 0"
    using f by (cases C; simp add: focus_def)+
qed

lemma free_node_obj_fields [simp]:
  "left (free_node_obj n s q) = left (s q)" "right (free_node_obj n s q) = right (s q)"
  "parent (free_node_obj n s q) = parent (s q)" "color (free_node_obj n s q) = color (s q)"
  "rb_size (free_node_obj n s q) = rb_size (s q)"
  by (simp_all add: free_node_obj_def)

lemma free_node_obj_other [simp]: "q \<noteq> n \<Longrightarrow> free_node_obj n s q = s q"
  by (simp add: free_node_obj_def)

lemma ctx_at_root: "ctx_at s rt p par C \<Longrightarrow> C \<noteq> Top \<Longrightarrow> rt \<in> ctx_nodes C"
proof (induction C arbitrary: p par)
  case (LCtx a c r C)
  then show ?case by (cases "C = Top") auto
next
  case (RCtx l a c C)
  then show ?case by (cases "C = Top") auto
qed simp

text \<open>What \<open>delete_node\<close> does to a red leaf: the link on the side that the sizes suggest is cut.\<close>

lemma delete_red_leaf_eq:
  assumes "focus s rt n par C (Nd Lf n RED Lf)" "par \<noteq> 0"
  shows "delete_node rt n s = Some (Inr (rt, free_node_obj n
    (if rb_size (s n) > rb_size (s par) then set_right par 0 s else set_left par 0 s)))"
proof -
  note g = focus_Nd [OF assms(1)]
  have "ctx_at s rt n par C" "C \<noteq> Top"
    using assms by (auto simp: focus_def)
  then have "n \<noteq> rt"
    using ctx_at_root g(5) by blast
  then have "delete_node rt n s = delete_leaf rt n s"
    using g by (simp add: delete_node_def)
  then show ?thesis
    using g assms(2) violations_red [of s n rt] by (simp add: delete_leaf_def Let_def)
qed

lemma unlink_leaf:
  assumes f: "focus s rt n par C (Nd Lf n RED Lf)" and "par \<noteq> 0"
    and "s' = free_node_obj n (if left (s par) = n then set_left par 0 s else set_right par 0 s)"
  shows "focus s' rt 0 par C Lf"
proof -
  note g = focus_Nd [OF f]
  have "ctx_at s' (if par = 0 then 0 else rt) 0 par C"
  proof (rule ctx_at_replace)
    show "ctx_at s rt n par C" "distinct (pre_of C @ post_of C)"
      using f distinct_ctx by (auto simp: focus_def)
    show "agree (ctx_nodes C - {par}) s s'"
      by (auto simp: agree_def assms(3) shape_simps)
  qed (use g assms in \<open>auto simp: shape_simps\<close>)
  then show ?thesis
    using f assms(2) by (simp add: focus_def inorder_fill)
qed

lemma delete_red_leaf:
  assumes T: "region_tree s rt (fill C (Nd Lf n RED Lf))"
    and side: "right_hole C \<Longrightarrow> rb_size (s (parent (s n))) < rb_size (s n)"
  shows "\<exists>s'. delete_node rt n s = Some (Inr (rt, s')) \<and> region_tree s' rt (fill C Lf) \<and>
    (\<forall>a. a \<noteq> n \<longrightarrow> rb_base (s' a) = rb_base (s a) \<and> rb_size (s' a) = rb_size (s a) \<and> rb_flags (s' a) = rb_flags (s a))"
proof -
  let ?par = "parent (s n)"
  note f = region_tree_focus [OF T]
  note g = focus_Nd [OF f(1)]
  have so: "sorted (sizes s (pre_of C @ n # post_of C))"
    using T by (simp add: region_tree_def inorder_fill)
  have cut: "rb_size (s n) > rb_size (s ?par) \<longleftrightarrow> left (s ?par) \<noteq> n"
  proof (cases C)
    case (LCtx a c r C1)
    then have "a = ?par" "left (s ?par) = n"
      using f(1) by (simp_all add: focus_def)
    moreover have "rb_size (s n) \<le> rb_size (s a)"
      using so by (simp add: LCtx sorted_append)
    ultimately show ?thesis by auto
  next
    case (RCtx l a c C1)
    then have "a = ?par" "tree_at s a (left (s a)) l" "n \<notin> nodes l"
      using f(1) g(5) by (simp_all add: focus_def)
    then have "left (s ?par) \<noteq> n"
      using tree_at_other g(2) by metis
    then show ?thesis using side RCtx by simp
  qed (use f in simp)
  define s' where "s' = free_node_obj n (if left (s ?par) = n then set_left ?par 0 s else set_right ?par 0 s)"
  have "delete_node rt n s = Some (Inr (rt, s'))"
    using delete_red_leaf_eq [OF f(1,2)] cut by (simp add: s'_def)
  moreover have data: "\<forall>a. a \<noteq> n \<longrightarrow> rb_base (s' a) = rb_base (s a) \<and> rb_size (s' a) = rb_size (s a) \<and> rb_flags (s' a) = rb_flags (s a)"
    by (simp add: s'_def shape_simps)
  moreover have "region_tree s' rt (fill C Lf)"
  proof -
    have "tree_at s' 0 rt (fill C Lf)" "distinct (inorder (fill C Lf))"
      using focus_tree [OF unlink_leaf [OF f(1,2) s'_def]] by blast+
    moreover have "rbt (fill C Lf)"
      using T by (simp add: region_tree_def rbt_fill)
    moreover have "sizes s' (inorder (fill C Lf)) = sizes s (inorder (fill C Lf))"
      using data by (simp add: sizes_def s'_def shape_simps)
    ultimately show ?thesis
      using so by (simp add: region_tree_def inorder_fill sorted_append)
  qed
  ultimately show ?thesis by blast
qed

section \<open>Properties\<close>

text \<open>The region of the demo store with a smaller region, a red left leaf, at address 192.\<close>

definition demo_pair :: store where
  "demo_pair = demo_store(160 := (demo_store 160)\<lparr>left := 192\<rparr>,
     192 := blank_node\<lparr>rb_base := 0x200000, rb_size := 0x4000, rb_flags := 3, color := RED, parent := 160\<rparr>)"

lemma demo_pair_region: "region_tree demo_pair 160 (fill (LCtx 160 BLACK Lf Top) (Nd Lf 192 RED Lf))"
  by (simp add: region_tree_def rbt_def demo_pair_def demo_store_def blank_node_def)

text \<open>
  C24. Deleting a region whose node is a red leaf (a left child, or a right child strictly larger than
  its parent) returns, keeps the root, removes exactly that node from the tree and leaves a region
  tree; no other region's base, size or flags change.
\<close>

theorem delete_red_leaf_correct:
  assumes "region_tree s rt (fill C (Nd Lf n RED Lf))"
    and "right_hole C \<Longrightarrow> rb_size (s (parent (s n))) < rb_size (s n)"
  shows "\<exists>s'. delete_node rt n s = Some (Inr (rt, s')) \<and> region_tree s' rt (fill C Lf) \<and>
    (\<forall>a. a \<noteq> n \<longrightarrow> rb_base (s' a) = rb_base (s a) \<and> rb_size (s' a) = rb_size (s a) \<and> rb_flags (s' a) = rb_flags (s a))"
  using assms by (rule delete_red_leaf)

theorem delete_red_leaf_correct_witness:
  "\<exists>s'. delete_node 160 192 demo_pair = Some (Inr (160, s')) \<and> region_tree s' 160 (fill (LCtx 160 BLACK Lf Top) Lf) \<and>
    (\<forall>a. a \<noteq> 192 \<longrightarrow> rb_base (s' a) = rb_base (demo_pair a) \<and> rb_size (s' a) = rb_size (demo_pair a) \<and>
      rb_flags (s' a) = rb_flags (demo_pair a))"
  by (rule delete_red_leaf_correct [OF demo_pair_region]) simp

text \<open>
  Deleting the only region of an address space does not return: the branch that empties the
  tree falls through into the code for leaves, which reads the size of the NULL parent (a page
  fault at address 8).
\<close>

theorem delete_last_region_faults:
  assumes "region_tree s rt (Nd Lf rt c Lf)"
  shows "delete_node rt rt s = Some (Inl (PageFault 8))"
proof -
  have s: "left (s rt) = 0" "right (s rt) = 0" "parent (s rt) = 0"
    using assms by (simp_all add: region_tree_def)
  have "delete_violations 0 rt (free_node_obj rt s) = Some (Inr (0, set_color rt BLACK (free_node_obj rt s)))"
    using s by (subst delete_violations.simps) simp
  then show ?thesis
    using s by (simp add: delete_node_def delete_leaf_def)
qed

theorem delete_last_region_faults_witness:
  "delete_node 160 160 demo_store = Some (Inl (PageFault 8))"
  by (rule delete_last_region_faults [OF demo_region])

end
