(* ===== verification/Vmm.thy ===== *)
theory Vmm
  imports Rbtree_Delete Paging
begin

text \<open>
  The virtual memory manager of \<open>memory/vmm.c\<close>: an address space keeps its free regions in a region
  tree, an allocation cuts its pages from the best fitting region and maps them. The mapping
  routines (\<open>memory_map\<close> or \<open>pae_mmap\<close>) and the frame allocator are arguments of the allocation, as
  the code selects them by a flag.
\<close>

section \<open>State\<close>

text \<open>\<open>space a\<close> is the \<open>struct vmm\<close> at address \<open>a\<close>, \<open>region_nodes\<close> the tree nodes, \<open>mach\<close> the page tables.\<close>

record 'm vm =
  space :: "u32 \<Rightarrow> vmm"
  region_nodes :: store
  kernel_vmm :: u32
  current_vmm :: u32
  mach :: 'm

definition BYTE_PGROUNDUP :: "u32 \<Rightarrow> u32" where
  "BYTE_PGROUNDUP a = (a + (4096 - 1)) AND NOT (4096 - 1)"

definition VM_FLAG_WRITE :: u32 where
  "VM_FLAG_WRITE = 2"

definition VM_FLAG_USER :: u32 where
  "VM_FLAG_USER = 4"

definition convert_x86_32_vm_flags :: "u32 \<Rightarrow> u32" where
  "convert_x86_32_vm_flags flags =
     (let v1 = (if flags AND VM_FLAG_WRITE \<noteq> 0 then 1 OR 2 else 1)
      in if flags AND VM_FLAG_USER \<noteq> 0 then v1 OR 4 else v1)"

section \<open>Address spaces\<close>

text \<open>
  \<open>create_vmm\<close> in a store page that is mapped; the page is zeroed, so every node slot in it is zero.
  The first region is registered with \<open>high\<close> as its size.
\<close>

definition zero_node :: rbnode where
  "zero_node = \<lparr>rb_id = 0, rb_base = 0, rb_size = 0, rb_flags = 0, color = 0, left = 0, right = 0, parent = 0\<rparr>"

definition in_page :: "u32 \<Rightarrow> u32 \<Rightarrow> bool" where
  "in_page p a \<longleftrightarrow> unat (a - p) < 4096"

definition init_space :: "u32 \<Rightarrow> u32 \<Rightarrow> u32 \<Rightarrow> u32 \<Rightarrow> u32 \<Rightarrow> vmm" where
  "init_space rpdpt rpd lo hi store_page =
     \<lparr>root_pd = rpd, root_pdpt = rpdpt, pd_low = 0, pd_mid = 0, pd_high = 0, root = 0,
      vm_obj_store_addr = store_page + sizeof_vmm, low = BYTE_PGROUNDUP lo, high = hi\<rparr>"

definition create_vmm :: "u32 \<Rightarrow> u32 \<Rightarrow> u32 \<Rightarrow> u32 \<Rightarrow> 'm vm \<Rightarrow> (u32 \<times> 'm vm) outcome" where
  "create_vmm rpd lo hi store_page s =
     (let s0 = (\<lambda>a. if in_page store_page a then zero_node else region_nodes s a);
          v = init_space (if kernel_vmm s \<noteq> 0 then vmm.root_pdpt (space s (kernel_vmm s)) else 0) rpd lo hi store_page
      in bind_out (make_node v (low v) (high v) 0 s0)
           (\<lambda>(_, v', s1). Some (Inr (store_page, s\<lparr>space := (space s)(store_page := v'), region_nodes := s1\<rparr>))))"

text \<open>With no store page, a frame is mapped at \<open>TEMP_PAGE_VIRT\<close> first.\<close>

definition TEMP_PAGE_VIRT :: u32 where
  "TEMP_PAGE_VIRT = 0xFF000000"

definition create_vmm_temp :: "u32 \<Rightarrow> u32 \<Rightarrow> u32 \<Rightarrow> paging vm \<Rightarrow> (u32 \<times> paging vm) outcome" where
  "create_vmm_temp rpd lo hi s =
     (case alloc_phys_page (phys_mem (mach s)) of
        Inl e \<Rightarrow> Some (Inl e)
      | Inr (f, p) \<Rightarrow>
          (case memory_map (ucast f) TEMP_PAGE_VIRT 3 ((mach s)\<lparr>phys_mem := p\<rparr>) of
             Inl e \<Rightarrow> Some (Inl e)
           | Inr m \<Rightarrow> create_vmm rpd lo hi TEMP_PAGE_VIRT (s\<lparr>mach := m\<rparr>)))"

definition set_kernel_vmm :: "u32 \<Rightarrow> 'm vm \<Rightarrow> 'm vm" where
  "set_kernel_vmm v s = s\<lparr>kernel_vmm := v\<rparr>"

text \<open>The directory pointers of the space are entered in the (one) directory pointer table.\<close>

definition set_current_vmm :: "u32 \<Rightarrow> pae vm \<Rightarrow> pae vm" where
  "set_current_vmm v s =
     (let c = space s v; m = mach s
      in if vmm.root_pdpt c \<noteq> 0 \<and> pd_low c \<noteq> 0
         then s\<lparr>current_vmm := v, mach := m\<lparr>pdpt := (pdpt m)(0 := pd_low c OR 1, 1 := pd_mid c OR 1, 2 := pd_high c OR 1)\<rparr>\<rparr>
         else s\<lparr>current_vmm := v\<rparr>)"

section \<open>Allocation\<close>

text \<open>
  The mapping loop over the page offsets: a fresh frame for each page when \<open>phys\<close> is 0, else
  consecutive frames from \<open>phys\<close> on.
\<close>

fun map_pages ::
  "('m \<Rightarrow> (u64 \<times> 'm) result) \<Rightarrow> (u64 \<Rightarrow> u32 \<Rightarrow> u32 \<Rightarrow> 'm \<Rightarrow> 'm result) \<Rightarrow> u32 \<Rightarrow> u64 \<Rightarrow> u32 \<Rightarrow> nat list \<Rightarrow> 'm \<Rightarrow> 'm result" where
  "map_pages al mp flags phys bas [] m = Inr m"
| "map_pages al mp flags phys bas (k # ks) m =
     (case (if phys = 0 then al m else Inr ((phys AND NOT 0xFFF) + of_nat (4096 * k), m)) of
        Inl e \<Rightarrow> Inl e
      | Inr (f, m1) \<Rightarrow>
          (case mp f (bas + of_nat (4096 * k)) flags m1 of
             Inl e \<Rightarrow> Inl e
           | Inr m2 \<Rightarrow> map_pages al mp flags phys bas ks m2))"

text \<open>
  \<open>vmm_page_alloc\<close>: the length is a multiple of 4096 after rounding, so the loop maps
  \<open>length / 4096\<close> pages. The chosen region is deleted from the tree of the kernel's space whatever
  space it came from. The result NULL is 0.
\<close>

definition vmm_page_alloc ::
  "('m \<Rightarrow> (u64 \<times> 'm) result) \<Rightarrow> (u64 \<Rightarrow> u32 \<Rightarrow> u32 \<Rightarrow> 'm \<Rightarrow> 'm result) \<Rightarrow> u32 \<Rightarrow> u32 \<Rightarrow> u32 \<Rightarrow> u64 \<Rightarrow> 'm vm \<Rightarrow> (u32 \<times> 'm vm) outcome" where
  "vmm_page_alloc al mp cvmm len flags phys s =
     (let cur = root (space s cvmm); len = BYTE_PGROUNDUP len
      in if cur = 0 then Some (Inr (0, s))
         else Option.bind (best_fit_loop cur 0 len (region_nodes s))
           (\<lambda>best. if best = 0 then Some (Inr (0, s))
             else bind_out
               (let b = region_nodes s best
                in if rb_size b > len
                   then bind_out (make_node (space s cvmm) (rb_base b + len) (rb_size b - len) 0 (region_nodes s))
                          (\<lambda>(_, v, st). Some (Inr (s\<lparr>space := (space s)(cvmm := v), region_nodes := st\<rparr>)))
                   else Some (Inr s))
               (\<lambda>s1. let bas = rb_base (region_nodes s1 best); kv = kernel_vmm s1
                 in bind_out (delete_node (root (space s1 kv)) best (region_nodes s1))
                      (\<lambda>(rt, st).
                        let s2 = s1\<lparr>space := (space s1)(kv := (space s1 kv)\<lparr>root := rt\<rparr>), region_nodes := st\<rparr>
                        in case map_pages al mp flags phys bas [0..<unat len div 4096] (mach s2) of
                             Inl e \<Rightarrow> Some (Inl e)
                           | Inr m \<Rightarrow> Some (Inr (bas + (ucast phys AND 0xFFF), s2\<lparr>mach := m\<rparr>))))))"

definition alloc_frame2 :: "paging \<Rightarrow> (u64 \<times> paging) result" where
  "alloc_frame2 m = map_sum id (\<lambda>(f, p). (f, m\<lparr>phys_mem := p\<rparr>)) (alloc_phys_page (phys_mem m))"

definition alloc_frame3 :: "pae \<Rightarrow> (u64 \<times> pae) result" where
  "alloc_frame3 m = map_sum id (\<lambda>(f, p). (f, m\<lparr>pae_mem := p\<rparr>)) (alloc_phys_page (pae_mem m))"

definition map_page2 :: "u64 \<Rightarrow> u32 \<Rightarrow> u32 \<Rightarrow> paging \<Rightarrow> paging result" where
  "map_page2 phys virt flags m = memory_map (ucast phys) virt flags m"

definition page_kalloc :: "u32 \<Rightarrow> u32 \<Rightarrow> u32 \<Rightarrow> paging vm \<Rightarrow> (u32 \<times> paging vm) outcome" where
  "page_kalloc len flags phys s = vmm_page_alloc alloc_frame2 map_page2 (kernel_vmm s) len flags (ucast phys) s"

definition page_alloc :: "u32 \<Rightarrow> u32 \<Rightarrow> u32 \<Rightarrow> paging vm \<Rightarrow> (u32 \<times> paging vm) outcome" where
  "page_alloc len flags phys s = vmm_page_alloc alloc_frame2 map_page2 (current_vmm s) len flags (ucast phys) s"

text \<open>\<open>kalloc\<close> is the call that \<open>pae_mmap\<close> makes back for a missing directory.\<close>

definition pae_kalloc :: "(pae \<Rightarrow> pae result) \<Rightarrow> u32 \<Rightarrow> u32 \<Rightarrow> u64 \<Rightarrow> pae vm \<Rightarrow> (u32 \<times> pae vm) outcome" where
  "pae_kalloc kalloc len flags phys s = vmm_page_alloc alloc_frame3 (pae_mmap kalloc) (kernel_vmm s) len flags phys s"

definition pae_alloc :: "(pae \<Rightarrow> pae result) \<Rightarrow> u32 \<Rightarrow> u32 \<Rightarrow> u64 \<Rightarrow> pae vm \<Rightarrow> (u32 \<times> pae vm) outcome" where
  "pae_alloc kalloc len flags phys s = vmm_page_alloc alloc_frame3 (pae_mmap kalloc) (current_vmm s) len flags phys s"

definition alloc_stack :: "(pae \<Rightarrow> pae result) \<Rightarrow> u32 \<Rightarrow> pae vm \<Rightarrow> (u32 \<times> pae vm) outcome" where
  "alloc_stack kalloc process_vmm s =
     bind_out (pae_alloc kalloc 0x1000 3 0 (s\<lparr>current_vmm := process_vmm\<rparr>))
       (\<lambda>(stack_top, s1). Some (Inr (stack_top + 0xFFF, s1)))"

section \<open>Release\<close>

text \<open>The 32-bit word at a virtual address that points into a page of tables.\<close>

definition read_word :: "u32 \<Rightarrow> paging \<Rightarrow> u32 result" where
  "read_word va m =
     (case walk m va of None \<Rightarrow> Inl (PageFault va) | Some f \<Rightarrow> Inr (tables m f (unat (va AND 0xFFF) div 4)))"

text \<open>
  \<open>vmm_page_free\<close> follows the directory entry, a physical address, as a pointer, and indexes the table
  with \<open>(addr >> 12) & ~0x3FF\<close>.
\<close>

definition vmm_page_free :: "u32 \<Rightarrow> u32 \<Rightarrow> paging vm \<Rightarrow> paging vm outcome" where
  "vmm_page_free cvmm addr s =
     (let page_table = pde (mach s) (unat (drop_bit 22 addr)) AND NOT 0x3FF
      in if page_table = 0 then Some (Inr s)
         else case read_word (page_table + 4 * (drop_bit 12 addr AND NOT 0x3FF)) (mach s) of
                Inl e \<Rightarrow> Some (Inl e)
              | Inr page \<Rightarrow>
                  if page AND 1 = 0 then Some (Inr s)
                  else bind_out (make_node (space s cvmm) addr 4096 0 (region_nodes s))
                         (\<lambda>(_, v, st). case memory_unmap addr (mach s) of
                            Inl e \<Rightarrow> Some (Inl e)
                          | Inr m \<Rightarrow> Some (Inr (s\<lparr>space := (space s)(cvmm := v), region_nodes := st, mach := m\<rparr>))))"

text \<open>\<open>pae_page_free\<close> shifts by 29, masks the entry with \<open>0x3ff\<close> and writes the table's own first entry.\<close>

definition pae_page_free :: "u32 \<Rightarrow> pae \<Rightarrow> pae result" where
  "pae_page_free addr m =
     (let pdpte = unat (drop_bit 29 addr); pd_entry = pae_pd_index addr; pt_entry = pae_pt_index addr;
          pt = table_addr pdpte pd_entry
      in case read_table64 pt pt_entry m of
           Inl e \<Rightarrow> Inl e
         | Inr v \<Rightarrow>
             (case write_table64 pt 0 (ucast (pt AND NOT 1)) m of
                Inl e \<Rightarrow> Inl e
              | Inr m1 \<Rightarrow>
                  pae_unmap addr (m1\<lparr>pae_mem := clear_frame (physical_to_frame (ucast (v AND 0x3ff))) (pae_mem m1)\<rparr>)))"

definition page_kfree :: "u32 \<Rightarrow> paging vm \<Rightarrow> paging vm outcome" where
  "page_kfree addr s = vmm_page_free (kernel_vmm s) addr s"

definition page_free :: "u32 \<Rightarrow> paging vm \<Rightarrow> paging vm outcome" where
  "page_free addr s = vmm_page_free (current_vmm s) addr s"

text \<open>\<open>pae_page_free\<close> does not use the space it is given.\<close>

definition pae_kfree :: "u32 \<Rightarrow> pae vm \<Rightarrow> pae vm result" where
  "pae_kfree addr s = map_sum id (\<lambda>m. s\<lparr>mach := m\<rparr>) (pae_page_free addr (mach s))"

definition pae_free :: "u32 \<Rightarrow> pae vm \<Rightarrow> pae vm result" where
  "pae_free addr s = map_sum id (\<lambda>m. s\<lparr>mach := m\<rparr>) (pae_page_free addr (mach s))"

text \<open>\<open>init_user_memory\<close> only takes a page.\<close>

definition init_user_memory :: "paging vm \<Rightarrow> paging vm outcome" where
  "init_user_memory s = bind_out (page_kalloc 4096 3 0 s) (\<lambda>(store, s'). Some (Inr s'))"

section \<open>A space with one free region\<close>

text \<open>
  The state after \<open>create_vmm\<close> and after every allocation that is not exact: the tree is one
  node; the first \<open>k\<close> slots are marked used and those up to \<open>limit\<close> are free and blank.
\<close>

definition slot :: "vmm \<Rightarrow> nat \<Rightarrow> u32" where
  "slot v j = vm_obj_store_addr v + 48 + of_nat j * 32"

definition free_slot :: "store \<Rightarrow> u32 \<Rightarrow> bool" where
  "free_slot st n \<longleftrightarrow> n \<noteq> 0 \<and> rb_flags (st n) AND 1 = 0 \<and> left (st n) = 0 \<and> right (st n) = 0"

definition lone_region :: "vmm \<Rightarrow> store \<Rightarrow> u32 \<Rightarrow> u32 \<Rightarrow> nat \<Rightarrow> nat \<Rightarrow> bool" where
  "lone_region v st bas siz k limit \<longleftrightarrow>
     root v \<noteq> 0 \<and> left (st (root v)) = 0 \<and> right (st (root v)) = 0 \<and> parent (st (root v)) = 0 \<and>
     rb_base (st (root v)) = bas \<and> rb_size (st (root v)) = siz \<and>
     rb_flags (st (root v)) AND 1 \<noteq> 0 \<and> limit \<le> 128 \<and>
     (\<forall>j<k. rb_flags (st (slot v j)) AND 1 \<noteq> 0) \<and> (\<forall>j. k \<le> j \<and> j < limit \<longrightarrow> free_slot st (slot v j))"

lemma slot_eq: "i < 128 \<Longrightarrow> j < 128 \<Longrightarrow> slot v i = slot v j \<longleftrightarrow> i = j"
proof -
  assume "i < 128" "j < 128"
  then have "unat (of_nat i * 32 :: u32) = i * 32" "unat (of_nat j * 32 :: u32) = j * 32"
    using unat_of_nat_u32 [of "i * 32"] unat_of_nat_u32 [of "j * 32"] by simp_all
  then show ?thesis
    unfolding slot_def by (metis add_left_cancel mult_cancel2 zero_neq_numeral)
qed

lemma lone_find_slot:
  assumes "lone_region v st bas siz k limit" "k < limit"
  shows "find_slot (vm_obj_store_addr v + sizeof_vmm) st = Some (slot v k)"
proof -
  have "find_slot (vm_obj_store_addr v + 48) st = Some (vm_obj_store_addr v + 48 + of_nat k * 32)"
    using assms by (intro find_slot_first) (simp_all add: lone_region_def slot_def free_slot_def)
  then show ?thesis by (simp add: slot_def sizeof_vmm_def)
qed

text \<open>Entering a smaller region makes it the red left child of the root, which is coloured black.\<close>

definition cut_entered :: "u32 \<Rightarrow> u32 \<Rightarrow> u32 \<Rightarrow> u32 \<Rightarrow> store \<Rightarrow> store" where
  "cut_entered r n bas siz st =
     st(n := (st n)\<lparr>rb_flags := 3, rb_size := siz, rb_id := 0, rb_base := bas, parent := r, color := RED\<rparr>,
        r := (st r)\<lparr>left := n, color := BLACK\<rparr>)"

lemma make_node_cut:
  assumes lone: "lone_region v st bas siz k limit" and k: "k < limit" and le: "z \<le> siz"
  shows "make_node v b z 0 st = Some (Inr (slot v k, v, cut_entered (root v) (slot v k) b z st))"
proof -
  let ?r = "root v" and ?n = "slot v k"
  have fr: "free_slot st ?n"
    using lone k by (simp add: lone_region_def)
  have ne: "?n \<noteq> ?r" "?r \<noteq> ?n" "?n \<noteq> 0" "?r \<noteq> 0"
    using lone fr by (auto simp: lone_region_def free_slot_def)
  have al: "alloc_node_obj v st = Some (?n, st(?n := (st ?n)\<lparr>rb_flags := 3\<rparr>))"
    by (simp add: alloc_node_obj_def lone_find_slot [OF lone k])
  have r: "left (st ?r) = 0" "right (st ?r) = 0" "rb_size (st ?r) = siz" "parent (st ?r) = 0"
    using lone by (simp_all add: lone_region_def)
  have d: "descend ?r 0 False z s = Some (?r, False)" if "left (s ?r) = 0" "rb_size (s ?r) = siz" for s
    using that ne leD [OF le] by (subst descend.simps) (simp add: descend.simps [of 0])
  define st1 where "st1 = st(?n := (st ?n)\<lparr>rb_flags := 3, rb_size := z, rb_id := 0, rb_base := b\<rparr>)"
  define st2 where "st2 = set_color ?n RED (set_parent ?n ?r (set_left ?r ?n (set_color ?r BLACK st1)))"
  have "insert_node ?r ?n st1 = Some (Inr (?r, st2))"
    using ne r d by (simp add: insert_node_def st1_def st2_def set_color_def set_left_def set_parent_def Let_def)
  moreover have "st2 = cut_entered ?r ?n b z st"
    using ne by (intro ext) (simp add: st2_def st1_def cut_entered_def set_color_def set_left_def set_parent_def)
  ultimately show ?thesis
    using ne by (simp add: make_node_def al st1_def)
qed

text \<open>Deleting the root, whose only child is that node: the root takes over the child's region; it is black only
  when it is the root \<open>rt\<close> that the deletion is given.\<close>

definition cut_taken :: "u32 \<Rightarrow> u32 \<Rightarrow> u32 \<Rightarrow> store \<Rightarrow> store" where
  "cut_taken rt r n st =
     st(r := (st r)\<lparr>rb_base := rb_base (st n), rb_size := rb_size (st n), rb_flags := 3,
          color := (if r = rt then BLACK else RED), left := 0, right := 0\<rparr>,
        n := (st n)\<lparr>rb_flags := 1, rb_base := 0\<rparr>)"

lemma delete_node_cut:
  assumes "r \<noteq> n" "n \<noteq> 0" "r \<noteq> 0" "left (st r) = n" "right (st r) = 0"
    and "left (st n) = 0" "right (st n) = 0" "parent (st n) = r" "color (st n) = RED" "rb_flags (st n) = 3"
  shows "delete_node rt r st = Some (Inr (rt, cut_taken rt r n st))"
proof -
  let ?s1 = "copy_region r n st"
  let ?s2 = "set_left r 0 (set_right r 0 (set_color r RED ?s1))"
  let ?s3 = "if r = rt then set_color r BLACK ?s2 else ?s2"
  have s1: "?s1 n = st n"
    using assms by (simp add: copy_region_def)
  have "delete_violations rt n ?s1 = Some (Inr (rt, ?s1))"
    using assms s1 by (intro violations_red) simp_all
  then have "delete_node rt r st = Some (Inr (rt, free_node_obj n ?s3))"
    using assms s1 by (cases "rt = r") (simp_all add: delete_node_def delete_single_def set_color_def set_left_def set_right_def Let_def)
  also have "free_node_obj n ?s3 = cut_taken rt r n st"
    using assms by (cases "st r"; cases "rt = r")
      (simp_all add: free_node_obj_def cut_taken_def copy_region_def set_color_def set_left_def set_right_def)
  finally show ?thesis .
qed

lemma best_fit_lone:
  "lone_region v st bas siz k limit \<Longrightarrow> len < siz \<Longrightarrow> best_fit_loop (root v) 0 len st = Some (root v)"
  by (subst best_fit_loop.simps) (auto simp: lone_region_def best_fit_loop.simps [of 0] not_le)

lemma lone_after_cut:
  assumes lone: "lone_region v st bas siz k limit" and k: "k < limit"
  shows "lone_region v (cut_taken rt (root v) (slot v k) (cut_entered (root v) (slot v k) b z st)) b z (Suc k) limit"
proof -
  let ?r = "root v" and ?n = "slot v k"
  let ?st = "cut_taken rt ?r ?n (cut_entered ?r ?n b z st)"
  have fr: "free_slot st (slot v j)" if "k \<le> j" "j < limit" for j
    using lone that by (simp add: lone_region_def)
  have used: "rb_flags (st ?r) AND 1 \<noteq> 0" "limit \<le> 128" "?r \<noteq> 0"
    using lone by (simp_all add: lone_region_def)
  have ne: "slot v j \<noteq> ?r" if "k \<le> j" "j < limit" for j
    using fr [OF that] used by (auto simp: free_slot_def)
  have r: "?st ?r = (st ?r)\<lparr>rb_base := b, rb_size := z, rb_flags := 3,
      color := (if ?r = rt then BLACK else RED), left := 0, right := 0\<rparr>"
    using ne [of k] k by (simp add: cut_taken_def cut_entered_def)
  have n: "rb_flags (?st ?n) = 1"
    by (simp add: cut_taken_def)
  have other: "?st q = st q" if "q \<noteq> ?r" "q \<noteq> ?n" for q
    using that by (simp add: cut_taken_def cut_entered_def)
  have "rb_flags (?st (slot v j)) AND 1 \<noteq> 0" if "j < Suc k" for j
  proof (cases "j = k")
    case False
    then have "rb_flags (st (slot v j)) AND 1 \<noteq> 0" "slot v j \<noteq> ?n"
      using lone that slot_eq [of j k v] k used by (simp_all add: lone_region_def)
    then show ?thesis
      using r other by (cases "slot v j = ?r") simp_all
  qed (use n in simp)
  moreover have "free_slot ?st (slot v j)" if "Suc k \<le> j" "j < limit" for j
  proof -
    have "slot v j \<noteq> ?n"
      using that slot_eq [of j k v] used by simp
    then show ?thesis
      using other [of "slot v j"] ne [of j] fr [of j] that by (simp add: free_slot_def)
  qed
  ultimately show ?thesis
    using lone r used by (simp add: lone_region_def)
qed

lemma vmm_alloc_lone:
  fixes s :: "'m vm"
  assumes lone: "lone_region (space s c) (region_nodes s) bas siz k limit" and k: "k < limit"
    and len: "BYTE_PGROUNDUP len < siz"
  shows "\<exists>st. lone_region (space s c) st (bas + BYTE_PGROUNDUP len) (siz - BYTE_PGROUNDUP len) (Suc k) limit \<and>
    vmm_page_alloc al mp c len flags phys s =
      Some (map_sum id (\<lambda>m. (bas + (ucast phys AND 0xFFF), s\<lparr>region_nodes := st, mach := m\<rparr>))
        (map_pages al mp flags phys bas [0..<unat (BYTE_PGROUNDUP len) div 4096] (mach s)))"
proof -
  let ?v = "space s c" and ?st = "region_nodes s" and ?l = "BYTE_PGROUNDUP len"
  let ?r = "root ?v" and ?n = "slot ?v k" and ?rt = "root (space s (kernel_vmm s))"
  have r: "?r \<noteq> 0" "rb_base (?st ?r) = bas" "rb_size (?st ?r) = siz" "right (?st ?r) = 0"
    using lone by (simp_all add: lone_region_def)
  have n: "free_slot ?st ?n"
    using lone k by (simp add: lone_region_def)
  then have ne: "?r \<noteq> ?n" "?n \<noteq> 0"
    using lone by (auto simp: lone_region_def free_slot_def)
  let ?e = "cut_entered ?r ?n (bas + ?l) (siz - ?l) ?st"
  have mk: "make_node ?v (bas + ?l) (siz - ?l) 0 ?st = Some (Inr (?n, ?v, ?e))"
    using make_node_cut [OF lone k] len by (simp add: word_le_nat_alt word_less_nat_alt unat_sub)
  have dl: "delete_node ?rt ?r ?e = Some (Inr (?rt, cut_taken ?rt ?r ?n ?e))"
    using ne n r by (intro delete_node_cut) (simp_all add: cut_entered_def free_slot_def)
  have e: "rb_base (?e ?r) = bas"
    using ne r by (simp add: cut_entered_def)
  have same: "(space s)(kernel_vmm s := (space s (kernel_vmm s))\<lparr>root := ?rt\<rparr>) = space s"
    by (rule ext) simp
  have "vmm_page_alloc al mp c len flags phys s =
      Some (map_sum id (\<lambda>m. (bas + (ucast phys AND 0xFFF), s\<lparr>region_nodes := cut_taken ?rt ?r ?n ?e, mach := m\<rparr>))
        (map_pages al mp flags phys bas [0..<unat ?l div 4096] (mach s)))"
    using r len best_fit_lone [OF lone len] mk dl e same
    by (simp add: vmm_page_alloc_def Let_def split: sum.split)
  then show ?thesis
    using lone_after_cut [OF lone k] by blast
qed


lemma unat_160: "unat (160 :: u32) = 160"
  by simp

definition demo_space :: "paging vm" where
  "demo_space = \<lparr>space = (\<lambda>_. demo_vmm), region_nodes = demo_store, kernel_vmm = 64, current_vmm = 0, mach = demo_paging\<rparr>"

lemma demo_lone: "lone_region (space demo_space 64) (region_nodes demo_space) 0x100000 0x8000 1 125"
proof -
  have slots: "slot demo_vmm j = 160 + of_nat j * 32" for j
    by (simp add: slot_def demo_vmm_def)
  have "free_slot demo_store (160 + of_nat j * 32)" if "1 \<le> j" "j < 125" for j
  proof -
    have eq: "160 + of_nat j * 32 = (of_nat (160 + j * 32) :: u32)"
      by simp
    have u: "unat (160 + of_nat j * 32 :: u32) = 160 + j * 32"
      unfolding eq using that by (intro unat_of_nat_u32) simp
    have "160 + of_nat j * 32 \<noteq> (0 :: u32)" "160 + of_nat j * 32 \<noteq> (160 :: u32)"
      using u unat_160 that by auto
    then show ?thesis
      by (simp add: free_slot_def demo_store_def blank_node_def)
  qed
  then show ?thesis
    unfolding lone_region_def demo_space_def by (simp add: slots) (simp add: demo_vmm_def demo_store_def blank_node_def)
qed

lemma round_demo: "BYTE_PGROUNDUP 0x1000 = 0x1000" "kernel_vmm demo_space = 64"
  by (simp_all add: BYTE_PGROUNDUP_def demo_space_def)


text \<open>
  Creating an address space in a page that does not wrap: the new space has one free region, which
  starts at the rounded lower bound and whose size is the upper bound itself, and 124 node slots
  left, so that allocation can go on. Nothing else changes.
\<close>

lemma create_vmm_region:
  fixes s :: "'m vm"
  assumes page: "store_page \<noteq> 0" "unat store_page + 4096 \<le> 2 ^ 32"
  shows "\<exists>v st. create_vmm rpd lo hi store_page s =
      Some (Inr (store_page, s\<lparr>space := (space s)(store_page := v), region_nodes := st\<rparr>)) \<and>
    lone_region v st (BYTE_PGROUNDUP lo) hi 1 125 \<and> low v = BYTE_PGROUNDUP lo \<and> high v = hi \<and>
    (\<forall>a. \<not> in_page store_page a \<longrightarrow> st a = region_nodes s a) \<and>
    v = (init_space (if kernel_vmm s \<noteq> 0 then vmm.root_pdpt (space s (kernel_vmm s)) else 0) rpd lo hi store_page)
      \<lparr>root := store_page + 96\<rparr>"
proof -
  define pdp where "pdp = (if kernel_vmm s \<noteq> 0 then vmm.root_pdpt (space s (kernel_vmm s)) else 0)"
  define v where "v = init_space pdp rpd lo hi store_page"
  define st0 where "st0 = (\<lambda>a. if in_page store_page a then zero_node else region_nodes s a)"
  define st where "st = st0(slot v 0 := zero_node\<lparr>rb_flags := 3, rb_size := hi, rb_id := 0, rb_base := BYTE_PGROUNDUP lo, color := BLACK\<rparr>)"
  have slots: "slot v j = store_page + of_nat (96 + 32 * j)" for j
    by (simp add: slot_def v_def init_space_def sizeof_vmm_def)
  have d: "unat (slot v j - store_page) = 96 + 32 * j" "slot v j \<noteq> 0" if "j < 125" for j
  proof -
    show "unat (slot v j - store_page) = 96 + 32 * j"
      using that unat_of_nat_u32 [of "96 + 32 * j"] by (simp add: slots)
    have "slot v j = of_nat (unat store_page + (96 + 32 * j))"
      by (simp add: slots)
    moreover have "unat store_page + (96 + 32 * j) < 2 ^ 32"
      using that page(2) by simp
    ultimately have "unat (slot v j) = unat store_page + (96 + 32 * j)"
      using unat_of_nat_u32 by metis
    then show "slot v j \<noteq> 0" by auto
  qed
  have blank: "st0 (slot v j) = zero_node" "in_page store_page (slot v j)" if "j < 125" for j
    using d(1) [OF that] that by (simp_all add: st0_def in_page_def)
  have "find_slot (vm_obj_store_addr v + sizeof_vmm) st0 = Some (slot v 0)"
    using blank [of 0] by (subst find_slot.simps) (simp add: slot_def sizeof_vmm_def zero_node_def)
  then have "make_node v (BYTE_PGROUNDUP lo) hi 0 st0 = Some (Inr (slot v 0, v\<lparr>root := slot v 0\<rparr>, st))"
    using blank [of 0] by (simp add: make_node_def alloc_node_obj_def st_def v_def init_space_def zero_node_def)
  then have "create_vmm rpd lo hi store_page s =
      Some (Inr (store_page, s\<lparr>space := (space s)(store_page := v\<lparr>root := slot v 0\<rparr>), region_nodes := st\<rparr>))"
    by (simp add: create_vmm_def pdp_def v_def st0_def init_space_def Let_def)
  moreover have "slot (v\<lparr>root := slot v 0\<rparr>) j = slot v j" for j
    by (simp add: slot_def)
  moreover have "free_slot st (slot v j)" if "1 \<le> j" "j < 125" for j
    using blank(1) d(2) that slot_eq [of j 0 v] by (simp add: free_slot_def st_def zero_node_def)
  moreover have "slot v 0 = store_page + 96"
    by (simp add: slots)
  ultimately show ?thesis
    using blank(2) [of 0] d(2) [of 0]
    by (intro exI [of _ "v\<lparr>root := slot v 0\<rparr>"] exI [of _ st])
      (auto simp: lone_region_def st_def zero_node_def v_def init_space_def st0_def pdp_def)
qed

text \<open>
  Requests that are refused: when every free region of the space is smaller than the rounded
  request, or the space has no region at all, the result is NULL and nothing changes.
\<close>

theorem vmm_alloc_refuses:
  fixes s :: "'m vm"
  assumes T: "region_tree (region_nodes s) (root (space s c)) T"
    and small: "\<forall>a\<in>nodes T. rb_size (region_nodes s a) < BYTE_PGROUNDUP len"
  shows "vmm_page_alloc al mp c len flags phys s = Some (Inr (0, s))"
proof -
  let ?st = "region_nodes s" and ?l = "BYTE_PGROUNDUP len"
  have *: "tree_at ?st 0 (root (space s c)) T" "sorted (sizes ?st (inorder T))"
    using T by (simp_all add: region_tree_def)
  obtain b where "best_fit_loop (root (space s c)) 0 ?l ?st = Some b" "b = 0 \<or> b \<in> nodes T \<and> ?l \<le> rb_size (?st b)"
    using best_fit_loop_ok [OF *, of 0 ?l] by blast
  then have "best_fit_loop (root (space s c)) 0 ?l ?st = Some 0"
    using small by (auto dest: leD)
  then show ?thesis
    by (simp add: vmm_page_alloc_def Let_def)
qed

lemma vmm_alloc_refuses_witness:
  "vmm_page_alloc alloc_frame2 map_page2 64 0x9000 3 0x7000 demo_space = Some (Inr (0, demo_space))"
proof (rule vmm_alloc_refuses)
  show "region_tree (region_nodes demo_space) (root (space demo_space 64)) (Nd Lf 160 BLACK Lf)"
    using demo_region by (simp add: demo_space_def demo_vmm_def)
  show "\<forall>a\<in>nodes (Nd Lf 160 BLACK Lf). rb_size (region_nodes demo_space a) < BYTE_PGROUNDUP 0x9000"
    by (simp add: demo_space_def demo_store_def blank_node_def BYTE_PGROUNDUP_def)
qed

lemma ucast_up_down: "ucast (ucast (w :: u32) :: u64) = (w :: u32)"
  by (rule bit_word_eqI) (simp add: bit_ucast_iff)

end
