(* ===== verification/Ahci.thy ===== *)
theory Ahci
  imports Bytes Vmm
begin

text \<open>
  The disk driver of \<open>kernel/ahci/ahci.c\<close>. The registers of a port are a record; the command list,
  the command tables and the buffers are byte memory. The disk controller is the argument \<open>hw\<close>: what it
  does to the registers and the memory before each read of a loop that waits for it.
\<close>

section \<open>State\<close>

record hba_port =
  pxclb :: u32
  pxclbu :: u32
  pxfb :: u32
  pxfbu :: u32
  pxis :: u32
  pxie :: u32
  pxcmd :: u32
  pxtfd :: u32
  pxsig :: u32
  pxssts :: u32
  pxsctl :: u32
  pxserr :: u32
  pxsact :: u32
  pxci :: u32

type_synonym io = "hba_port \<times> mem"

record ahci_ram_ports =
  port_addr :: u32
  clb_addr :: u32
  ctlb_addr :: u32
  fb_addr :: u32
  sig :: u16
  cap :: u16
  cmd_set :: u32
  sector_words :: u32
  lba_count :: u64
  model :: "u8 list"

text \<open>\<open>sata_ports\<close> is the array list as the list of its elements; a fresh list element is zero.\<close>

record ahci =
  GlobHostCtrl :: u32
  regs :: "u32 \<Rightarrow> hba_port"
  sata_ports :: "ahci_ram_ports list"
  amem :: mem
  avm :: "pae vm"

definition ram_port_zero :: ahci_ram_ports where
  "ram_port_zero = \<lparr>port_addr = 0, clb_addr = 0, ctlb_addr = 0, fb_addr = 0, sig = 0, cap = 0, cmd_set = 0,
     sector_words = 0, lba_count = 0, model = replicate 41 0\<rparr>"

definition PxCMD_ST :: u32 where
  "PxCMD_ST = 1"

definition PxCMD_FRE :: u32 where
  "PxCMD_FRE = 0x10"

definition PxCMD_FR :: u32 where
  "PxCMD_FR = 0x4000"

definition PxCMD_CR :: u32 where
  "PxCMD_CR = 0x8000"

definition ATA_CMD_DMA_WRITE_EXT :: u8 where
  "ATA_CMD_DMA_WRITE_EXT = 0x35"

definition ATA_CMD_DMA_READ_EXT :: u8 where
  "ATA_CMD_DMA_READ_EXT = 0x25"

section \<open>Ports\<close>

definition check_device :: "hba_port \<Rightarrow> u32" where
  "check_device p =
     (if drop_bit 8 (pxssts p) AND 0x0F \<noteq> 1 then 0
      else if pxssts p AND 0x0F \<noteq> 3 then 0
      else if pxsig p = 0x00000101 then 1
      else if pxsig p = 0xEB140101 then 2
      else if pxsig p = 0xC33C0101 then 3
      else if pxsig p = 0x96690101 then 4
      else 0)"

text \<open>
  The distance of two elements of \<open>ports\<close> is the size of the C struct, 100 bytes. \<open>probe_loop\<close> visits
  the set bits of the ports register and appends the SATA disks.
\<close>

definition hba_port_addr :: "u32 \<Rightarrow> u8 \<Rightarrow> u32" where
  "hba_port_addr hba i = hba + 0x100 + ucast i * 100"

function probe_loop :: "u32 \<Rightarrow> u32 \<Rightarrow> u8 \<Rightarrow> ahci \<Rightarrow> ahci" where
  "probe_loop hba pi i s =
     (if pi = 0 then s
      else let cur = hba_port_addr hba i;
               s1 = (if pi AND 1 \<noteq> 0 \<and> check_device (regs s cur) = 1
                     then s\<lparr>sata_ports := sata_ports s @ [ram_port_zero\<lparr>port_addr := cur\<rparr>]\<rparr> else s)
           in probe_loop hba (drop_bit 1 pi) (i + 1) s1)"
  by auto
termination
proof (relation "measure (\<lambda>(hba, pi, i, s). unat pi)")
  fix pi :: u32
  assume "pi \<noteq> 0"
  then have "0 < unat pi"
    by (simp add: unat_gt_0)
  then have "unat (drop_bit 1 pi) < unat pi"
    by (simp add: unsigned_drop_bit_eq drop_bit_eq_div unat_div)
  then show "((hba, drop_bit 1 pi, i + 1, s1), (hba, pi, i, s)) \<in> measure (\<lambda>(hba, pi, i, s). unat pi)"
    for hba i and s s1 :: ahci and i' :: u8
    by simp
qed simp

declare probe_loop.simps [simp del]

definition probe_ports :: "u32 \<Rightarrow> u32 \<Rightarrow> ahci \<Rightarrow> ahci" where
  "probe_ports hba ports s = probe_loop hba ports 0 s"

partial_function (option) wait_idle :: "(io \<Rightarrow> io) \<Rightarrow> io \<Rightarrow> io option" where
  "wait_idle hw s =
     (let s1 = hw s in if pxcmd (fst s1) AND PxCMD_CR \<noteq> 0 then wait_idle hw s1 else Some s1)"

declare wait_idle.simps [code]

definition start_commands :: "(io \<Rightarrow> io) \<Rightarrow> io \<Rightarrow> io option" where
  "start_commands hw s =
     map_option (\<lambda>(p, m).
       let p1 = p\<lparr>pxcmd := pxcmd p OR PxCMD_FRE\<rparr> in (p1\<lparr>pxcmd := pxcmd p1 OR PxCMD_ST\<rparr>, m)) (wait_idle hw s)"

partial_function (option) wait_stopped :: "(io \<Rightarrow> io) \<Rightarrow> io \<Rightarrow> io option" where
  "wait_stopped hw s =
     (let s1 = hw s in
      if pxcmd (fst s1) AND PxCMD_FR \<noteq> 0 then wait_stopped hw s1
      else let s2 = hw s1 in if pxcmd (fst s2) AND PxCMD_CR \<noteq> 0 then wait_stopped hw s2 else Some s2)"

declare wait_stopped.simps [code]

definition stop_commands :: "(io \<Rightarrow> io) \<Rightarrow> io \<Rightarrow> io option" where
  "stop_commands hw s =
     (case s of (p, m) \<Rightarrow>
        let p1 = p\<lparr>pxcmd := pxcmd p AND NOT PxCMD_ST\<rparr>
        in wait_stopped hw (p1\<lparr>pxcmd := pxcmd p1 AND NOT PxCMD_FRE\<rparr>, m))"

section \<open>Commands\<close>

text \<open>\<open>find_cmd_slot\<close>: the loop over 32 slots shifts the busy bits right.\<close>

fun slot_loop :: "nat list \<Rightarrow> u32 \<Rightarrow> nat option" where
  "slot_loop [] slots = None"
| "slot_loop (i # is) slots = (if slots AND 1 = 0 then Some i else slot_loop is (drop_bit 1 slots))"

definition find_cmd_slot :: "hba_port \<Rightarrow> nat result" where
  "find_cmd_slot p =
     (case slot_loop [0..<32] (pxsact p OR pxci p) of
        None \<Rightarrow> Inl (Panic ''No AHCI Free port found!'') | Some i \<Rightarrow> Inr i)"

text \<open>
  The command table has the command at offset 0 and the scatter list at offset 128, 16 bytes for an entry.
  The list's loop reads its bound from the command header in memory each time.
\<close>

definition prdt_entry :: "u32 \<Rightarrow> int \<Rightarrow> u32" where
  "prdt_entry tbl e = tbl + 128 + 16 * of_int e"

function prdt_loop :: "nat \<Rightarrow> u32 \<Rightarrow> u32 \<Rightarrow> u64 \<Rightarrow> mem \<Rightarrow> nat \<times> mem" where
  "prdt_loop e tbl chdr buf_phys m =
     (if e < unat (get16 m (chdr + 2)) then
        let a = prdt_entry tbl (int e);
            m1 = put32 a (ucast buf_phys) m;
            m2 = put32 (a + 4) (ucast (drop_bit 31 buf_phys)) m1;
            m3 = put32 (a + 12) (1024 * 8 - 1) m2
        in prdt_loop (Suc e) tbl chdr (buf_phys + 4 * 1024) m3
      else (e, m))"
  by auto
termination
proof (relation "measure (\<lambda>(e, tbl, chdr, phys, m). 65536 - e)")
  fix e m and tbl chdr :: u32 and phys :: u64 and m' :: mem
  assume "e < unat (get16 m (chdr + 2))"
  then have "e < 65536"
    using unat_lt_u16 [of "get16 m (chdr + 2)"] by linarith
  then show "((Suc e, tbl, chdr, phys + 4 * 1024, m'), (e, tbl, chdr, phys, m)) \<in> measure (\<lambda>(e, tbl, chdr, phys, m). 65536 - e)"
    by simp
qed simp

declare prdt_loop.simps [simp del]

definition fill_fis :: "u32 \<Rightarrow> u8 \<Rightarrow> u64 \<Rightarrow> u32 \<Rightarrow> mem \<Rightarrow> mem" where
  "fill_fis cmd command lba cnt m =
     m(cmd := 0x27, cmd + 2 := command, cmd + 7 := 0x40, cmd + 1 := 0x80,
       cmd + 4 := ucast lba, cmd + 5 := ucast (drop_bit 8 lba), cmd + 6 := ucast (drop_bit 16 lba),
       cmd + 8 := ucast (drop_bit 24 lba), cmd + 9 := 0, cmd + 10 := 0,
       cmd + 12 := ucast cnt, cmd + 13 := 0)"

text \<open>The memory that \<open>post_ata_command\<close> prepares for slot \<open>sl\<close>.\<close>

definition build_command :: "ahci_ram_ports \<Rightarrow> nat \<Rightarrow> u64 \<Rightarrow> u64 \<Rightarrow> u32 \<Rightarrow> u8 \<Rightarrow> mem \<Rightarrow> mem result" where
  "build_command ram sl buf_phys lba cnt command m =
     (let tbl = ctlb_addr ram + 256 * of_nat sl;
          m1 = snd (memset tbl 0 (256 + 0x20) m);
          m2 = snd (memset tbl 0 20 m1);
          m3 = snd (memset (fb_addr ram) 0 0x200 m2);
          chdr = clb_addr ram + 32 * of_nat sl;
          m4 = put16 chdr 5 m3
      in if command \<noteq> ATA_CMD_DMA_READ_EXT \<and> command \<noteq> ATA_CMD_DMA_WRITE_EXT
         then Inl (Panic ''Command not supported'')
         else let m5 = put16 chdr (if command = ATA_CMD_DMA_READ_EXT then get16 m4 chdr AND NOT 0x40
                                   else get16 m4 chdr OR 0x40) m4;
                  m6 = put16 (chdr + 2) (ucast (drop_bit 4 (cnt - 1) + 1)) m5;
                  m7 = put32 (chdr + 4) 0 m6;
                  m8 = fill_fis tbl command lba cnt m7;
                  (e, m9) = prdt_loop 0 tbl chdr buf_phys m8
              in Inr (put32 (prdt_entry tbl (int e - 1) + 12) 0x80000800 m9))"

text \<open>The bounded wait: the number is how many of the ten million rounds are left.\<close>

fun wait_issued :: "(io \<Rightarrow> io) \<Rightarrow> nat \<Rightarrow> nat \<Rightarrow> io \<Rightarrow> nat \<times> io" where
  "wait_issued hw sl 0 s = (0, s)"
| "wait_issued hw sl (Suc n) s =
     (let s1 = hw s in if pxci (fst s1) AND push_bit sl 1 \<noteq> 0 then wait_issued hw sl n s1 else (Suc n, s1))"

definition post_ata_command ::
  "(io \<Rightarrow> io) \<Rightarrow> pae \<Rightarrow> ahci_ram_ports \<Rightarrow> u64 \<Rightarrow> u32 \<Rightarrow> u32 \<Rightarrow> u8 \<Rightarrow> io \<Rightarrow> io result" where
  "post_ata_command hw pg ram lba cnt buffer command s =
     (case s of (p, m) \<Rightarrow>
        case find_cmd_slot p of
          Inl e \<Rightarrow> Inl e
        | Inr sl \<Rightarrow>
            (case get_phys_from_virt buffer pg of
               Inl e \<Rightarrow> Inl e
             | Inr page \<Rightarrow>
                 let p1 = p\<lparr>pxis := 0xffffffff\<rparr>\<lparr>pxie := 0xffffffff\<rparr>
                 in (case build_command ram sl (page + ucast (buffer AND 0xfff)) lba cnt command m of
                       Inl e \<Rightarrow> Inl e
                     | Inr m1 \<Rightarrow>
                         let (rest, s2) = wait_issued hw sl 10000000 (p1\<lparr>pxci := pxci p1 OR 1\<rparr>, m1)
                         in if rest = 0 then Inl (Panic ''SATA Port timed out'') else Inr s2)))"

text \<open>The first disk. On an empty list this reads the zeroed element, whose \<open>port\<close> is NULL.\<close>

definition first_port :: "ahci \<Rightarrow> ahci_ram_ports" where
  "first_port s = (case sata_ports s of [] \<Rightarrow> ram_port_zero | r # rs \<Rightarrow> r)"

definition ahci_command ::
  "(io \<Rightarrow> io) \<Rightarrow> u64 \<Rightarrow> u32 \<Rightarrow> u32 \<Rightarrow> u8 \<Rightarrow> ahci \<Rightarrow> ahci result" where
  "ahci_command hw lba cnt buffer command s =
     (let r = first_port s; a = port_addr r
      in if a = 0 then Inl (PageFault 0x34)
         else map_sum id (\<lambda>(p, m). s\<lparr>regs := (regs s)(a := p), amem := m\<rparr>)
                (post_ata_command hw (mach (avm s)) r lba cnt buffer command (regs s a, amem s)))"

definition ahci_read :: "(io \<Rightarrow> io) \<Rightarrow> u64 \<Rightarrow> u32 \<Rightarrow> u32 \<Rightarrow> ahci \<Rightarrow> ahci result" where
  "ahci_read hw lba cnt buffer s = ahci_command hw lba cnt buffer ATA_CMD_DMA_READ_EXT s"

definition ahci_write :: "(io \<Rightarrow> io) \<Rightarrow> u64 \<Rightarrow> u32 \<Rightarrow> u32 \<Rightarrow> ahci \<Rightarrow> ahci result" where
  "ahci_write hw lba cnt buffer s = ahci_command hw lba cnt buffer ATA_CMD_DMA_WRITE_EXT s"

section \<open>Setting up the ports\<close>

definition command_list_entry :: "u32 \<Rightarrow> u32 \<Rightarrow> u64 \<Rightarrow> nat \<Rightarrow> mem \<Rightarrow> mem" where
  "command_list_entry base page phys j m =
     (let chdr = base + 32 * of_nat j;
          m1 = put16 (chdr + 2) 8 m;
          m2 = put32 (chdr + 8) (ucast (phys + 256 * of_nat j)) m1;
          m3 = put32 (chdr + 12) 0 m2
      in snd (memset (page + 256 * of_nat j) 0 256 m3))"

definition command_list :: "u32 \<Rightarrow> u32 \<Rightarrow> u64 \<Rightarrow> mem \<Rightarrow> mem" where
  "command_list base page phys m = fold (command_list_entry base page phys) [0..<32] m"

definition init_port :: "(io \<Rightarrow> io) \<Rightarrow> (pae \<Rightarrow> pae result) \<Rightarrow> nat \<Rightarrow> ahci \<Rightarrow> ahci outcome" where
  "init_port hw kalloc i s =
     (let r = sata_ports s ! i; a = port_addr r
      in Option.bind (stop_commands hw (regs s a, amem s))
        (\<lambda>(p, m). bind_out (pae_kalloc kalloc (4096 * 3) 3 0 (avm s))
          (\<lambda>(base, v).
            case get_phys_from_virt (base + 4096) (mach v) of
              Inl e \<Rightarrow> Some (Inl e)
            | Inr list_phys \<Rightarrow>
                (case get_phys_from_virt base (mach v) of
                   Inl e \<Rightarrow> Some (Inl e)
                 | Inr base_phys \<Rightarrow>
                     if base = 0 then Some (Inl (PageFault 0))
                     else let p1 = p\<lparr>pxclb := ucast base_phys\<rparr>;
                              r1 = r\<lparr>clb_addr := base\<rparr>\<lparr>ctlb_addr := base + 4096\<rparr>;
                              m1 = snd (memset base 0 1024 m);
                              p2 = p1\<lparr>pxfb := ucast (base_phys + 0x400)\<rparr>;
                              r2 = r1\<lparr>fb_addr := base + 0x400\<rparr>;
                              m2 = snd (memset (base + 0x400) 0 256 m1);
                              m3 = command_list base (base + 4096) list_phys m2
                          in map_option (\<lambda>(p3, m4). Inr (s\<lparr>regs := (regs s)(a := p3), sata_ports := (sata_ports s)[i := r2],
                                 amem := m4, avm := v\<rparr>)) (start_commands hw (p2, m3))))))"

fun init_ports :: "(io \<Rightarrow> io) \<Rightarrow> (pae \<Rightarrow> pae result) \<Rightarrow> nat list \<Rightarrow> ahci \<Rightarrow> ahci outcome" where
  "init_ports hw kalloc [] s = Some (Inr s)"
| "init_ports hw kalloc (i # is) s = bind_out (init_port hw kalloc i s) (init_ports hw kalloc is)"

definition init_ahci_cmd_port :: "(io \<Rightarrow> io) \<Rightarrow> (pae \<Rightarrow> pae result) \<Rightarrow> ahci \<Rightarrow> ahci outcome" where
  "init_ahci_cmd_port hw kalloc s = init_ports hw kalloc [0..<length (sata_ports s)] s"

section \<open>Identification\<close>

definition ata_disk_size :: "ahci_ram_ports \<Rightarrow> u32" where
  "ata_disk_size r = ucast (ucast (sector_words r * 2) * lba_count r)"

text \<open>
  Shifts by 32 and 48 of an \<open>int\<close> are undefined in C: \<open>shl\<close> is what the compiler makes of them. An \<open>int\<close> is
  sign-extended to the 64 bits of the sector count.
\<close>

definition read_lba_count :: "(u32 \<Rightarrow> nat \<Rightarrow> u32) \<Rightarrow> (nat \<Rightarrow> u16) \<Rightarrow> u32 \<Rightarrow> u64" where
  "read_lba_count shl data cset =
     (if cset AND push_bit 26 1 \<noteq> 0
      then ucast (data 100) OR scast (push_bit 16 (ucast (data 101)) :: u32) OR
           scast (shl (ucast (data 102)) 32) OR scast (shl (ucast (data 103)) 48)
      else ucast (data 60) OR scast (push_bit 16 (ucast (data 61)) :: u32))"

fun model_loop :: "(nat \<Rightarrow> u16) \<Rightarrow> nat list \<Rightarrow> u8 list \<Rightarrow> u8 list" where
  "model_loop data [] xs = xs"
| "model_loop data (i # is) xs =
     (let w = data (27 + i)
      in model_loop data is ((xs[i * 2 + 0 := ucast (drop_bit 8 w)])[i * 2 + 1 := ucast (w AND 0xFF)]))"

fun model_len :: "u8 list \<Rightarrow> nat \<Rightarrow> nat" where
  "model_len xs 0 = 0"
| "model_len xs (Suc n) = (if xs ! n = 0x20 then model_len xs n else Suc n)"

definition read_model :: "(nat \<Rightarrow> u16) \<Rightarrow> u8 list \<Rightarrow> u8 list" where
  "read_model data xs =
     (let ys = (model_loop data [0..<20] xs)[40 := 0] in ys[model_len ys 40 := 0])"

definition read_identify :: "(u32 \<Rightarrow> nat \<Rightarrow> u32) \<Rightarrow> (nat \<Rightarrow> u16) \<Rightarrow> ahci_ram_ports \<Rightarrow> ahci_ram_ports" where
  "read_identify shl data r =
     (let cset = ucast (data 82) OR push_bit 16 (ucast (data 83))
      in r\<lparr>sig := data 0, cap := data 49, cmd_set := cset, lba_count := read_lba_count shl data cset,
           sector_words := (if data 106 AND push_bit 12 1 \<noteq> 0
                            then ucast (data 117) OR push_bit 16 (ucast (data 118)) else 256),
           model := read_model data (model r)\<rparr>)"

definition identify_command :: "ahci_ram_ports \<Rightarrow> u64 \<Rightarrow> mem \<Rightarrow> mem" where
  "identify_command r buf_phys m =
     (let tbl = ctlb_addr r;
          m1 = put32 (prdt_entry tbl 0) (ucast buf_phys) m;
          m2 = put32 (prdt_entry tbl 0 + 4) 0 m1;
          m3 = put32 (prdt_entry tbl 0 + 12) (511 OR push_bit 31 1) m2;
          chdr = clb_addr r;
          m4 = put16 chdr 5 m3;
          m5 = put16 chdr (get16 m4 chdr AND NOT 0x40) m4;
          m6 = put16 chdr (get16 m5 chdr OR 0x400) m5;
          m7 = put16 (chdr + 2) 1 m6;
          m8 = m7(tbl := 0x27, tbl + 2 := 0xEC, tbl + 7 := 0)
      in m8(tbl + 1 := m8 (tbl + 1) OR 0x80))"

definition identify :: "(io \<Rightarrow> io) \<Rightarrow> (u32 \<Rightarrow> nat \<Rightarrow> u32) \<Rightarrow> (pae \<Rightarrow> pae result) \<Rightarrow> ahci \<Rightarrow> ahci outcome" where
  "identify hw shl kalloc s =
     (case alloc_frame3 (mach (avm s)) of
        Inl e \<Rightarrow> Some (Inl e)
      | Inr (buf_phys, pg) \<Rightarrow>
          bind_out (pae_kalloc kalloc 4096 0x13 buf_phys ((avm s)\<lparr>mach := pg\<rparr>))
            (\<lambda>(buffer, v).
              let r = first_port s; a = port_addr r
              in if a = 0 then Some (Inl (PageFault 0x14))
                 else let p1 = (regs s a)\<lparr>pxie := 0xffffffff\<rparr>;
                          m1 = identify_command r buf_phys (amem s);
                          (rest, p2, m2) = wait_issued hw 0 10000000 (p1\<lparr>pxci := pxci p1 OR 1\<rparr>, m1)
                      in if rest = 0 then Some (Inl (Panic ''SATA Port timed out''))
                         else Some (Inr (s\<lparr>regs := (regs s)(a := p2), amem := m2, avm := v,
                                sata_ports := (sata_ports s)[0 := read_identify shl (\<lambda>i. get16 m2 (buffer + 2 * of_nat i)) r]\<rparr>))))"

definition reset_port :: "ahci_ram_ports \<Rightarrow> mem \<Rightarrow> mem" where
  "reset_port r m =
     (let chdr = clb_addr r;
          m1 = put16 chdr 5 m;
          m2 = put16 chdr (get16 m1 chdr OR 0x400) m1;
          m3 = put16 chdr (get16 m2 chdr OR 0x100) m2
      in put16 (chdr + 2) 0 m3)"

text \<open>
  \<open>init_ahci_controller\<close>: \<open>ports\<close> is the ports register and \<open>read_buffer\<close> what \<open>kalloc\<close> returns for the test read.
\<close>

definition init_ahci_controller ::
  "(io \<Rightarrow> io) \<Rightarrow> (u32 \<Rightarrow> nat \<Rightarrow> u32) \<Rightarrow> (pae \<Rightarrow> pae result) \<Rightarrow> u32 \<Rightarrow> u32 \<Rightarrow> u32 \<Rightarrow> ahci \<Rightarrow> ahci outcome" where
  "init_ahci_controller hw shl kalloc ahci_head ports read_buffer s =
     bind_out (pae_kalloc kalloc 4096 0x13 (ucast ahci_head) (avm s))
       (\<lambda>(page, v).
         if page = 0 then Some (Inl (PageFault 4))
         else bind_out (init_ahci_cmd_port hw kalloc
                (probe_ports page ports (s\<lparr>avm := v, sata_ports := [], GlobHostCtrl := GlobHostCtrl s OR 0x80000002\<rparr>)))
           (\<lambda>s1. bind_out (identify hw shl kalloc s1)
             (\<lambda>s2. let s3 = s2\<lparr>GlobHostCtrl := GlobHostCtrl s2 OR 0x80000002, amem := reset_port (first_port s2) (amem s2)\<rparr>
               in Some (ahci_command hw 0 1 read_buffer ATA_CMD_DMA_READ_EXT s3))))"

section \<open>Free slots\<close>

lemma slot_loop_ok:
  "k \<le> n \<Longrightarrow> case slot_loop [k..<n] (drop_bit k s) of
     Some i \<Rightarrow> k \<le> i \<and> i < n \<and> \<not> bit s i \<and> (\<forall>j. k \<le> j \<and> j < i \<longrightarrow> bit s j)
   | None \<Rightarrow> (\<forall>j. k \<le> j \<and> j < n \<longrightarrow> bit s j)"
proof (induction "n - k" arbitrary: k)
  case 0
  then have "k = n" by simp
  then show ?case by auto
next
  case (Suc d)
  then have up: "[k..<n] = k # [Suc k..<n]"
    by (simp add: upt_conv_Cons)
  have b: "drop_bit k s AND 1 = 0 \<longleftrightarrow> \<not> bit s k"
    by (simp add: and_one_eq bit_iff_odd_drop_bit even_iff_mod_2_eq_zero)
  have nxt: "drop_bit 1 (drop_bit k s) = drop_bit (Suc k) s"
    by (simp only: drop_bit_drop_bit plus_1_eq_Suc)
  have IH: "case slot_loop [Suc k..<n] (drop_bit (Suc k) s) of
     Some i \<Rightarrow> Suc k \<le> i \<and> i < n \<and> \<not> bit s i \<and> (\<forall>j. Suc k \<le> j \<and> j < i \<longrightarrow> bit s j)
   | None \<Rightarrow> (\<forall>j. Suc k \<le> j \<and> j < n \<longrightarrow> bit s j)"
    by (rule Suc.hyps(1)) (use Suc.hyps(2) in linarith)+
  show ?case
  proof (cases "bit s k")
    case True
    then have "slot_loop [k..<n] (drop_bit k s) = slot_loop [Suc k..<n] (drop_bit (Suc k) s)"
      unfolding up slot_loop.simps b nxt by simp
    then show ?thesis
      using IH True by (auto split: option.splits simp: Suc_le_eq) (metis le_neq_implies_less)+
  next
    case False
    then have "slot_loop [k..<n] (drop_bit k s) = Some k"
      unfolding up slot_loop.simps b by simp
    moreover have "k < n"
      using Suc.hyps(2) by linarith
    ultimately show ?thesis
      using False by auto
  qed
qed

lemma find_cmd_slot_free:
  "find_cmd_slot p = Inr i \<Longrightarrow> i < 32 \<and> \<not> bit (pxsact p) i \<and> \<not> bit (pxci p) i"
  using slot_loop_ok [of 0 32 "pxsact p OR pxci p"]
  by (auto simp: find_cmd_slot_def bit_simps split: option.splits)

text \<open>
  The slot chosen for a command is the lowest one that is neither active nor issued, and the driver
  panics exactly when all 32 are busy.
\<close>

theorem find_cmd_slot_least:
  "case find_cmd_slot p of
     Inr i \<Rightarrow> i < 32 \<and> \<not> bit (pxsact p OR pxci p) i \<and> (\<forall>j<i. bit (pxsact p OR pxci p) j)
   | Inl _ \<Rightarrow> (\<forall>j<32. bit (pxsact p OR pxci p) j)"
  using slot_loop_ok [of 0 32 "pxsact p OR pxci p"]
  by (auto simp: find_cmd_slot_def split: option.splits)

section \<open>What a command looks like\<close>

lemma prdt_entry_eq: "prdt_entry tbl (int e) = tbl + of_nat (128 + 16 * e)"
  by (simp add: prdt_entry_def)

text \<open>One entry of the scatter list as the loop writes it.\<close>

definition put_entry :: "u32 \<Rightarrow> nat \<Rightarrow> u64 \<Rightarrow> mem \<Rightarrow> mem" where
  "put_entry tbl e phys m =
     put32 (tbl + of_nat (140 + 16 * e)) 8191
       (put32 (tbl + of_nat (132 + 16 * e)) (ucast (drop_bit 31 phys))
         (put32 (tbl + of_nat (128 + 16 * e)) (ucast phys) m))"

lemma put_entry_beside:
  assumes "off tbl a < 128 + 16 * e \<or> 144 + 16 * e \<le> off tbl a" "e < 8"
  shows "put_entry tbl e phys m a = m a"
proof -
  have "off tbl a < k \<or> k + 4 \<le> off tbl a" "k + 4 \<le> 2 ^ 32"
    if "k \<in> {128 + 16 * e, 132 + 16 * e, 140 + 16 * e}" for k
    using that assms by auto
  then show ?thesis
    unfolding put_entry_def by (simp only: put32_beside insert_iff simp_thms)
qed

lemma put_entry_dba: "e < 8 \<Longrightarrow> get32 (put_entry tbl e phys m) (tbl + of_nat (128 + 16 * e)) = ucast phys"
proof -
  assume e: "e < 8"
  let ?m = "put32 (tbl + of_nat (128 + 16 * e)) (ucast phys) m"
  have "get32 (put_entry tbl e phys m) (tbl + of_nat (128 + 16 * e)) = get32 ?m (tbl + of_nat (128 + 16 * e))"
  proof (rule get32_same)
    fix i :: nat assume "i < 4"
    then have "off tbl (tbl + of_nat (128 + 16 * e + i)) = 128 + 16 * e + i"
      using e by (intro off_base) simp
    then show "put_entry tbl e phys m (tbl + of_nat (128 + 16 * e + i)) = ?m (tbl + of_nat (128 + 16 * e + i))"
      unfolding put_entry_def using \<open>i < 4\<close> e
      by (subst put32_beside, simp, simp, subst put32_beside) simp_all
  qed
  then show ?thesis by simp
qed

lemma prdt_loop_step:
  "e < unat (get16 m (chdr + 2)) \<Longrightarrow>
     prdt_loop e tbl chdr phys m = prdt_loop (Suc e) tbl chdr (phys + 4096) (put_entry tbl e phys m)"
proof -
  have "prdt_entry tbl (int e) + 4 = tbl + of_nat (132 + 16 * e)" "prdt_entry tbl (int e) + 12 = tbl + of_nat (140 + 16 * e)"
    by (simp_all add: prdt_entry_def)
  then show "e < unat (get16 m (chdr + 2)) \<Longrightarrow> ?thesis"
    by (subst prdt_loop.simps) (simp only: put_entry_def Let_def prdt_entry_eq if_True, simp)
qed

text \<open>With at most eight entries the loop stays in the table, as the header is elsewhere.\<close>

lemma prdt_loop_ok:
  assumes n: "n \<le> 8" and far: "256 \<le> off tbl (chdr + 2)" "256 \<le> off tbl (chdr + 2 + 1)"
  shows "e \<le> n \<Longrightarrow> unat (get16 m (chdr + 2)) = n \<Longrightarrow>
    (\<exists>m'. prdt_loop e tbl chdr phys m = (n, m') \<and>
      (\<forall>a. off tbl a < 128 + 16 * e \<or> 256 \<le> off tbl a \<longrightarrow> m' a = m a) \<and>
      (\<forall>i. e \<le> i \<and> i < n \<longrightarrow> get32 m' (tbl + of_nat (128 + 16 * i)) = ucast (phys + of_nat (4096 * (i - e)))))"
proof (induction "n - e" arbitrary: e m phys)
  case 0
  then have "prdt_loop e tbl chdr phys m = (n, m)"
    by (subst prdt_loop.simps) simp
  then show ?case
    using 0 by auto
next
  case (Suc d)
  then have e: "e < n" "e < 8"
    using n by simp_all
  let ?m = "put_entry tbl e phys m"
  have "get16 ?m (chdr + 2) = get16 m (chdr + 2)"
    by (rule get16_cong) (use far e in \<open>simp_all add: put_entry_beside\<close>)
  moreover have "d = n - Suc e" "Suc e \<le> n"
    using Suc.hyps(2) e by simp_all
  ultimately obtain m' where m': "prdt_loop (Suc e) tbl chdr (phys + 4096) ?m = (n, m')"
    "\<And>a. off tbl a < 128 + 16 * Suc e \<or> 256 \<le> off tbl a \<Longrightarrow> m' a = ?m a"
    "\<And>i. Suc e \<le> i \<and> i < n \<Longrightarrow> get32 m' (tbl + of_nat (128 + 16 * i)) = ucast (phys + 4096 + of_nat (4096 * (i - Suc e)))"
    using Suc.hyps(1) [of "Suc e" ?m "phys + 4096"] Suc.prems(2) by auto
  have "get32 m' (tbl + of_nat (128 + 16 * i)) = ucast (phys + of_nat (4096 * (i - e)))" if i: "e \<le> i" "i < n" for i
  proof (cases "i = e")
    case True
    have "get32 m' (tbl + of_nat (128 + 16 * e)) = get32 ?m (tbl + of_nat (128 + 16 * e))"
      by (rule get32_same) (use e in \<open>simp add: m'(2) del: of_nat_add of_nat_mult\<close>)
    then show ?thesis
      using True put_entry_dba [OF e(2)] by simp
  next
    case False
    then have "i - e = Suc (i - Suc e)" "Suc e \<le> i"
      using i by simp_all
    then show ?thesis
      using m'(3) [of i] i by (simp add: add.assoc)
  qed
  moreover have "m' a = m a" if "off tbl a < 128 + 16 * e \<or> 256 \<le> off tbl a" for a
    using that m'(2) [of a] put_entry_beside [of tbl a e phys m] e by auto
  ultimately show ?case
    using m'(1) prdt_loop_step [of e m chdr tbl phys] Suc.prems e by auto
qed

lemma fill_fis_beside: "14 \<le> off tbl a \<Longrightarrow> fill_fis tbl command lba cnt m a = m a"
proof -
  assume far: "14 \<le> off tbl a"
  have "a \<noteq> tbl + of_nat k" if "k < 14" for k
    using far that off_base [of k tbl] by auto
  from this [of 0] this [of 1] this [of 2] this [of 4] this [of 5] this [of 6] this [of 7] this [of 8]
    this [of 9] this [of 10] this [of 12] this [of 13]
  show ?thesis by (simp add: fill_fis_def)
qed

text \<open>The 48-bit block address a command carries.\<close>

definition fis_lba :: "u32 \<Rightarrow> mem \<Rightarrow> u64" where
  "fis_lba tbl m =
     ucast (m (tbl + 4)) OR push_bit 8 (ucast (m (tbl + 5))) OR push_bit 16 (ucast (m (tbl + 6))) OR
     push_bit 24 (ucast (m (tbl + 8))) OR push_bit 32 (ucast (m (tbl + 9))) OR push_bit 40 (ucast (m (tbl + 10)))"

lemma fis_lba_fill: "fis_lba tbl (fill_fis tbl command lba cnt m) = take_bit 32 lba"
proof -
  have "fis_lba tbl (fill_fis tbl command lba cnt m) =
      ucast (ucast lba :: u8) OR push_bit 8 (ucast (ucast (drop_bit 8 lba) :: u8)) OR
      push_bit 16 (ucast (ucast (drop_bit 16 lba) :: u8)) OR push_bit 24 (ucast (ucast (drop_bit 24 lba) :: u8))"
    by (simp add: fis_lba_def fill_fis_def)
  also have "\<dots> = take_bit 32 lba"
  proof (rule bit_word_eqI)
    fix n assume "n < LENGTH(64)"
    have "n < 8 \<or> (8 \<le> n \<and> n < 16) \<or> (16 \<le> n \<and> n < 24) \<or> (24 \<le> n \<and> n < 32) \<or> 32 \<le> n"
      by auto
    then show "bit (ucast (ucast lba :: u8) OR push_bit 8 (ucast (ucast (drop_bit 8 lba) :: u8)) OR
      push_bit 16 (ucast (ucast (drop_bit 16 lba) :: u8)) OR push_bit 24 (ucast (ucast (drop_bit 24 lba) :: u8)) :: u64) n =
        bit (take_bit 32 lba) n"
      using \<open>n < LENGTH(64)\<close> by (auto simp: bit_simps)
  qed
  finally show ?thesis .
qed

lemma prdtl_eq:
  fixes cnt :: u32
  assumes "1 \<le> unat cnt" "unat cnt \<le> 128"
  shows "unat (ucast (drop_bit 4 (cnt - 1) + 1) :: u16) = (unat cnt + 15) div 16"
proof -
  obtain k where k: "unat cnt = Suc k"
    using assms(1) by (cases "unat cnt") auto
  have "of_nat (unat cnt) = cnt"
    by simp
  then have "cnt = of_nat (Suc k)"
    unfolding k by (rule sym)
  then have c: "cnt - 1 = of_nat k"
    by simp
  have "unat (cnt - 1) = k"
    unfolding c by (rule unat_of_nat_u32) (use k assms(2) in simp)
  then have "unat (drop_bit 4 (cnt - 1)) = k div 16"
    by (simp add: unsigned_drop_bit_eq drop_bit_eq_div unat_div)
  moreover have "k div 16 < 8"
    using k assms(2) by simp
  ultimately have "unat (drop_bit 4 (cnt - 1) + 1) = k div 16 + 1"
    by (simp add: unat_word_ariths)
  then show ?thesis
    using \<open>k div 16 < 8\<close> k by (simp add: unsigned_ucast_eq take_bit_nat_eq_self)
qed

lemma build_command_ok:
  assumes cmd: "command = ATA_CMD_DMA_READ_EXT \<or> command = ATA_CMD_DMA_WRITE_EXT"
    and tbl: "tbl = ctlb_addr ram + 256 * of_nat sl" and chdr: "chdr = clb_addr ram + 32 * of_nat sl"
    and far: "256 \<le> off tbl chdr" "off tbl chdr + 8 \<le> 2 ^ 32"
    and cnt: "1 \<le> unat cnt" "unat cnt \<le> 128"
  shows "\<exists>m'. build_command ram sl buf_phys lba cnt command m = Inr m' \<and>
    m' tbl = 0x27 \<and> m' (tbl + 1) = 0x80 \<and> m' (tbl + 2) = command \<and> fis_lba tbl m' = take_bit 32 lba \<and>
    m' (tbl + 12) = ucast cnt \<and>
    get16 m' chdr = (if command = ATA_CMD_DMA_READ_EXT then 5 else 0x45) \<and>
    unat (get16 m' (chdr + 2)) = (unat cnt + 15) div 16 \<and>
    (\<forall>i < (unat cnt + 15) div 16. get32 m' (tbl + of_nat (128 + 16 * i)) = ucast (buf_phys + of_nat (4096 * i)))"
proof -
  define n where "n = (unat cnt + 15) div 16"
  have n: "1 \<le> n" "n \<le> 8"
    using cnt by (simp_all add: n_def)
  have c: "off tbl (chdr + of_nat k) = off tbl chdr + k" if "k < 8" for k
  proof -
    have "chdr + of_nat k = tbl + of_nat (off tbl chdr + k)"
      by (simp add: off_def)
    then show ?thesis
      using off_eqI [of "off tbl chdr + k" "chdr + of_nat k" tbl] far that by simp
  qed
  have far2: "256 \<le> off tbl (chdr + of_nat k)" if "k < 8" for k
    using c [OF that] far by simp
  define m3 where "m3 = snd (memset (fb_addr ram) 0 0x200 (snd (memset tbl 0 20 (snd (memset tbl 0 (256 + 0x20) m)))))"
  define fl :: u16 where "fl = (if command = ATA_CMD_DMA_READ_EXT then 5 else 0x45)"
  define v :: u16 where "v = ucast (drop_bit 4 (cnt - 1) + 1)"
  define m5 where "m5 = put16 chdr fl (put16 chdr 5 m3)"
  define m7 where "m7 = put32 (chdr + 4) 0 (put16 (chdr + 2) v m5)"
  define m8 where "m8 = fill_fis tbl command lba cnt m7"
  have v: "unat v = n"
    using prdtl_eq [OF cnt] by (simp add: v_def n_def)
  have m8_hdr: "get16 m8 chdr = fl" "get16 m8 (chdr + 2) = v"
  proof -
    have keep: "m8 (chdr + of_nat k) = m7 (chdr + of_nat k)" if "k < 8" for k
      using fill_fis_beside [of tbl "chdr + of_nat k"] far2 [OF that] by (simp add: m8_def)
    have m7: "m7 (chdr + of_nat k) = put16 (chdr + 2) v m5 (chdr + of_nat k)" if "k < 4" for k
      using put32_beside [of chdr "chdr + of_nat k" 4] that by (simp add: m7_def)
    have m5: "put16 (chdr + 2) v m5 (chdr + of_nat k) = m5 (chdr + of_nat k)" if "k < 2" for k
      using put16_beside [of chdr "chdr + of_nat k" 2] that by simp
    have "get16 m8 chdr = get16 m5 chdr"
      by (rule get16_cong) (use keep [of 0] m7 [of 0] m5 [of 0] keep [of 1] m7 [of 1] m5 [of 1] in simp_all)
    then show "get16 m8 chdr = fl"
      by (simp add: m5_def)
    have "get16 m8 (chdr + 2) = get16 (put16 (chdr + 2) v m5) (chdr + 2)"
      by (rule get16_cong) (use keep [of 2] m7 [of 2] keep [of 3] m7 [of 3] in \<open>simp_all add: add.assoc\<close>)
    then show "get16 m8 (chdr + 2) = v" by simp
  qed
  have "256 \<le> off tbl (chdr + 2)" "256 \<le> off tbl (chdr + 2 + 1)"
    using far2 [of 2] far2 [of 3] by (simp_all add: add.assoc)
  from prdt_loop_ok [OF n(2) this, of 0 m8 buf_phys] obtain m9 where m9: "prdt_loop 0 tbl chdr buf_phys m8 = (n, m9)"
    "\<And>a. off tbl a < 128 \<or> 256 \<le> off tbl a \<Longrightarrow> m9 a = m8 a"
    "\<And>i. i < n \<Longrightarrow> get32 m9 (tbl + of_nat (128 + 16 * i)) = ucast (buf_phys + of_nat (4096 * i))"
    using m8_hdr v by auto
  define m' where "m' = put32 (tbl + of_nat (140 + 16 * (n - 1))) 0x80000800 m9"
  have flags: "get16 (put16 chdr 5 m3) chdr AND NOT 0x40 = 5" "get16 (put16 chdr 5 m3) chdr OR 0x40 = 0x45"
    by simp_all
  have "prdt_entry tbl (int n - 1) + 12 = tbl + of_nat (140 + 16 * (n - 1))"
    using n(1) by (simp add: prdt_entry_def of_nat_diff algebra_simps)
  then have res: "build_command ram sl buf_phys lba cnt command m = Inr m'"
    using cmd m9(1) unfolding build_command_def Let_def tbl [symmetric] chdr [symmetric] m3_def [symmetric] flags
    by (simp add: m'_def m8_def m7_def m5_def fl_def v_def ac_simps split: if_splits)
  have keep: "m' a = m8 a" if "off tbl a < 128 \<or> 256 \<le> off tbl a" for a
  proof -
    have "140 + 16 * (n - 1) + 4 \<le> 256"
      using n by linarith
    then have "off tbl a < 140 + 16 * (n - 1) \<or> 140 + 16 * (n - 1) + 4 \<le> off tbl a" "140 + 16 * (n - 1) + 4 \<le> 2 ^ 32"
      using that by auto
    then show ?thesis
      unfolding m'_def using put32_beside [of tbl a "140 + 16 * (n - 1)"] m9(2) [OF that] by simp
  qed
  have fis: "m' (tbl + of_nat k) = m8 (tbl + of_nat k)" if "k < 14" for k
    using keep [of "tbl + of_nat k"] that off_base [of k tbl] by simp
  have "get32 m' (tbl + of_nat (128 + 16 * i)) = ucast (buf_phys + of_nat (4096 * i))" if "i < n" for i
  proof -
    have "get32 m' (tbl + of_nat (128 + 16 * i)) = get32 m9 (tbl + of_nat (128 + 16 * i))"
    proof (rule get32_same)
      fix j :: nat assume "j < 4"
      then have "off tbl (tbl + of_nat (128 + 16 * i + j)) = 128 + 16 * i + j"
        using that n by (intro off_base) simp
      moreover have "128 + 16 * i + j < 140 + 16 * (n - 1) \<or> 140 + 16 * (n - 1) + 4 \<le> 128 + 16 * i + j"
        using \<open>j < 4\<close> that by linarith
      ultimately show "m' (tbl + of_nat (128 + 16 * i + j)) = m9 (tbl + of_nat (128 + 16 * i + j))"
        unfolding m'_def using n by (intro put32_beside) simp_all
    qed
    then show ?thesis using m9(3) [OF that] by simp
  qed
  moreover have "get16 m' chdr = fl" "unat (get16 m' (chdr + 2)) = n"
  proof -
    have "get16 m' chdr = get16 m8 chdr"
      by (rule get16_cong) (use keep far2 [of 0] far2 [of 1] in simp_all)
    then show "get16 m' chdr = fl" by (simp add: m8_hdr)
    have "get16 m' (chdr + 2) = get16 m8 (chdr + 2)"
      by (rule get16_cong) (use keep far2 [of 2] far2 [of 3] in \<open>simp_all add: add.assoc\<close>)
    then show "unat (get16 m' (chdr + 2)) = n" by (simp add: m8_hdr v)
  qed
  moreover have "fis_lba tbl m' = fis_lba tbl m8"
    using fis [of 4] fis [of 5] fis [of 6] fis [of 8] fis [of 9] fis [of 10] by (simp add: fis_lba_def)
  moreover have "m' tbl = 0x27" "m' (tbl + 1) = 0x80" "m' (tbl + 2) = command" "m' (tbl + 12) = ucast cnt"
    using fis [of 0] fis [of 1] fis [of 2] fis [of 12] by (simp_all add: m8_def fill_fis_def)
  ultimately show ?thesis
    unfolding n_def [symmetric] using res by (simp add: m8_def fis_lba_fill fl_def del: of_nat_add of_nat_mult)
qed



lemma build_command_accepts:
  "command = ATA_CMD_DMA_READ_EXT \<or> command = ATA_CMD_DMA_WRITE_EXT \<Longrightarrow>
     \<exists>m'. build_command ram sl buf_phys lba cnt command m = Inr m'"
  by (auto simp: build_command_def Let_def split: prod.splits)

lemma slot_bit_clear: "pxci p AND push_bit sl 1 = 0 \<longleftrightarrow> sl \<ge> 32 \<or> \<not> bit (pxci p) sl"
proof -
  have "pxci p AND push_bit sl 1 = (if bit (pxci p) sl then push_bit sl 1 else 0)"
    by (rule bit_word_eqI) (auto simp: bit_simps)
  then show ?thesis
    by (auto simp: bit_word_iff_drop_bit_and push_bit_eq_mult)
qed

text \<open>
  C38. When slot 0 is busy the command is prepared in another slot, but the driver still sets bit 0 of the issue
  register: with a controller that starts nothing on its own the call returns as if the command had
  been executed, and the bit of its slot was never set.
\<close>

theorem busy_slot_never_issued:
  assumes "find_cmd_slot p = Inr sl" and "sl \<noteq> 0" and "get_phys_from_virt buffer pg = Inr page"
    and "command = ATA_CMD_DMA_READ_EXT \<or> command = ATA_CMD_DMA_WRITE_EXT"
  shows "\<exists>p' m'. post_ata_command (\<lambda>s. s) pg ram lba cnt buffer command (p, m) = Inr (p', m') \<and>
    pxci p' = pxci p OR 1 \<and> \<not> bit (pxci p') sl"
proof -
  obtain m' where m': "build_command ram sl (page + ucast (buffer AND 0xfff)) lba cnt command m = Inr m'"
    using build_command_accepts [OF assms(4)] by blast
  let ?p = "p\<lparr>pxis := 0xffffffff, pxie := 0xffffffff, pxci := pxci p OR 1\<rparr>"
  have clear: "\<not> bit (pxci p OR 1) sl"
    using find_cmd_slot_free [OF assms(1)] assms(2) by (simp add: bit_simps)
  have "(10000000 :: nat) = Suc 9999999" by simp
  then have "wait_issued (\<lambda>s. s) sl 10000000 (?p, m') = (10000000, ?p, m')"
    using clear slot_bit_clear [of ?p sl] by (simp only: wait_issued.simps) simp
  then show ?thesis
    using assms(1,3) m' clear by (simp add: post_ata_command_def)
qed

section \<open>The model string\<close>

text \<open>The text of the identify data: the words 27 to 46, high byte first.\<close>

definition model_chars :: "(nat \<Rightarrow> u16) \<Rightarrow> nat \<Rightarrow> u8 list" where
  "model_chars data n = concat (map (\<lambda>i. [ucast (drop_bit 8 (data (27 + i))), ucast (data (27 + i) AND 0xFF)]) [0..<n])"

definition rtrim :: "u8 list \<Rightarrow> u8 list" where
  "rtrim xs = rev (dropWhile (\<lambda>c. c = 0x20) (rev xs))"

text \<open>A byte array read as a C string.\<close>

definition c_string :: "u8 list \<Rightarrow> u8 list" where
  "c_string xs = takeWhile (\<lambda>c. c \<noteq> 0) xs"

lemma length_model_chars: "length (model_chars data n) = 2 * n"
  by (induction n) (simp_all add: model_chars_def)

lemma model_loop_append: "model_loop data (is @ js) xs = model_loop data js (model_loop data is xs)"
  by (induction "is" arbitrary: xs) (simp_all add: Let_def)

lemma model_loop_eq: "2 * n \<le> length xs \<Longrightarrow> model_loop data [0..<n] xs = model_chars data n @ drop (2 * n) xs"
proof (induction n)
  case 0
  then show ?case by (simp add: model_chars_def)
next
  case (Suc n)
  then have "drop (2 * n) xs = xs ! (2 * n) # xs ! Suc (2 * n) # drop (2 * Suc n) xs"
    by (simp add: Cons_nth_drop_Suc [symmetric])
  moreover have "model_chars data (Suc n) =
      model_chars data n @ [ucast (drop_bit 8 (data (27 + n))), ucast (data (27 + n) AND 0xFF)]"
    by (simp add: model_chars_def)
  moreover have "model_loop data [0..<Suc n] xs = model_loop data [n] (model_chars data n @ drop (2 * n) xs)"
    using Suc by (simp add: model_loop_append)
  ultimately show ?case
    by (simp add: list_update_append length_model_chars Let_def mult.commute)
qed

lemma model_len_eq: "n \<le> length xs \<Longrightarrow> take (model_len xs n) xs = rtrim (take n xs) \<and> model_len xs n \<le> n"
  by (induction n) (auto simp: rtrim_def take_Suc_conv_app_nth Suc_le_eq)

text \<open>
  The model name kept for a disk, read as a C string, is the text of the identify data without its
  trailing blanks, in the order of the characters although each word holds two of them swapped; the
  terminating zero is always inside the array of 41 bytes.
\<close>

theorem identify_model_name:
  assumes "length (model r) = 41" and "0 \<notin> set (model_chars data 20)"
  shows "c_string (model (read_identify shl data r)) = rtrim (model_chars data 20) \<and>
    0 \<in> set (model (read_identify shl data r))"
proof -
  obtain x where x: "drop 40 (model r) = [x]"
    using assms(1) by (cases "drop 40 (model r)") (auto dest!: arg_cong [of "drop 40 (model r)" _ length])
  define cs where "cs = model_chars data 20"
  define ys where "ys = cs @ [0]"
  define k where "k = model_len ys 40"
  have len: "length cs = 40"
    by (simp add: cs_def length_model_chars)
  have "(model_loop data [0..<20] (model r))[40 := 0] = ys"
    using model_loop_eq [of 20 "model r" data] assms(1) x len by (simp add: ys_def cs_def list_update_append)
  then have res: "model (read_identify shl data r) = ys[k := 0]"
    by (simp add: read_identify_def read_model_def Let_def k_def)
  have k: "take k ys = rtrim cs" "k \<le> 40"
    using model_len_eq [of 40 ys] len by (auto simp: k_def ys_def)
  have "k < length ys"
    using k len by (simp add: ys_def)
  then have split: "ys[k := 0] = take k ys @ 0 # drop (Suc k) ys"
    by (simp add: upd_conv_take_nth_drop)
  have "set (rtrim cs) \<subseteq> set cs"
    by (auto simp: rtrim_def dest: set_dropWhileD)
  then have "0 \<notin> set (rtrim cs)"
    using assms(2) by (auto simp: cs_def)
  then have "takeWhile (\<lambda>c. c \<noteq> 0) (rtrim cs @ 0 # drop (Suc k) ys) = rtrim cs"
    by (subst takeWhile_append2) auto
  then show ?thesis
    unfolding res split k(1) c_string_def by (simp add: cs_def)
qed

text \<open>Port 1 busy, a buffer on a page without translation.\<close>

definition demo_regs :: hba_port where
  "demo_regs = \<lparr>pxclb = 0, pxclbu = 0, pxfb = 0, pxfbu = 0, pxis = 0, pxie = 0, pxcmd = 0, pxtfd = 0, pxsig = 0x101,
     pxssts = 0x103, pxsctl = 0, pxserr = 0, pxsact = 0, pxci = 1\<rparr>"

definition demo_words :: "nat \<Rightarrow> u16" where
  "demo_words i = (if i = 27 then 0x5144 else 0x2020)"

lemma demo_regs_slot: "find_cmd_slot demo_regs = Inr 1"
  by (simp add: find_cmd_slot_def demo_regs_def upt_rec)

theorem busy_slot_never_issued_witness:
  "\<exists>p' m'. post_ata_command (\<lambda>s. s) demo_pae ram_port_zero 7 1 0xC0000000 ATA_CMD_DMA_READ_EXT
     (demo_regs, \<lambda>_. 0) = Inr (p', m') \<and> pxci p' = 1 \<and> \<not> bit (pxci p') 1"
proof -
  have "get_phys_from_virt 0xC0000000 demo_pae = Inr 0"
    by (simp add: get_phys_from_virt_def demo_pae_def pdpt_index_def pae_pd_index_def pae_pt_index_def
        read_table64_def pae_walk_def table_addr_def recursive_base_def pae_pd_def present64_def frame64_def)
  then show ?thesis
    using busy_slot_never_issued [OF demo_regs_slot, of "0xC0000000" demo_pae 0 ATA_CMD_DMA_READ_EXT ram_port_zero 7 1 "\<lambda>_. 0"]
    by (simp add: demo_regs_def)
qed

theorem identify_model_name_witness:
  "c_string (model (read_identify (\<lambda>w n. push_bit n w) demo_words ram_port_zero)) = [0x51, 0x44] \<and>
    0 \<in> set (model (read_identify (\<lambda>w n. push_bit n w) demo_words ram_port_zero))"
proof -
  have "model_chars demo_words 20 = [0x51, 0x44] @ replicate 38 0x20"
    by code_simp
  moreover have "dropWhile (\<lambda>c. c = 0x20) (replicate 38 0x20 @ [0x44, 0x51 :: u8]) = [0x44, 0x51]"
    by (subst dropWhile_append2) auto
  ultimately show ?thesis
    using identify_model_name [of ram_port_zero demo_words "\<lambda>w n. push_bit n w"]
    by (simp add: ram_port_zero_def rtrim_def)
qed

end
