(* ===== verification/Pci.thy ===== *)
theory Pci
  imports Bytes Vmm
begin

text \<open>
  The PCI bus of \<open>kernel/pci.c\<close>: the scan of the configuration space for the disk controller and the set-up
  of its message interrupt. The configuration space is the function \<open>cfg\<close> on physical addresses; what
  the kernel reads through a mapped page is memory.
\<close>

section \<open>The scan\<close>

record pci =
  AHCIAddr :: u32
  scan_virt :: u32
  pci_pg :: pae

text \<open>\<open>a\<close> is where the header's bytes are in \<open>cfg\<close>, \<open>header\<close> the virtual address that is kept.\<close>

definition handle_device :: "u32 \<Rightarrow> u32 \<Rightarrow> mem \<Rightarrow> pci \<Rightarrow> pci" where
  "handle_device header a cfg s =
     (if cfg (a + 11) = 1 \<and> cfg (a + 10) = 6 \<and> cfg (a + 9) = 1 then s\<lparr>AHCIAddr := header\<rparr> else s)"

text \<open>
  \<open>brute_force\<close> from a device number on. The start of a header is its vendor; the header type is at offset
  14, and the struct has the secondary bus of a bridge at offset 26.
\<close>

partial_function (option) scan_bus ::
  "(pae \<Rightarrow> pae result) \<Rightarrow> mem \<Rightarrow> u64 \<Rightarrow> u32 \<Rightarrow> nat \<Rightarrow> pci \<Rightarrow> pci outcome" where
  "scan_bus kalloc cfg base_addr bus device s =
     (if device \<ge> 32 then Some (Inr s)
      else let a = ucast base_addr + (push_bit 20 bus OR push_bit 15 (of_nat device)); header = scan_virt s
        in case pae_mmap kalloc (ucast a) header 0x13 (pci_pg s) of
             Inl e \<Rightarrow> Some (Inl e)
           | Inr pg \<Rightarrow>
               (let s1 = s\<lparr>scan_virt := header + 4096, pci_pg := pg\<rparr>
                in if get16 cfg a = 0xffff
                   then (case pae_unmap header pg of
                           Inl e \<Rightarrow> Some (Inl e)
                         | Inr pg1 \<Rightarrow> scan_bus kalloc cfg base_addr bus (Suc device) (s1\<lparr>pci_pg := pg1\<rparr>))
                   else if cfg (a + 14) \<noteq> 0
                   then (if cfg (a + 26) = 0 then scan_bus kalloc cfg base_addr bus (Suc device) s1
                         else bind_out (scan_bus kalloc cfg base_addr (ucast (cfg (a + 26))) 0 s1)
                                (\<lambda>s2. scan_bus kalloc cfg base_addr bus (Suc device) s2))
                   else scan_bus kalloc cfg base_addr bus (Suc device) (handle_device header a cfg s1)))"

declare scan_bus.simps [code]

definition brute_force :: "(pae \<Rightarrow> pae result) \<Rightarrow> mem \<Rightarrow> u64 \<Rightarrow> u32 \<Rightarrow> pci \<Rightarrow> pci outcome" where
  "brute_force kalloc cfg base_addr bus s = scan_bus kalloc cfg base_addr bus 0 s"

definition get_ahci_BAR5 :: "pci \<Rightarrow> mem \<Rightarrow> u32 result" where
  "get_ahci_BAR5 s m =
     (if AHCIAddr s = 0 then Inl (PageFault 36) else Inr (get32 m (AHCIAddr s + 36)))"

section \<open>The message interrupt\<close>

text \<open>
  The walk over the capabilities: it stops at the last one without looking at it, and adds the offset of
  the next one to the first. The result is \<open>msi_pointer\<close>, 0 when none was found.
\<close>

partial_function (option) msi_loop :: "mem \<Rightarrow> u32 \<Rightarrow> u32 \<Rightarrow> u32 option" where
  "msi_loop m base cap_pointer =
     (if m (cap_pointer + 1) = 0 then Some 0
      else if m cap_pointer = 5 then Some cap_pointer
      else msi_loop m base (base + ucast (m (cap_pointer + 1))))"

declare msi_loop.simps [code]

text \<open>\<open>cap_pointer\<close> is never NULL, so a missing capability is a fault on \<open>msi_pointer->MessageControl\<close>.\<close>

definition write_msi :: "u32 \<Rightarrow> mem \<Rightarrow> mem" where
  "write_msi msi m =
     (let m1 = put32 (msi + 8) 0 m; m2 = put16 (msi + 14) 0 m1; m3 = put16 (msi + 12) 0x33 m2
      in put32 (msi + 4) 0xFEE00300 m3)"

definition ahci_action :: "(pae \<Rightarrow> pae result) \<Rightarrow> u32 \<Rightarrow> mem \<Rightarrow> pae vm \<Rightarrow> (mem \<times> pae vm) outcome" where
  "ahci_action kalloc ahci m v =
     (if ahci = 0 then Some (Inl (PageFault 6))
      else if get16 m (ahci + 6) AND push_bit 4 1 = 0 then Some (Inr (m, v))
      else let base = ahci + ucast (m (ahci + 52) AND 0xfc)
        in Option.bind (msi_loop m base base)
          (\<lambda>msi. if msi = 0 then Some (Inl (PageFault 2))
            else let m1 = put16 (msi + 2) (get16 m (msi + 2) OR 1) m
              in if get16 m1 (msi + 2) AND push_bit 7 1 = 0 then Some (Inr (m1, v))
                 else case alloc_frame3 (mach v) of
                        Inl e \<Rightarrow> Some (Inl e)
                      | Inr (phy_msg, pg) \<Rightarrow>
                          bind_out (pae_kalloc kalloc 4096 3 phy_msg (v\<lparr>mach := pg\<rparr>))
                            (\<lambda>(mes_addr, v1). Some (Inr (write_msi msi m1, v1)))))"

section \<open>Finding the capability\<close>

text \<open>
  The capabilities the walk visits: \<open>c\<close> first, each next one at the offset from \<open>base\<close> that the one
  before names; the last one names 0.
\<close>

fun cap_chain :: "mem \<Rightarrow> u32 \<Rightarrow> u32 \<Rightarrow> u32 list \<Rightarrow> bool" where
  "cap_chain m base c [] \<longleftrightarrow> False"
| "cap_chain m base c (x # xs) \<longleftrightarrow> x = c \<and>
     (if xs = [] then m (c + 1) = 0 else m (c + 1) \<noteq> 0 \<and> cap_chain m base (base + ucast (m (c + 1))) xs)"

lemma msi_loop_ok:
  "cap_chain m base c xs \<Longrightarrow> msi_loop m base c =
     Some (case filter (\<lambda>x. m x = 5) (butlast xs) of [] \<Rightarrow> 0 | x # _ \<Rightarrow> x)"
proof (induction xs arbitrary: c)
  case Nil
  then show ?case by simp
next
  case (Cons x xs)
  then show ?case by (subst msi_loop.simps) (auto split: if_splits)
qed

text \<open>
  C35. The walk over the capabilities ends on every finite chain and finds the first message interrupt
  capability, provided it is not the last one of the chain: that one is never looked at. A controller whose
  message interrupt capability comes last, or that has none, ends in a page fault at address 2.
\<close>

theorem msi_found_unless_last:
  assumes "ahci \<noteq> 0" and "get16 m (ahci + 6) AND push_bit 4 1 \<noteq> 0"
    and "base = ahci + ucast (m (ahci + 52) AND 0xfc)" and "cap_chain m base base xs"
  shows "msi_loop m base base = Some (case filter (\<lambda>x. m x = 5) (butlast xs) of [] \<Rightarrow> 0 | x # _ \<Rightarrow> x) \<and>
    (filter (\<lambda>x. m x = 5) (butlast xs) = [] \<longrightarrow> ahci_action kalloc ahci m v = Some (Inl (PageFault 2)))"
proof -
  have found: "msi_loop m base base = Some (case filter (\<lambda>x. m x = 5) (butlast xs) of [] \<Rightarrow> 0 | x # _ \<Rightarrow> x)"
    by (rule msi_loop_ok [OF assms(4)])
  have "ahci_action kalloc ahci m v = Some (Inl (PageFault 2))" if "filter (\<lambda>x. m x = 5) (butlast xs) = []"
    using found that assms(1,2) by (simp add: ahci_action_def Let_def flip: assms(3))
  with found show ?thesis by blast
qed

text \<open>A controller at 0xD0000000 with a power capability and then, last, a message interrupt one.\<close>

definition demo_cfg :: mem where
  "demo_cfg = (\<lambda>_. 0)(0xD0000006 := 0x10, 0xD0000034 := 0x40, 0xD0000040 := 1, 0xD0000041 := 0x10,
     0xD0000050 := 5)"

theorem msi_found_unless_last_witness:
  "msi_loop demo_cfg 0xD0000040 0xD0000040 = Some 0 \<and>
   (\<forall>v. ahci_action Inr 0xD0000000 demo_cfg v = Some (Inl (PageFault 2)))"
proof -
  have chain: "cap_chain demo_cfg 0xD0000040 0xD0000040 [0xD0000040, 0xD0000050]"
    by (simp add: demo_cfg_def)
  have msi: "get16 demo_cfg (0xD0000000 + 6) AND push_bit 4 1 \<noteq> 0"
    by (simp add: demo_cfg_def get16_def)
  have base: "(0xD0000040 :: u32) = 0xD0000000 + ucast (demo_cfg (0xD0000000 + 52) AND 0xfc)"
    by (simp add: demo_cfg_def)
  have "msi_loop demo_cfg 0xD0000040 0xD0000040 = Some 0 \<and> ahci_action Inr 0xD0000000 demo_cfg v = Some (Inl (PageFault 2))"
    for v :: "pae vm"
    using msi_found_unless_last [OF _ msi base chain, of Inr v] by (simp add: demo_cfg_def)
  then show ?thesis by blast
qed

end
