(* ===== verification/Scheduler.thy ===== *)
theory Scheduler
  imports Prelude
begin

text \<open>
  The round-robin scheduler of \<open>kernel/scheduler.c\<close>. Processes are structs linked by \<open>next\<close>; the
  model keeps them in a store by address, NULL is 0, and saved CPU contexts in a second store.
  Logging is left out; a context switch is the returned context pointer and the new current process.
\<close>

section \<open>State\<close>

text \<open>\<open>cpu_status_t\<close> of \<open>kernel/idt.h\<close>.\<close>

record cpu_status =
  cr3 :: u32
  cr2 :: u32
  cr0 :: u32
  esp :: u32
  edi :: u32
  esi :: u32
  edx :: u32
  ecx :: u32
  ebx :: u32
  eax :: u32
  ebp :: u32
  isr_no :: u32
  isr_err :: u32
  eip :: u32
  cs :: u32
  eflags :: u32

datatype process_status = READY | RUNNING | IDLE | DEAD

record process =
  pid :: u32
  pstatus :: process_status
  "context" :: u32
  vmm_obj :: u32
  pnext :: u32

text \<open>\<open>freed\<close> lists the blocks given to \<open>kfree\<close>, most recent first; their contents stay readable.\<close>

record sched =
  process_list_head :: u32
  current_process :: u32
  idle_process :: u32
  initialized :: bool
  next_free_pid :: u32
  procs :: "u32 \<Rightarrow> process"
  contexts :: "u32 \<Rightarrow> cpu_status"
  current_vmm :: u32
  freed :: "u32 list"

definition upd_proc :: "u32 \<Rightarrow> (process \<Rightarrow> process) \<Rightarrow> sched \<Rightarrow> sched" where
  "upd_proc p f s = s\<lparr>procs := (procs s)(p := f (procs s p))\<rparr>"

definition kfree_block :: "u32 \<Rightarrow> sched \<Rightarrow> sched" where
  "kfree_block p s = s\<lparr>freed := p # freed s\<rparr>"

section \<open>The process list\<close>

partial_function (option) last_process :: "u32 \<Rightarrow> sched \<Rightarrow> u32 option" where
  "last_process current s =
     (if pnext (procs s current) \<noteq> 0 then last_process (pnext (procs s current)) s else Some current)"

declare last_process.simps [code]

definition add_process :: "u32 \<Rightarrow> sched \<Rightarrow> sched option" where
  "add_process p s =
     (if process_list_head s = 0 then Some (s\<lparr>process_list_head := p\<rparr>)
      else map_option (\<lambda>l. upd_proc l (\<lambda>x. x\<lparr>pnext := p\<rparr>) s) (last_process (process_list_head s) s))"

partial_function (option) find_previous :: "u32 \<Rightarrow> u32 \<Rightarrow> sched \<Rightarrow> u32 option" where
  "find_previous prev p s =
     (if pnext (procs s prev) \<noteq> 0 then
        (if pnext (procs s prev) = p then Some prev else find_previous (pnext (procs s prev)) p s)
      else Some prev)"

declare find_previous.simps [code]

text \<open>The empty-list case reads \<open>next\<close> of NULL, at offset 80 of the struct.\<close>

definition delete_process :: "u32 \<Rightarrow> sched \<Rightarrow> sched outcome" where
  "delete_process p s =
     (if process_list_head s = p then
        Some (Inr (kfree_block p (s\<lparr>process_list_head := pnext (procs s p)\<rparr>)))
      else if process_list_head s = 0 then Some (Inl (PageFault 80))
      else map_option
        (\<lambda>prev. Inr (kfree_block p (kfree_block (context (procs s p))
           (upd_proc prev (\<lambda>x. x\<lparr>pnext := pnext (procs s p)\<rparr>) s))))
        (find_previous (process_list_head s) p s))"

definition get_process_head :: "sched \<Rightarrow> u32" where
  "get_process_head s = process_list_head s"

section \<open>Status changes\<close>

definition set_current_process_idle :: "sched \<Rightarrow> sched" where
  "set_current_process_idle s = upd_proc (current_process s) (\<lambda>x. x\<lparr>pstatus := IDLE\<rparr>) s"

definition kill_current_process :: "sched \<Rightarrow> sched" where
  "kill_current_process s = upd_proc (current_process s) (\<lambda>x. x\<lparr>pstatus := DEAD, pnext := 0\<rparr>) s"

section \<open>Process creation\<close>

text \<open>
  \<open>p\<close> and \<open>c\<close> are the blocks \<open>kalloc\<close> returned for the struct and the context, \<open>garbage\<close> what the
  struct's block held (\<open>memset(process, 0, sizeof(process))\<close> clears the size of a pointer, the \<open>pid\<close>),
  \<open>v\<close> and \<open>sp\<close> the address space and stack pointer made by \<open>create_new_pdptes\<close>, and \<open>r0\<close>, \<open>r3\<close> the
  control registers.
\<close>

definition null_context :: cpu_status where
  "null_context = \<lparr>cr3 = 0, cr2 = 0, cr0 = 0, esp = 0, edi = 0, esi = 0, edx = 0, ecx = 0, ebx = 0, eax = 0, ebp = 0,
     isr_no = 0, isr_err = 0, eip = 0, cs = 0, eflags = 0\<rparr>"

definition PRIV_NO_ADD :: int where
  "PRIV_NO_ADD = 2"

definition create_process ::
  "u32 \<Rightarrow> u32 \<Rightarrow> process \<Rightarrow> u32 \<Rightarrow> u32 \<Rightarrow> u32 \<Rightarrow> u32 \<Rightarrow> u32 \<Rightarrow> int \<Rightarrow> sched \<Rightarrow> (u32 \<times> sched) option" where
  "create_process p c garbage v sp r0 r3 function privileged s =
     (let parent_vmm = current_vmm s;
          proc = garbage\<lparr>pid := next_free_pid s, pstatus := READY, context := c, vmm_obj := v, pnext := 0\<rparr>;
          ctx = null_context\<lparr>esp := sp, eflags := 0x200202, cs := 0x08, eip := function, cr0 := r0, cr2 := 0,
                  cr3 := r3, ebx := 0xbeef\<rparr>;
          s1 = s\<lparr>next_free_pid := next_free_pid s + 1, procs := (procs s)(p := proc),
                 contexts := (contexts s)(c := ctx), current_vmm := v\<rparr>;
          added = (if privileged \<noteq> PRIV_NO_ADD then add_process p s1 else Some s1)
      in map_option
           (\<lambda>s2. (p, if parent_vmm \<noteq> 0 then s2\<lparr>current_vmm := parent_vmm\<rparr> else s2)) added)"

definition init_idle_process :: "u32 \<Rightarrow> u32 \<Rightarrow> process \<Rightarrow> u32 \<Rightarrow> u32 \<Rightarrow> u32 \<Rightarrow> u32 \<Rightarrow> u32 \<Rightarrow> sched \<Rightarrow> sched option" where
  "init_idle_process p c garbage v sp r0 r3 run_idle s =
     map_option (\<lambda>(idle, s'). s'\<lparr>idle_process := idle\<rparr>) (create_process p c garbage v sp r0 r3 run_idle PRIV_NO_ADD s)"

definition init_scheduler :: "u32 \<Rightarrow> u32 \<Rightarrow> process \<Rightarrow> u32 \<Rightarrow> u32 \<Rightarrow> u32 \<Rightarrow> u32 \<Rightarrow> u32 \<Rightarrow> sched \<Rightarrow> sched option" where
  "init_scheduler p c garbage v sp r0 r3 run_idle s =
     map_option (\<lambda>s'. s'\<lparr>initialized := True\<rparr>)
       (init_idle_process p c garbage v sp r0 r3 run_idle (s\<lparr>process_list_head := 0, current_process := 0\<rparr>))"

section \<open>Scheduling\<close>

text \<open>The scan from the current process to the next READY one.\<close>

partial_function (option) scan :: "sched \<Rightarrow> sched outcome" where
  "scan s =
     (let cur = current_process s
      in if cur = 0 then Some (Inr s)
         else if pstatus (procs s cur) = READY then Some (Inr s)
         else bind_out
           (if pstatus (procs s cur) = DEAD then delete_process cur s
            else Some (Inr (upd_proc cur (\<lambda>x. x\<lparr>pstatus := READY\<rparr>) s)))
           (\<lambda>s1. scan (s1\<lparr>current_process := pnext (procs s1 cur)\<rparr>)))"

declare scan.simps [code]

definition dispatch :: "sched \<Rightarrow> (u32 \<times> sched) result" where
  "dispatch s =
     (let cur = (if current_process s \<noteq> 0 then current_process s
                 else if process_list_head s \<noteq> 0 then process_list_head s else idle_process s)
      in if cur = 0 then Inl (PageFault 4)
         else
           let s1 = upd_proc cur (\<lambda>x. x\<lparr>pstatus := RUNNING\<rparr>) (s\<lparr>current_process := cur\<rparr>)
           in Inr (context (procs s1 cur), s1\<lparr>current_vmm := vmm_obj (procs s1 cur)\<rparr>))"

definition schedule :: "cpu_status \<Rightarrow> sched \<Rightarrow> (u32 \<times> sched) outcome" where
  "schedule ctx s =
     (let cur = current_process s;
          s1 = (if cur \<noteq> 0 then s\<lparr>contexts := (contexts s)(context (procs s cur) := ctx)\<rparr> else s)
      in bind_out (scan s1) (\<lambda>s2. Some (dispatch s2)))"

text \<open>\<open>ctx_addr\<close> is the interrupted context's address, returned unchanged before initialisation.\<close>

definition handle_schedule :: "u32 \<Rightarrow> cpu_status \<Rightarrow> sched \<Rightarrow> (u32 \<times> sched) outcome" where
  "handle_schedule ctx_addr ctx s =
     (if \<not> initialized s then Some (Inr (ctx_addr, s)) else schedule ctx s)"

section \<open>The list abstraction\<close>

fun plist :: "(u32 \<Rightarrow> process) \<Rightarrow> u32 \<Rightarrow> u32 list \<Rightarrow> bool" where
  "plist P p [] \<longleftrightarrow> p = 0"
| "plist P p (x # xs) \<longleftrightarrow> p = x \<and> x \<noteq> 0 \<and> plist P (pnext (P x)) xs"

text \<open>The process list of a state: acyclic and without repetition.\<close>

definition process_list :: "sched \<Rightarrow> u32 list \<Rightarrow> bool" where
  "process_list s ps \<longleftrightarrow> plist (procs s) (process_list_head s) ps \<and> distinct ps"

lemma plist_cong:
  "plist P p xs \<Longrightarrow> \<forall>x\<in>set xs. pnext (Q x) = pnext (P x) \<Longrightarrow> plist Q p xs"
  by (induction xs arbitrary: p) auto

lemma plist_suffix: "plist P p (xs @ y # ys) \<Longrightarrow> plist P y (y # ys)"
  by (induction xs arbitrary: p) auto

text \<open>Replacing everything after \<open>y\<close>.\<close>

lemma plist_relink:
  "plist P p (xs @ y # ys) \<Longrightarrow> \<forall>x\<in>set xs. pnext (Q x) = pnext (P x) \<Longrightarrow> plist Q (pnext (Q y)) zs \<Longrightarrow>
   plist Q p (xs @ y # zs)"
  by (induction xs arbitrary: p) auto

lemma upd_proc_fields [simp]:
  "procs (upd_proc p f s) q = (if q = p then f (procs s p) else procs s q)"
  "process_list_head (upd_proc p f s) = process_list_head s" "current_process (upd_proc p f s) = current_process s"
  "idle_process (upd_proc p f s) = idle_process s" "initialized (upd_proc p f s) = initialized s"
  "contexts (upd_proc p f s) = contexts s" "freed (upd_proc p f s) = freed s"
  "current_vmm (upd_proc p f s) = current_vmm s" "next_free_pid (upd_proc p f s) = next_free_pid s"
  by (simp_all add: upd_proc_def)

lemma last_process_eq: "plist (procs s) p (xs @ [y]) \<Longrightarrow> last_process p s = Some y"
proof (induction xs arbitrary: p)
  case Nil
  then show ?case by (subst last_process.simps) simp
next
  case (Cons x xs)
  then have "pnext (procs s p) \<noteq> 0"
    by (cases xs) auto
  with Cons show ?case by (subst last_process.simps) simp
qed

lemma add_process_ok:
  assumes ps: "process_list s ps" and new: "p \<noteq> 0" "p \<notin> set ps" "pnext (procs s p) = 0"
  shows "\<exists>s'. add_process p s = Some s' \<and> process_list s' (ps @ [p]) \<and> current_process s' = current_process s \<and>
    (\<forall>q. procs s' q = (procs s q)\<lparr>pnext := pnext (procs s' q)\<rparr>) \<and> contexts s' = contexts s"
proof (cases ps rule: rev_cases)
  case Nil
  then have "process_list_head s = 0"
    using ps by (simp add: process_list_def)
  then show ?thesis
    using new Nil by (simp add: add_process_def process_list_def)
next
  case (snoc xs y)
  let ?s = "upd_proc y (\<lambda>x. x\<lparr>pnext := p\<rparr>) s"
  have l: "plist (procs s) (process_list_head s) (xs @ [y])" "distinct (xs @ [y])"
    using ps snoc by (simp_all add: process_list_def)
  then have "process_list_head s \<noteq> 0"
    by (cases xs) auto
  then have "add_process p s = Some ?s"
    using last_process_eq [OF l(1)] by (simp add: add_process_def)
  moreover have "plist (procs ?s) (process_list_head s) (xs @ y # [p])"
    using l new snoc by (intro plist_relink [OF l(1)]) auto
  ultimately show ?thesis
    using l(2) new snoc by (auto simp: process_list_def)
qed

lemma find_previous_eq:
  "plist (procs s) h (xs @ y # p # ys) \<Longrightarrow> distinct (xs @ y # p # ys) \<Longrightarrow> find_previous h p s = Some y"
proof (induction xs arbitrary: h)
  case Nil
  then show ?case by (subst find_previous.simps) simp
next
  case (Cons x xs)
  then have "pnext (procs s h) \<noteq> 0" "pnext (procs s h) \<noteq> p"
    by (cases xs; auto)+
  with Cons show ?case by (subst find_previous.simps) simp
qed

lemma delete_process_ok:
  assumes ps: "process_list s (xs @ p # ys)"
  shows "\<exists>s'. delete_process p s = Some (Inr s') \<and> process_list s' (xs @ ys) \<and>
    current_process s' = current_process s \<and> p \<in> set (freed s') \<and>
    (\<forall>q. pstatus (procs s' q) = pstatus (procs s q) \<and> context (procs s' q) = context (procs s q))"
proof (cases xs rule: rev_cases)
  case Nil
  then have "process_list_head s = p"
    using ps by (simp add: process_list_def)
  with ps Nil show ?thesis
    by (simp add: delete_process_def process_list_def kfree_block_def)
next
  case (snoc zs y)
  have l: "plist (procs s) (process_list_head s) (zs @ y # p # ys)" "distinct (zs @ y # p # ys)"
    using ps snoc by (simp_all add: process_list_def)
  then have h: "process_list_head s \<noteq> 0" "process_list_head s \<noteq> p"
    by (cases zs; auto)+
  let ?s = "kfree_block p (kfree_block (context (procs s p)) (upd_proc y (\<lambda>x. x\<lparr>pnext := pnext (procs s p)\<rparr>) s))"
  have "delete_process p s = Some (Inr ?s)"
    using h find_previous_eq [OF l] by (simp add: delete_process_def)
  moreover have "plist (procs ?s) (process_list_head s) (zs @ y # ys)"
  proof (rule plist_relink [OF l(1)])
    show "\<forall>x\<in>set zs. pnext (procs ?s x) = pnext (procs s x)"
      using l(2) by (auto simp: kfree_block_def)
    have "plist (procs s) p (p # ys)"
      using plist_suffix [of "procs s" _ "zs @ [y]" p ys] l(1) by simp
    then have "plist (procs s) (pnext (procs s p)) ys" by simp
    then show "plist (procs ?s) (pnext (procs ?s y)) ys"
      using l(2) by (auto simp: kfree_block_def elim!: plist_cong)
  qed
  ultimately show ?thesis
    using l(2) snoc by (auto simp: process_list_def kfree_block_def)
qed

section \<open>The scan\<close>

text \<open>Without dead processes the scan makes READY what it passes and stops at the first READY process.\<close>

definition wake :: "u32 list \<Rightarrow> (u32 \<Rightarrow> process) \<Rightarrow> u32 \<Rightarrow> process" where
  "wake zs P q = (if q \<in> set zs then (P q)\<lparr>pstatus := READY\<rparr> else P q)"

definition first_or_null :: "u32 list \<Rightarrow> u32" where
  "first_or_null zs = (case zs of [] \<Rightarrow> 0 | z # _ \<Rightarrow> z)"

lemma wake_Nil [simp]: "wake [] P = P"
  by (simp add: wake_def fun_eq_iff)

lemma plist_upd_status [simp]: "plist (P(q := (P q)\<lparr>pstatus := v\<rparr>)) p xs = plist P p xs"
  by (induction xs arbitrary: p) auto

lemma scan_alive:
  assumes "plist (procs s) (current_process s) zs" "distinct zs" "\<forall>q\<in>set zs. pstatus (procs s q) \<noteq> DEAD"
  shows "scan s = Some (Inr (s\<lparr>
    current_process := first_or_null (dropWhile (\<lambda>q. pstatus (procs s q) \<noteq> READY) zs),
    procs := wake (takeWhile (\<lambda>q. pstatus (procs s q) \<noteq> READY) zs) (procs s)\<rparr>))"
  using assms
proof (induction zs arbitrary: s)
  case Nil
  then show ?case
    by (subst scan.simps) (simp add: first_or_null_def)
next
  case (Cons z zs)
  show ?case
  proof (cases "pstatus (procs s z) = READY")
    case True
    with Cons.prems show ?thesis
      by (subst scan.simps) (simp add: first_or_null_def)
  next
    case False
    let ?s = "upd_proc z (\<lambda>x. x\<lparr>pstatus := READY\<rparr>) s"
    let ?t = "?s\<lparr>current_process := pnext (procs s z)\<rparr>"
    have st: "pstatus (procs ?t q) = pstatus (procs s q)" if "q \<in> set zs" for q
      using that Cons.prems(2) by auto
    have pl: "plist (procs ?t) (current_process ?t) zs"
      using Cons.prems(1,2) by (auto elim!: plist_cong)
    have "scan s = scan ?t"
      using Cons.prems False by (subst scan.simps) simp
    also have "\<dots> = Some (Inr (?t\<lparr>
        current_process := first_or_null (dropWhile (\<lambda>q. pstatus (procs ?t q) \<noteq> READY) zs),
        procs := wake (takeWhile (\<lambda>q. pstatus (procs ?t q) \<noteq> READY) zs) (procs ?t)\<rparr>))"
      by (rule Cons.IH [OF pl]) (use Cons.prems(2,3) st in \<open>simp_all\<close>)
    also have "dropWhile (\<lambda>q. pstatus (procs ?t q) \<noteq> READY) zs = dropWhile (\<lambda>q. pstatus (procs s q) \<noteq> READY) zs"
      using st by (intro dropWhile_cong) auto
    also have "takeWhile (\<lambda>q. pstatus (procs ?t q) \<noteq> READY) zs = takeWhile (\<lambda>q. pstatus (procs s q) \<noteq> READY) zs"
      using st by (intro takeWhile_cong) auto
    also have "wake (takeWhile (\<lambda>q. pstatus (procs s q) \<noteq> READY) zs) (procs ?t) =
        wake (z # takeWhile (\<lambda>q. pstatus (procs s q) \<noteq> READY) zs) (procs s)"
      by (auto simp: wake_def fun_eq_iff)
    finally show ?thesis
      using False by (simp add: upd_proc_def)
  qed
qed

section \<open>Round robin\<close>

text \<open>The regular situation: process \<open>i\<close> of the list runs, all others are ready.\<close>

definition robin :: "sched \<Rightarrow> u32 list \<Rightarrow> nat \<Rightarrow> bool" where
  "robin s ps i \<longleftrightarrow> process_list s ps \<and> i < length ps \<and> current_process s = ps ! i \<and>
     (\<forall>j<length ps. pstatus (procs s (ps ! j)) = (if j = i then RUNNING else READY))"

lemma plist_nonzero: "plist P p xs \<Longrightarrow> x \<in> set xs \<Longrightarrow> x \<noteq> 0"
  by (induction xs arbitrary: p) auto

lemma robin_others:
  assumes "robin s ps i" "q \<in> set ps" "q \<noteq> ps ! i"
  shows "pstatus (procs s q) = READY"
  using assms by (auto simp: robin_def in_set_conv_nth)

lemma robin_scan:
  assumes r: "robin s ps i"
  shows "scan s = Some (Inr (s\<lparr>current_process := (if Suc i < length ps then ps ! Suc i else 0),
    procs := wake [ps ! i] (procs s)\<rparr>))"
proof -
  have i: "i < length ps" and cur: "current_process s = ps ! i" "pstatus (procs s (ps ! i)) = RUNNING"
    and d: "distinct ps"
    using r by (auto simp: robin_def process_list_def)
  have split: "ps = take i ps @ ps ! i # drop (Suc i) ps"
    using i by (simp add: id_take_nth_drop)
  have suffix: "plist (procs s) (current_process s) (ps ! i # drop (Suc i) ps)"
  proof -
    have "plist (procs s) (process_list_head s) (take i ps @ ps ! i # drop (Suc i) ps)"
      unfolding split [symmetric] using r by (simp add: robin_def process_list_def)
    from plist_suffix [OF this] show ?thesis
      by (simp only: cur)
  qed
  have rest: "pstatus (procs s q) = READY" if "q \<in> set (drop (Suc i) ps)" for q
  proof (rule robin_others [OF r])
    show "q \<in> set ps" using that set_drop_subset by fast
    have "distinct (ps ! i # drop (Suc i) ps)"
      using d split by (metis distinct_append)
    then show "q \<noteq> ps ! i" using that by auto
  qed
  have tw: "takeWhile (\<lambda>q. pstatus (procs s q) \<noteq> READY) (ps ! i # drop (Suc i) ps) = [ps ! i]"
    and dw: "dropWhile (\<lambda>q. pstatus (procs s q) \<noteq> READY) (ps ! i # drop (Suc i) ps) = drop (Suc i) ps"
    using cur rest by (cases "drop (Suc i) ps"; simp)+
  have fn: "first_or_null (drop (Suc i) ps) = (if Suc i < length ps then ps ! Suc i else 0)"
    by (simp add: first_or_null_def Cons_nth_drop_Suc [symmetric])
  have "scan s = Some (Inr (s\<lparr>
      current_process := first_or_null (dropWhile (\<lambda>q. pstatus (procs s q) \<noteq> READY) (ps ! i # drop (Suc i) ps)),
      procs := wake (takeWhile (\<lambda>q. pstatus (procs s q) \<noteq> READY) (ps ! i # drop (Suc i) ps)) (procs s)\<rparr>))"
  proof (rule scan_alive [OF suffix])
    show "distinct (ps ! i # drop (Suc i) ps)"
      using d split by (metis distinct_append)
    show "\<forall>q\<in>set (ps ! i # drop (Suc i) ps). pstatus (procs s q) \<noteq> DEAD"
      using cur rest by auto
  qed
  then show ?thesis by (simp only: tw dw fn)
qed

lemma robin_step:
  assumes r: "robin s ps i" and n: "n = Suc i mod length ps"
  shows "\<exists>s'. schedule ctx s = Some (Inr (context (procs s (ps ! n)), s')) \<and> robin s' ps n \<and>
    contexts s' = (contexts s)(context (procs s (ps ! i)) := ctx) \<and>
    (\<forall>q. context (procs s' q) = context (procs s q) \<and> vmm_obj (procs s' q) = vmm_obj (procs s q)) \<and>
    current_vmm s' = vmm_obj (procs s (ps ! n))"
proof -
  have i: "i < length ps" and cur: "current_process s = ps ! i" and d: "distinct ps"
    and pl: "plist (procs s) (process_list_head s) ps"
    using r by (auto simp: robin_def process_list_def)
  have nz: "q \<noteq> 0" if "q \<in> set ps" for q
    using plist_nonzero [OF pl that] .
  define s0 where "s0 = s\<lparr>contexts := (contexts s)(context (procs s (ps ! i)) := ctx)\<rparr>"
  have r0: "robin s0 ps i"
    using r by (simp add: s0_def robin_def process_list_def)
  have eq: "schedule ctx s = bind_out (scan s0) (\<lambda>s2. Some (dispatch s2))"
    using cur nz i by (simp add: schedule_def s0_def)
  have nl: "n < length ps" using i n by (auto intro!: mod_less_divisor)
  have head: "process_list_head s = ps ! 0"
    using pl i by (cases ps) auto
  define s1 where "s1 = s0\<lparr>current_process := (if Suc i < length ps then ps ! Suc i else 0), procs := wake [ps ! i] (procs s0)\<rparr>"
  have scan: "scan s0 = Some (Inr s1)"
    using robin_scan [OF r0] by (simp add: s1_def)
  have pick: "(if current_process s1 \<noteq> 0 then current_process s1
      else if process_list_head s1 \<noteq> 0 then process_list_head s1 else idle_process s1) = ps ! n"
  proof (cases "Suc i < length ps")
    case True
    then have "ps ! Suc i \<noteq> 0" "n = Suc i" using nz n by simp_all
    with True show ?thesis by (simp add: s1_def)
  next
    case False
    then have "Suc i = length ps" using i by simp
    then have "n = 0" using n by simp
    moreover have "ps ! 0 \<noteq> 0" using nz nth_mem [of 0 ps] i by force
    ultimately show ?thesis using False head by (simp add: s1_def s0_def)
  qed
  let ?s = "(upd_proc (ps ! n) (\<lambda>x. x\<lparr>pstatus := RUNNING\<rparr>) (s1\<lparr>current_process := ps ! n\<rparr>))
      \<lparr>current_vmm := vmm_obj (procs s (ps ! n))\<rparr>"
  have ctxs: "context (procs s1 q) = context (procs s q)" "vmm_obj (procs s1 q) = vmm_obj (procs s q)"
    "pnext (procs s1 q) = pnext (procs s q)" for q
    by (simp_all add: s1_def s0_def wake_def)
  have "dispatch s1 = Inr (context (procs s (ps ! n)), ?s)"
    using nz nl by (simp add: dispatch_def Let_def pick ctxs)
  moreover have "robin ?s ps n"
  proof -
    have "plist (procs ?s) (process_list_head ?s) ps"
      using pl by (auto simp: s1_def s0_def wake_def elim!: plist_cong)
    moreover have "pstatus (procs ?s (ps ! j)) = (if j = n then RUNNING else READY)" if "j < length ps" for j
      using that nl d r by (auto simp: s1_def s0_def wake_def robin_def nth_eq_iff_index_eq)
    ultimately show ?thesis
      using d nl by (auto simp: robin_def process_list_def)
  qed
  ultimately show ?thesis
    using scan ctxs by (simp add: eq) (simp add: s1_def s0_def)
qed

text \<open>A sequence of timer ticks.\<close>

fun ticks :: "cpu_status list \<Rightarrow> sched \<Rightarrow> sched outcome" where
  "ticks [] s = Some (Inr s)"
| "ticks (c # ctxs) s = bind_out (schedule c s) (\<lambda>(p, s'). ticks ctxs s')"

lemma robin_ticks:
  "robin s ps i \<Longrightarrow> \<exists>s'. ticks ctxs s = Some (Inr s') \<and> robin s' ps ((i + length ctxs) mod length ps)"
proof (induction ctxs arbitrary: s i)
  case Nil
  then have "i mod length ps = i"
    by (simp add: robin_def)
  with Nil show ?case by simp
next
  case (Cons c ctxs)
  obtain s1 where s1: "schedule c s = Some (Inr (context (procs s (ps ! (Suc i mod length ps))), s1))"
      "robin s1 ps (Suc i mod length ps)"
    using robin_step [OF Cons.prems refl] by blast
  obtain s' where "ticks ctxs s1 = Some (Inr s')" "robin s' ps ((Suc i mod length ps + length ctxs) mod length ps)"
    using Cons.IH [OF s1(2)] by blast
  then show ?case
    using s1(1) by (simp add: mod_simps)
qed

lemma robin_reaches:
  assumes "i < n" "j < (n :: nat)"
  shows "\<exists>k. 1 \<le> k \<and> k \<le> n \<and> (i + k) mod n = j"
proof (cases "i < j")
  case True
  then show ?thesis
    using assms by (intro exI [of _ "j - i"]) auto
next
  case False
  then have "i + (n - i + j) = j + n"
    using assms by simp
  then have "(i + (n - i + j)) mod n = j"
    using assms(2) by simp
  then show ?thesis
    using assms False by (intro exI [of _ "n - i + j"]) auto
qed

section \<open>Killing the current process\<close>

lemma kill_then_schedule:
  assumes ps: "process_list s (xs @ c # ys)" and cur: "current_process s = c"
    and idle: "idle_process s \<noteq> 0"
  shows "\<exists>s' p. schedule ctx (kill_current_process s) = Some (Inr (p, s')) \<and> process_list s' xs \<and>
    current_process s' = (case xs of [] \<Rightarrow> idle_process s | x # _ \<Rightarrow> x)"
proof -
  let ?k = "kill_current_process s"
  define s1 where "s1 = ?k\<lparr>contexts := (contexts ?k)(context (procs ?k c) := ctx)\<rparr>"
  have c: "c \<noteq> 0"
    using ps plist_nonzero [of "procs s" _ "xs @ c # ys" c] by (auto simp: process_list_def)
  have "plist (procs s1) (process_list_head s) (xs @ c # [])"
  proof (rule plist_relink)
    show "plist (procs s) (process_list_head s) (xs @ c # ys)"
      using ps by (simp add: process_list_def)
  qed (use ps cur in \<open>auto simp: s1_def kill_current_process_def process_list_def\<close>)
  then have l1: "process_list s1 (xs @ c # [])"
    using ps by (auto simp: process_list_def s1_def kill_current_process_def)
  have at: "current_process s1 = c" "pstatus (procs s1 c) = DEAD" "pnext (procs s1 c) = 0"
      "idle_process s1 = idle_process s"
    using cur by (simp_all add: s1_def kill_current_process_def)
  obtain s2 where s2: "delete_process c s1 = Some (Inr s2)" "process_list s2 xs" "idle_process s2 = idle_process s"
      "pnext (procs s2 c) = 0"
  proof -
    obtain s2 where *: "delete_process c s1 = Some (Inr s2)" "process_list s2 (xs @ [])"
      using delete_process_ok [OF l1] by blast
    have "idle_process s2 = idle_process s1" "pnext (procs s2 c) = 0"
      using *(1) at(3) by (auto simp: delete_process_def kfree_block_def split: if_splits)
    with * at(4) that show thesis by simp
  qed
  let ?s3 = "s2\<lparr>current_process := 0\<rparr>"
  have "scan s1 = scan ?s3"
    using at c s2 by (subst scan.simps) simp
  also have "\<dots> = Some (Inr ?s3)"
    by (subst scan.simps) simp
  finally have "scan s1 = Some (Inr ?s3)" .
  then have eq: "schedule ctx ?k = Some (dispatch ?s3)"
    using c cur by (simp add: schedule_def s1_def kill_current_process_def)
  have head: "process_list_head s2 = (case xs of [] \<Rightarrow> 0 | x # _ \<Rightarrow> x)"
    using s2(2) by (cases xs) (auto simp: process_list_def)
  let ?n = "case xs of [] \<Rightarrow> idle_process s | x # _ \<Rightarrow> x"
  have n0: "?n \<noteq> 0"
    using idle ps plist_nonzero [of "procs s" _ "xs @ c # ys" "hd xs"]
    by (cases xs) (auto simp: process_list_def)
  have "dispatch ?s3 = Inr (context (procs s2 ?n),
      (upd_proc ?n (\<lambda>x. x\<lparr>pstatus := RUNNING\<rparr>) (s2\<lparr>current_process := ?n\<rparr>))\<lparr>current_vmm := vmm_obj (procs s2 ?n)\<rparr>)"
    using n0 head s2(3) by (cases xs) (simp_all add: dispatch_def Let_def)
  then show ?thesis
    using eq s2(2) by (auto simp: process_list_def elim!: plist_cong)
qed

section \<open>Properties\<close>

text \<open>Two processes at 0x100 and 0x200, the first one running; the idle process is at 0x300.\<close>

definition demo_process :: "process_status \<Rightarrow> u32 \<Rightarrow> u32 \<Rightarrow> process" where
  "demo_process st c n = \<lparr>pid = 0, pstatus = st, context = c, vmm_obj = 0, pnext = n\<rparr>"

definition demo_sched :: sched where
  "demo_sched = \<lparr>process_list_head = 0x100, current_process = 0x100, idle_process = 0x300, initialized = True,
     next_free_pid = 3,
     procs = (\<lambda>_. demo_process READY 0 0)(0x100 := demo_process RUNNING 0x110 0x200, 0x200 := demo_process READY 0x210 0),
     contexts = (\<lambda>_. null_context), current_vmm = 0, freed = []\<rparr>"

lemma demo_sched_robin: "robin demo_sched [0x100, 0x200] 0"
  by (auto simp: robin_def process_list_def demo_sched_def demo_process_def less_Suc_eq)

lemma demo_sched_list: "process_list demo_sched [0x100, 0x200]"
  using demo_sched_robin by (simp add: robin_def)

text \<open>
  C6. Round robin: from the regular situation (one process of the list runs, the others are ready)
  every process of the list is the running one after at most as many timer ticks as there are
  processes, whatever the interrupted contexts are, and the situation is again regular.
\<close>

theorem round_robin_liveness:
  assumes "robin s ps i" and "j < length ps"
  shows "\<exists>k. 1 \<le> k \<and> k \<le> length ps \<and>
    (\<forall>ctxs. length ctxs = k \<longrightarrow> (\<exists>s'. ticks ctxs s = Some (Inr s') \<and> robin s' ps j))"
proof -
  have "i < length ps"
    using assms(1) by (simp add: robin_def)
  then obtain k where "1 \<le> k" "k \<le> length ps" "(i + k) mod length ps = j"
    using robin_reaches assms(2) by blast
  then show ?thesis
    using robin_ticks [OF assms(1)] by metis
qed

theorem round_robin_liveness_witness:
  "\<exists>k. 1 \<le> k \<and> k \<le> length [0x100 :: u32, 0x200] \<and>
    (\<forall>ctxs. length ctxs = k \<longrightarrow> (\<exists>s'. ticks ctxs demo_sched = Some (Inr s') \<and> robin s' [0x100, 0x200] 1))"
  by (rule round_robin_liveness [OF demo_sched_robin]) simp

text \<open>
  One tick: the interrupted context is stored in the running process and nowhere else, the next
  process of the list (cyclically) becomes the only running one, its saved context is the one
  returned and its address space becomes current.
\<close>

theorem tick_switches:
  assumes "robin s ps i" and "n = Suc i mod length ps"
  shows "\<exists>s'. schedule ctx s = Some (Inr (context (procs s (ps ! n)), s')) \<and> robin s' ps n \<and>
    contexts s' = (contexts s)(context (procs s (ps ! i)) := ctx) \<and>
    (\<forall>q. context (procs s' q) = context (procs s q) \<and> vmm_obj (procs s' q) = vmm_obj (procs s q)) \<and>
    current_vmm s' = vmm_obj (procs s (ps ! n))"
  by (rule robin_step [OF assms])

theorem tick_switches_witness:
  "\<exists>s'. schedule null_context demo_sched = Some (Inr (0x210, s')) \<and> robin s' [0x100, 0x200] 1 \<and>
    contexts s' = (contexts demo_sched)(0x110 := null_context)"
proof -
  have at: "[0x100, 0x200] ! (Suc 0) = (0x200 :: u32)" "context (procs demo_sched 0x200) = 0x210"
      "context (procs demo_sched 0x100) = 0x110"
    by (simp_all add: demo_sched_def demo_process_def)
  from tick_switches [OF demo_sched_robin, of 1 null_context] show ?thesis
    by (auto simp: at)
qed



text \<open>
  C40. \<open>kill_current_process\<close> clears the \<open>next\<close> link before the scheduler unlinks the process: at the
  next tick the processes after it in the list are lost with it, only those before it remain, and
  when it was the first one the list becomes empty and the idle process runs.
\<close>

theorem kill_loses_followers:
  assumes "process_list s (xs @ c # ys)" and "current_process s = c" and "idle_process s \<noteq> 0"
  shows "\<exists>s' p. schedule ctx (kill_current_process s) = Some (Inr (p, s')) \<and> process_list s' xs \<and>
    current_process s' = (case xs of [] \<Rightarrow> idle_process s | x # _ \<Rightarrow> x)"
  by (rule kill_then_schedule [OF assms])

theorem kill_loses_followers_witness:
  "\<exists>s' p. schedule null_context (kill_current_process demo_sched) = Some (Inr (p, s')) \<and>
    process_list s' [] \<and> current_process s' = 0x300"
proof -
  have "process_list demo_sched ([] @ 0x100 # [0x200])" "current_process demo_sched = 0x100"
      "idle_process demo_sched = 0x300"
    using demo_sched_list by (simp_all add: demo_sched_def)
  from kill_loses_followers [OF this(1,2)] this(3) show ?thesis by simp
qed

end
