(* ===== verification/Keyboard_Queue.thy ===== *)
theory Keyboard_Queue
  imports Keyboard
begin

text \<open>
  The event buffer as a queue: the interrupt handler and the terminal communicate through a ring of
  20 slots with two indices. The contract of a bounded event queue is a locale; the ring meets it as
  long as fewer than 19 events are pending.
\<close>

section \<open>Bounded event queues\<close>

datatype 'p action = Arrive 'p | Poll

text \<open>
  A run of arrivals and polls: the events delivered and the events that arrived, in order. The run
  is None when an arrival finds the queue full.
\<close>

fun queue_run ::
  "('p \<Rightarrow> 'q \<Rightarrow> 'q) \<Rightarrow> ('p \<Rightarrow> 'q \<Rightarrow> 'e) \<Rightarrow> ('q \<Rightarrow> 'e option \<times> 'q) \<Rightarrow> ('q \<Rightarrow> 'e list) \<Rightarrow> nat \<Rightarrow>
   'p action list \<Rightarrow> 'q \<Rightarrow> ('e list \<times> 'e list \<times> 'q) option" where
  "queue_run enq event deq content cap [] q = Some ([], [], q)"
| "queue_run enq event deq content cap (Arrive p # as) q =
     (if length (content q) < cap then
        map_option (\<lambda>(out, inp, q'). (out, event p q # inp, q'))
          (queue_run enq event deq content cap as (enq p q))
      else None)"
| "queue_run enq event deq content cap (Poll # as) q =
     (let (r, q1) = deq q
      in map_option (\<lambda>(out, inp, q'). (case r of None \<Rightarrow> out | Some e \<Rightarrow> e # out, inp, q'))
           (queue_run enq event deq content cap as q1))"

text \<open>The events of arrivals alone, each in the state the ones before it left.\<close>

primrec burst :: "('p \<Rightarrow> 'q \<Rightarrow> 'q) \<Rightarrow> ('p \<Rightarrow> 'q \<Rightarrow> 'e) \<Rightarrow> 'p list \<Rightarrow> 'q \<Rightarrow> 'e list" where
  "burst enq event [] q = []"
| "burst enq event (p # ps) q = event p q # burst enq event ps (enq p q)"

locale event_queue =
  fixes enq :: "'p \<Rightarrow> 'q \<Rightarrow> 'q"
    and event :: "'p \<Rightarrow> 'q \<Rightarrow> 'e"
    and deq :: "'q \<Rightarrow> 'e option \<times> 'q"
    and content :: "'q \<Rightarrow> 'e list"
    and cap :: nat
    and inv :: "'q \<Rightarrow> bool"
  assumes enq_appends: "inv q \<Longrightarrow> length (content q) < cap \<Longrightarrow>
      inv (enq p q) \<and> content (enq p q) = content q @ [event p q]"
    and deq_takes: "inv q \<Longrightarrow> inv (snd (deq q)) \<and>
      (case content q of [] \<Rightarrow> fst (deq q) = None \<and> content (snd (deq q)) = []
       | e # es \<Rightarrow> fst (deq q) = Some e \<and> content (snd (deq q)) = es)"
begin

lemma run_fifo:
  "inv q \<Longrightarrow> queue_run enq event deq content cap as q = Some (out, inp, q') \<Longrightarrow>
   inv q' \<and> content q @ inp = out @ content q'"
proof (induction as arbitrary: q out inp)
  case (Cons a as)
  show ?case
  proof (cases a)
    case (Arrive p)
    then have len: "length (content q) < cap"
      using Cons.prems(2) by (auto split: if_splits)
    obtain inp1 where run: "queue_run enq event deq content cap as (enq p q) = Some (out, inp1, q')" "inp = event p q # inp1"
      using Cons.prems(2) Arrive len by auto
    note enq = enq_appends [OF Cons.prems(1) len, of p]
    then show ?thesis
      using Cons.IH [OF conjunct1 [OF enq] run(1)] run(2) by auto
  next
    case Poll
    obtain r q1 where d: "deq q = (r, q1)" by fastforce
    obtain out1 where run: "queue_run enq event deq content cap as q1 = Some (out1, inp, q')"
        "out = (case r of None \<Rightarrow> out1 | Some e \<Rightarrow> e # out1)"
      using Cons.prems(2) Poll d by auto
    note deq = deq_takes [OF Cons.prems(1)]
    then have "inv q1" using d by simp
    from Cons.IH [OF this run(1)] deq d run(2) show ?thesis
      by (auto split: list.splits)
  qed
qed simp

text \<open>Arrivals alone: what a burst of events leaves in the queue.\<close>

lemma burst_arrives:
  "inv q \<Longrightarrow> length (content q) + length ps \<le> cap \<Longrightarrow>
     inv (fold enq ps q) \<and> content (fold enq ps q) = content q @ burst enq event ps q"
proof (induction ps arbitrary: q)
  case (Cons p ps)
  then have "inv (enq p q)" "content (enq p q) = content q @ [event p q]"
    using enq_appends [of q p] by simp_all
  then show ?case
    using Cons.IH [of "enq p q"] Cons.prems(2) by simp
qed simp

text \<open>What arrived and was delivered agree in order: nothing is lost, duplicated or overtaken.\<close>

lemma run_prefix:
  assumes "inv q" "content q = []" "queue_run enq event deq content cap as q = Some (out, inp, q')"
  shows "inp = out @ content q'"
  using run_fifo [OF assms(1,3)] assms(2) by simp

end

section \<open>The ring\<close>

definition keyboard_ok :: "keyboard \<Rightarrow> bool" where
  "keyboard_ok s \<longleftrightarrow> key_buffer_pos s < MAX_KEY_BUFFER_SIZE \<and> key_buffer_tail s < MAX_KEY_BUFFER_SIZE"

definition pending_count :: "keyboard \<Rightarrow> nat" where
  "pending_count s = (key_buffer_pos s + MAX_KEY_BUFFER_SIZE - key_buffer_tail s) mod MAX_KEY_BUFFER_SIZE"

definition pending :: "keyboard \<Rightarrow> key_event list" where
  "pending s = map (\<lambda>i. key_buffer s ((key_buffer_tail s + Suc i) mod MAX_KEY_BUFFER_SIZE)) [0..<pending_count s]"

text \<open>The event an interrupt produces, in the modifier state it finds.\<close>

definition key_event_of :: "(nat \<Rightarrow> u8) \<Rightarrow> (nat \<Rightarrow> u8) \<Rightarrow> keyboard \<Rightarrow> key_event" where
  "key_event_of beyond port s = key_buffer (handle_keychange beyond port s) (key_buffer_pos (handle_keychange beyond port s))"

definition poll_event :: "keyboard \<Rightarrow> key_event option \<times> keyboard" where
  "poll_event s = (if key_buffer_tail s = key_buffer_pos s then (None, s)
     else (let (e, s') = next_keycode s in (Some e, s')))"

lemma handle_keychange_ring:
  "key_buffer_pos (handle_keychange beyond port s) = (key_buffer_pos s + 1) mod 20"
  "key_buffer_tail (handle_keychange beyond port s) = key_buffer_tail s"
  "key_buffer (handle_keychange beyond port s) =
     (key_buffer s)((key_buffer_pos s + 1) mod 20 := key_event_of beyond port s)"
  by (simp_all add: handle_keychange_def key_event_of_def Let_def MAX_KEY_BUFFER_SIZE_def split: prod.split)

text \<open>Arithmetic of the two indices.\<close>

lemma count_step:
  fixes p t :: nat
  assumes "p < 20" "t < 20" "(p + 20 - t) mod 20 < 19"
  shows "((p + 1) mod 20 + 20 - t) mod 20 = Suc ((p + 20 - t) mod 20)"
    and "(t + Suc ((p + 20 - t) mod 20)) mod 20 = (p + 1) mod 20"
proof -
  have *: "(p + 20 - t) mod 20 = (if t \<le> p then p - t else p + 20 - t)"
    using assms(1,2) by (auto simp: mod_if)
  have **: "(p + 1) mod 20 = (if p = 19 then 0 else p + 1)"
    using assms(1) by auto
  show "((p + 1) mod 20 + 20 - t) mod 20 = Suc ((p + 20 - t) mod 20)"
    using assms unfolding * ** by (auto simp: mod_if split: if_splits)
  show "(t + Suc ((p + 20 - t) mod 20)) mod 20 = (p + 1) mod 20"
    using assms unfolding * ** by (auto simp: mod_if split: if_splits)
qed

lemma count_pop:
  fixes p t :: nat
  assumes "p < 20" "t < 20" "p \<noteq> t"
  shows "(p + 20 - t) mod 20 = Suc ((p + 20 - (t + 1) mod 20) mod 20)"
  using assms by (auto simp: mod_if)

lemma slots_distinct:
  fixes t i j :: nat
  assumes "t < 20" "i < 20" "j < 20" "(t + i) mod 20 = (t + j) mod 20"
  shows "i = j"
  using assms by (auto simp: mod_if split: if_splits)

lemma arrive_appends:
  assumes "keyboard_ok s" "length (pending s) < 19"
  shows "keyboard_ok (handle_keychange beyond port s) \<and>
    pending (handle_keychange beyond port s) = pending s @ [key_event_of beyond port s]"
proof -
  let ?s = "handle_keychange beyond port s" and ?n = "pending_count s" and ?t = "key_buffer_tail s"
  have ok: "key_buffer_pos s < 20" "?t < 20"
    using assms(1) by (simp_all add: keyboard_ok_def MAX_KEY_BUFFER_SIZE_def)
  have n: "?n = (key_buffer_pos s + 20 - ?t) mod 20" "?n < 19"
    using assms(2) by (simp_all add: pending_def pending_count_def MAX_KEY_BUFFER_SIZE_def)
  note step = count_step [OF ok n(2) [unfolded n(1)]]
  have cnt: "pending_count ?s = Suc ?n"
    using step(1) by (simp add: pending_count_def handle_keychange_ring MAX_KEY_BUFFER_SIZE_def)
  have new: "(?t + Suc ?n) mod 20 = (key_buffer_pos s + 1) mod 20"
    using step(2) n(1) by simp
  have old: "(?t + Suc i) mod 20 \<noteq> (key_buffer_pos s + 1) mod 20" if "i < ?n" for i
    using slots_distinct [of ?t "Suc i" "Suc ?n"] that n(2) ok(2) new by auto
  have "pending ?s = map (\<lambda>i. key_buffer ?s ((?t + Suc i) mod 20)) [0..<?n] @ [key_buffer ?s ((?t + Suc ?n) mod 20)]"
    by (simp add: pending_def cnt handle_keychange_ring(2) MAX_KEY_BUFFER_SIZE_def)
  also have "map (\<lambda>i. key_buffer ?s ((?t + Suc i) mod 20)) [0..<?n] = pending s"
    using old by (simp add: pending_def handle_keychange_ring(3) MAX_KEY_BUFFER_SIZE_def)
  also have "key_buffer ?s ((?t + Suc ?n) mod 20) = key_event_of beyond port s"
    unfolding new by (simp add: handle_keychange_ring(3))
  finally show ?thesis
    using ok by (simp add: keyboard_ok_def handle_keychange_ring MAX_KEY_BUFFER_SIZE_def)
qed

lemma poll_takes:
  assumes "keyboard_ok s"
  shows "keyboard_ok (snd (poll_event s)) \<and>
    (case pending s of [] \<Rightarrow> fst (poll_event s) = None \<and> pending (snd (poll_event s)) = []
     | e # es \<Rightarrow> fst (poll_event s) = Some e \<and> pending (snd (poll_event s)) = es)"
proof (cases "key_buffer_tail s = key_buffer_pos s")
  case True
  then have "pending s = []"
    using assms by (simp add: pending_def pending_count_def keyboard_ok_def MAX_KEY_BUFFER_SIZE_def)
  then show ?thesis using assms True by (simp add: poll_event_def)
next
  case False
  let ?t = "key_buffer_tail s"
  define s' where "s' = s\<lparr>key_buffer_tail := (?t + 1) mod 20\<rparr>"
  have ok: "key_buffer_pos s < 20" "?t < 20"
    using assms by (simp_all add: keyboard_ok_def MAX_KEY_BUFFER_SIZE_def)
  have p: "poll_event s = (Some (key_buffer s ((?t + 1) mod 20)), s')"
    using False by (simp add: poll_event_def next_keycode_def s'_def Let_def MAX_KEY_BUFFER_SIZE_def)
  have cnt: "pending_count s = Suc (pending_count s')"
    using count_pop [OF ok] False by (simp add: pending_count_def s'_def MAX_KEY_BUFFER_SIZE_def)
  have shift: "Suc (Suc ?t mod 20 + x) mod 20 = Suc (Suc (?t + x)) mod 20" for x
    using mod_add_left_eq [of "Suc ?t" 20 "Suc x"] by simp
  have "pending s = key_buffer s ((?t + 1) mod 20) # pending s'"
    unfolding pending_def cnt upt_conv_Cons [OF zero_less_Suc] list.map map_Suc_upt [symmetric]
    by (simp add: s'_def MAX_KEY_BUFFER_SIZE_def shift)
  then show ?thesis
    using ok by (simp add: p) (simp add: s'_def keyboard_ok_def MAX_KEY_BUFFER_SIZE_def)
qed

interpretation ring: event_queue "handle_keychange beyond" "key_event_of beyond" poll_event pending 19 keyboard_ok
  for beyond
  by unfold_locales (use arrive_appends poll_takes in blast)+

section \<open>Modifiers\<close>

text \<open>A shift key: make codes 0x2A and 0x36, break codes 0xAA and 0xB6, as single bytes.\<close>

definition shift_press :: "u8 \<Rightarrow> bool" where
  "shift_press c \<longleftrightarrow> c = 0x2A \<or> c = 0x36"

definition shift_release :: "u8 \<Rightarrow> bool" where
  "shift_release c \<longleftrightarrow> c = 0xAA \<or> c = 0xB6"

definition shifted :: "keyboard \<Rightarrow> bool" where
  "shifted s \<longleftrightarrow> current_masks s AND SHIFT_MASK \<noteq> 0"

text \<open>The interrupts for a sequence of one-byte scancodes.\<close>

definition type_codes :: "(nat \<Rightarrow> u8) \<Rightarrow> u8 list \<Rightarrow> keyboard \<Rightarrow> keyboard" where
  "type_codes beyond cs s = fold (\<lambda>c. handle_keychange beyond (\<lambda>_. c)) cs s"

fun shift_after :: "u8 list \<Rightarrow> bool \<Rightarrow> bool" where
  "shift_after [] b = b"
| "shift_after (c # cs) b = shift_after cs (if shift_press c then True else if shift_release c then False else b)"

lemma read_one: "c \<noteq> 0xE0 \<Longrightarrow> read_codes 4 0 (\<lambda>_. c) codes = (0, codes(0 := c))"
  by (simp add: eval_nat_numeral)

lemma lookup_shift: "i < 89 \<Longrightarrow> (lookup_key beyond i = KEY_SHIFT) = (i = 42 \<or> i = 54)"
proof -
  have "\<forall>i\<in>set [0..<89]. (key_lookup ! i = KEY_SHIFT) = (i = 42 \<or> i = 54)"
    by code_simp
  moreover have "length key_lookup = 89"
    by code_simp
  ultimately show "i < 89 \<Longrightarrow> (lookup_key beyond i = KEY_SHIFT) = (i = 42 \<or> i = 54)"
    by (simp add: lookup_key_def)
qed

lemma shift_codes:
  assumes "unat c mod 0x80 < 89"
  shows "(lookup_key beyond (unat c mod 0x80) = KEY_SHIFT \<and> \<not> c > 0x80) = shift_press c"
    and "(lookup_key beyond (unat c mod 0x80) = KEY_SHIFT \<and> c > 0x80) = shift_release c"
proof -
  have u: "(c = w) = (unat c = unat w)" for w :: u8
    by (simp add: word_eq_iff_unsigned)
  have "unat c < 256" using unsigned_less [of c] by simp
  then have c: "unat c mod 128 = (if unat c < 128 then unat c else unat c - 128)"
    by (auto simp: mod_if)
  show "(lookup_key beyond (unat c mod 0x80) = KEY_SHIFT \<and> \<not> c > 0x80) = shift_press c"
    "(lookup_key beyond (unat c mod 0x80) = KEY_SHIFT \<and> c > 0x80) = shift_release c"
    using assms c \<open>unat c < 256\<close>
    by (auto simp: lookup_shift shift_press_def shift_release_def u word_less_nat_alt split: if_splits)
qed

lemma handle_shift:
  assumes "c \<noteq> 0xE0" "unat c mod 0x80 < 89"
  shows "shifted (handle_keychange beyond (\<lambda>_. c) s) =
    (if shift_press c then True else if shift_release c then False else shifted s)"
proof -
  have m: "(m OR 4) AND 4 \<noteq> (0 :: u8)" "(m AND - 5) AND 4 = (0 :: u8)" for m
  proof -
    have "(m OR 4) AND 4 = 4"
      by (rule bit_word_eqI) (auto simp: bit_and_iff bit_or_iff)
    then show "(m OR 4) AND 4 \<noteq> (0 :: u8)" by simp
    show "(m AND - 5) AND 4 = (0 :: u8)"
      by (simp add: and.assoc)
  qed
  note codes = shift_codes [OF assms(2), of beyond]
  show ?thesis
    using codes assms(1)
    by (auto simp: shifted_def handle_keychange_def Let_def read_one m)
qed

section \<open>Properties\<close>

definition demo_keyboard :: keyboard where
  "demo_keyboard = \<lparr>key_buffer = (\<lambda>_. \<lparr>code = 0, masks = 0\<rparr>), key_buffer_pos = 0, key_buffer_tail = 0,
     current_masks = 0, key_codes = (\<lambda>_. 0)\<rparr>"

text \<open>
  C19. The terminal sees every key event exactly once and in the order of the interrupts, however
  interrupts and polls interleave, as long as no interrupt arrives with 19 events pending: what was
  pending before followed by what arrived is what was delivered followed by what is still pending.
\<close>

theorem key_events_fifo:
  assumes "keyboard_ok s"
    and "queue_run (handle_keychange beyond) (key_event_of beyond) poll_event pending 19 as s = Some (out, inp, s')"
  shows "keyboard_ok s' \<and> pending s @ inp = out @ pending s'"
  by (rule ring.run_fifo [OF assms])

theorem key_events_fifo_witness:
  "\<exists>out inp s'. queue_run (handle_keychange (\<lambda>_. 0)) (key_event_of (\<lambda>_. 0)) poll_event pending 19
       [Arrive (\<lambda>_. 0x1E), Poll, Poll] demo_keyboard = Some (out, inp, s') \<and>
     keyboard_ok s' \<and> pending demo_keyboard @ inp = out @ pending s'"
proof -
  have "keyboard_ok demo_keyboard" "pending demo_keyboard = []"
    by (simp_all add: keyboard_ok_def pending_def pending_count_def demo_keyboard_def MAX_KEY_BUFFER_SIZE_def)
  moreover from this have "queue_run (handle_keychange (\<lambda>_. 0)) (key_event_of (\<lambda>_. 0)) poll_event pending 19
       [Arrive (\<lambda>_. 0x1E), Poll, Poll] demo_keyboard \<noteq> None"
    by (simp split: prod.split)
  then obtain out inp s' where
    "queue_run (handle_keychange (\<lambda>_. 0)) (key_event_of (\<lambda>_. 0)) poll_event pending 19
       [Arrive (\<lambda>_. 0x1E), Poll, Poll] demo_keyboard = Some (out, inp, s')"
    by auto
  ultimately show ?thesis
    using key_events_fifo by blast
qed

text \<open>
  When 19 events are pending, the next key event makes the ring look empty: all twenty are lost.
\<close>

theorem twentieth_event_empties:
  assumes "keyboard_ok s" and "length (pending s) = 19"
  shows "pending (handle_keychange beyond port s) = []"
proof -
  have "(key_buffer_pos s + 20 - key_buffer_tail s) mod 20 = 19" "key_buffer_pos s < 20" "key_buffer_tail s < 20"
    using assms by (simp_all add: pending_def pending_count_def keyboard_ok_def MAX_KEY_BUFFER_SIZE_def)
  then have "((key_buffer_pos s + 1) mod 20 + 20 - key_buffer_tail s) mod 20 = 0"
    by (auto simp: mod_if split: if_splits)
  then have "pending_count (handle_keychange beyond port s) = 0"
    by (simp add: pending_count_def handle_keychange_ring MAX_KEY_BUFFER_SIZE_def)
  then show ?thesis
    by (simp add: pending_def)
qed

theorem twentieth_event_empties_witness:
  "pending (handle_keychange (\<lambda>_. 0) (\<lambda>_. 0x1E) (demo_keyboard\<lparr>key_buffer_pos := 19\<rparr>)) = []"
  by (rule twentieth_event_empties)
    (simp_all add: keyboard_ok_def pending_def pending_count_def demo_keyboard_def MAX_KEY_BUFFER_SIZE_def)

text \<open>
  C27. The shift state follows the shift keys: after any sequence of one-byte scancodes of keys in the
  lookup table, shift is on exactly when the last shift code was a press (or none came and it was
  on before).
\<close>

theorem shift_follows_keys:
  assumes "\<forall>c\<in>set cs. c \<noteq> 0xE0 \<and> unat c mod 0x80 < 89"
  shows "shifted (type_codes beyond cs s) = shift_after cs (shifted s)"
  using assms
proof (induction cs arbitrary: s)
  case (Cons c cs)
  then show ?case
    using handle_shift [of c beyond s] by (simp add: type_codes_def)
qed (simp add: type_codes_def)

theorem shift_follows_keys_witness:
  "shifted (type_codes (\<lambda>_. 0) [0x2A, 0x1E, 0xAA] demo_keyboard) = shift_after [0x2A, 0x1E, 0xAA] (shifted demo_keyboard)"
  by (rule shift_follows_keys) simp

text \<open>
  No two key presses are confused: among the keys and shift states that give a character, other
  than the four keys that ignore shift, different presses give different characters, and none of
  them is the character of those four keys or the "no character" value.
\<close>

theorem keysym_injective:
  "distinct (concat (map (\<lambda>(k, up, down). if k \<in> {1, 2, 3, 5} then [down] else [up, down]) keysym_table)) \<and>
   distinct (map fst keysym_table) \<and>
   list_all (\<lambda>(k, up, down).
      keycode_to_keysym \<lparr>code = k, masks = SHIFT_MASK\<rparr> = up \<and> keycode_to_keysym \<lparr>code = k, masks = 0\<rparr> = down \<and>
      up \<noteq> 0 \<and> down \<noteq> 0) keysym_table"
proof (intro conjI)
  have distinct_nat: "distinct (map unat xs) \<Longrightarrow> distinct xs" for xs :: "u8 list"
    by (simp add: distinct_map)
  show "distinct (concat (map (\<lambda>(k, up, down). if k \<in> {1, 2, 3, 5} then [down] else [up, down]) keysym_table))"
    by (rule distinct_nat) code_simp
  show keys: "distinct (map fst keysym_table)"
    by (rule distinct_nat) code_simp
  have nz: "list_all (\<lambda>(k, up, down). up \<noteq> 0 \<and> down \<noteq> 0) keysym_table"
    by code_simp
  show "list_all (\<lambda>(k, up, down).
      keycode_to_keysym \<lparr>code = k, masks = SHIFT_MASK\<rparr> = up \<and> keycode_to_keysym \<lparr>code = k, masks = 0\<rparr> = down \<and>
      up \<noteq> 0 \<and> down \<noteq> 0) keysym_table"
    using nz map_of_is_SomeI [OF keys] by (auto simp: list_all_iff keycode_to_keysym_def)
qed

end
