(* ===== verification/Devices.thy ===== *)
theory Devices
  imports Acpi "HOL-Library.Monad_Syntax"
begin

text \<open>
  The interrupt controllers, the timers and the PS/2 controller: \<open>drivers/apic.c\<close>, \<open>drivers/timer.c\<close>,
  \<open>drivers/ps2.c\<close> and the set-up part of \<open>drivers/keyboard.c\<close>. The state is the history of accesses
  to ports and memory-mapped registers, newest first; the hardware is any function that answers a
  read from that history.
\<close>

section \<open>Accesses\<close>

datatype io_event =
    Out u16 u8
  | In u16 u8
  | Load u32 u32
  | Store u32 u32

type_synonym history = "io_event list"

record device =
  port_value :: "history \<Rightarrow> u16 \<Rightarrow> u8"
  mmio_value :: "history \<Rightarrow> u32 \<Rightarrow> u32"

definition outportb :: "u16 \<Rightarrow> u8 \<Rightarrow> history \<Rightarrow> history" where
  "outportb p v t = Out p v # t"

definition inportb :: "device \<Rightarrow> u16 \<Rightarrow> history \<Rightarrow> u8 \<times> history" where
  "inportb d p t = (let v = port_value d t p in (v, In p v # t))"

definition io_wait :: "history \<Rightarrow> history" where
  "io_wait t = outportb 0x80 0 t"

definition store_reg :: "u32 \<Rightarrow> u32 \<Rightarrow> history \<Rightarrow> history" where
  "store_reg a v t = Store a v # t"

definition load_reg :: "device \<Rightarrow> u32 \<Rightarrow> history \<Rightarrow> u32 \<times> history" where
  "load_reg d a t = (let v = mmio_value d t a in (v, Load a v # t))"

section \<open>The PS/2 controller\<close>

definition check_status :: "device \<Rightarrow> history \<Rightarrow> u8 \<times> history" where
  "check_status d t = inportb d 0x64 t"

text \<open>The bounded waits: \<open>n\<close> is how often the status may still be found wrong.\<close>

fun wait_send :: "device \<Rightarrow> nat \<Rightarrow> history \<Rightarrow> bool \<times> history" where
  "wait_send d n t =
     (let (s, t1) = check_status d t
      in if s AND 2 = 0 then (True, t1)
         else case n of 0 \<Rightarrow> (False, t1) | Suc k \<Rightarrow> wait_send d k t1)"

definition ps2_send_byte_port1 :: "device \<Rightarrow> u8 \<Rightarrow> history \<Rightarrow> history" where
  "ps2_send_byte_port1 d byte t =
     (let (free, t1) = wait_send d 3200 t in if free then outportb 0x60 byte t1 else t1)"

definition ps2_send_byte_port2 :: "device \<Rightarrow> u8 \<Rightarrow> history \<Rightarrow> history" where
  "ps2_send_byte_port2 d byte t =
     (let (free, t1) = wait_send d 3200 (outportb 0x64 0xD4 t) in if free then outportb 0x60 byte t1 else t1)"

partial_function (option) wait_data :: "device \<Rightarrow> history \<Rightarrow> history option" where
  "wait_data d t = (let (s, t1) = check_status d t in if s AND 1 \<noteq> 0 then Some t1 else wait_data d t1)"

declare wait_data.simps [code]

definition ps2_get_responce :: "device \<Rightarrow> history \<Rightarrow> (u8 \<times> history) option" where
  "ps2_get_responce d t = map_option (inportb d 0x60) (wait_data d t)"

fun wait_data_to :: "device \<Rightarrow> nat \<Rightarrow> history \<Rightarrow> bool \<times> history" where
  "wait_data_to d n t =
     (let (s, t1) = check_status d t
      in if s AND 1 \<noteq> 0 then (True, t1)
         else case n of 0 \<Rightarrow> (False, t1) | Suc k \<Rightarrow> wait_data_to d k t1)"

definition ps2_get_responce_to :: "device \<Rightarrow> u32 \<Rightarrow> history \<Rightarrow> u8 \<times> history" where
  "ps2_get_responce_to d timeout t =
     (let (there, t1) = wait_data_to d (unat timeout) t in if there then inportb d 0x60 t1 else (0, t1))"

text \<open>The loop of \<open>ps2_send_dbyte\<close> reads the status a second time, to log it.\<close>

partial_function (option) wait_room_logged :: "device \<Rightarrow> history \<Rightarrow> history option" where
  "wait_room_logged d t =
     (let (s, t1) = check_status d t
      in if s AND 2 = 0 then Some t1 else wait_room_logged d (snd (check_status d t1)))"

declare wait_room_logged.simps [code]

definition ps2_send_dbyte :: "device \<Rightarrow> u8 \<Rightarrow> u8 \<Rightarrow> history \<Rightarrow> history option" where
  "ps2_send_dbyte d byte1 byte2 t = map_option (outportb 0x64 byte2) (wait_room_logged d (outportb 0x64 byte1 t))"

partial_function (option) wait_room :: "device \<Rightarrow> history \<Rightarrow> history option" where
  "wait_room d t = (let (s, t1) = check_status d t in if s AND 2 = 0 then Some t1 else wait_room d t1)"

declare wait_room.simps [code]

definition ps2_send_command :: "device \<Rightarrow> u8 \<Rightarrow> history \<Rightarrow> history option" where
  "ps2_send_command d byte t = map_option (outportb 0x64 byte) (wait_room d t)"

text \<open>
  \<open>init_ps2_controller\<close> in its phases: flush and configure; find out whether there are two channels; test
  the ports; enable and reset the devices.
\<close>

definition ps2_configure :: "device \<Rightarrow> history \<Rightarrow> history option" where
  "ps2_configure d t =
     (let t1 = io_wait (outportb 0x64 0xA7 (outportb 0x64 0xAD t));
          (_, t2) = inportb d 0x60 t1;
          (status, t3) = inportb d 0x64 (io_wait t2);
          (config, t4) = inportb d 0x60 (io_wait (outportb 0x64 0x20 t3))
      in do {
        t5 \<leftarrow> ps2_send_dbyte d 0x60 (config AND 0xae) (io_wait t4);
        t6 \<leftarrow> ps2_send_command d 0x20 t5;
        Some (outportb 0x64 0xAA t6)
      })"

definition ps2_channels :: "device \<Rightarrow> history \<Rightarrow> (bool \<times> u8 \<times> history) option" where
  "ps2_channels d t =
     do {
       t1 \<leftarrow> ps2_send_command d 0xA8 t;
       t2 \<leftarrow> ps2_send_command d 0x20 t1;
       (dchannel, t3) \<leftarrow> ps2_get_responce d t2;
       if dchannel AND 0x20 = 0 then
         do {
           t4 \<leftarrow> ps2_send_command d 0xA7 t3;
           t5 \<leftarrow> ps2_send_dbyte d 0x60 (dchannel AND 0xdd) t4;
           Some (True, dchannel AND 0xdd, t5)
         }
       else Some (False, dchannel, t3)
     }"

definition ps2_test_ports :: "device \<Rightarrow> bool \<Rightarrow> history \<Rightarrow> (nat \<times> history) option" where
  "ps2_test_ports d dual t =
     do {
       t1 \<leftarrow> ps2_send_command d 0xAB t;
       (port_test, t2) \<leftarrow> ps2_get_responce d t1;
       let n = (if port_test \<noteq> 0 then 1 else 0);
       if dual then
         do {
           t3 \<leftarrow> ps2_send_command d 0xA9 t2;
           (r, t4) \<leftarrow> ps2_get_responce d t3;
           Some (if r = 0 then n + 1 else n, t4)
         }
       else Some (n, t2)
     }"

definition ps2_reset_devices :: "device \<Rightarrow> bool \<Rightarrow> history \<Rightarrow> history" where
  "ps2_reset_devices d dual t =
     (let t1 = ps2_send_byte_port1 d 0xFF (ps2_send_byte_port1 d 0xFF t);
          (resp, t2) = ps2_get_responce_to d 32000 t1;
          t3 = (if resp \<noteq> 0 \<and> resp \<noteq> 0xFC then snd (inportb d 0x60 t2) else t2)
      in if \<not> dual then t3
         else let t4 = ps2_send_byte_port2 d 0xFF (ps2_send_byte_port2 d 0xFF t3);
                  (resp2, t5) = ps2_get_responce_to d 3200000 t4
           in if resp2 \<noteq> 0 \<and> resp2 \<noteq> 0xFC
              then snd (ps2_get_responce_to d 32 (snd (ps2_get_responce_to d 32 t5))) else t5)"

definition init_ps2_controller :: "device \<Rightarrow> history \<Rightarrow> history option" where
  "init_ps2_controller d t =
     do {
       t1 \<leftarrow> ps2_configure d t;
       (dual, dchannel, t2) \<leftarrow> ps2_channels d t1;
       (total_ports, t3) \<leftarrow> ps2_test_ports d dual t2;
       if total_ports = 0 then Some t3
       else do {
         t4 \<leftarrow> ps2_send_command d 0xAE t3;
         (dc, t5) \<leftarrow> (if dual then map_option (\<lambda>t'. (dchannel OR 2, t')) (ps2_send_command d 0xA8 t4)
                     else Some (dchannel, t4));
         t6 \<leftarrow> ps2_send_dbyte d 0x60 (dc OR 1) t5;
         Some (ps2_reset_devices d dual t6)
       }
     }"

section \<open>Interrupt controllers\<close>

definition read_ioapic_register :: "device \<Rightarrow> u32 \<Rightarrow> u32 \<Rightarrow> history \<Rightarrow> u32 \<times> history" where
  "read_ioapic_register d glob_ioapic_addr reg t = load_reg d (glob_ioapic_addr + 0x10) (store_reg glob_ioapic_addr reg t)"

definition write_ioapic_register :: "u32 \<Rightarrow> u32 \<Rightarrow> u32 \<Rightarrow> history \<Rightarrow> history" where
  "write_ioapic_register glob_ioapic_addr reg data t =
     store_reg (glob_ioapic_addr + 0x10) data (store_reg glob_ioapic_addr reg t)"

definition lapic_write_reg :: "u32 \<Rightarrow> u32 \<Rightarrow> u32 \<Rightarrow> history \<Rightarrow> history" where
  "lapic_write_reg glob_lapic_addr reg data t = store_reg (glob_lapic_addr + reg) data t"

definition lapic_read_reg :: "device \<Rightarrow> u32 \<Rightarrow> u32 \<Rightarrow> history \<Rightarrow> u32 \<times> history" where
  "lapic_read_reg d glob_lapic_addr reg t = load_reg d (glob_lapic_addr + reg) t"

definition lapic_timer_init :: "u32 \<Rightarrow> history \<Rightarrow> history" where
  "lapic_timer_init glob_lapic_addr t = store_reg (glob_lapic_addr + 0x320) (0x30 OR push_bit 16 1) t"

definition set_initial_lapic_timer_count :: "u32 \<Rightarrow> u32 \<Rightarrow> history \<Rightarrow> history" where
  "set_initial_lapic_timer_count glob_lapic_addr cnt t = store_reg (glob_lapic_addr + 0x380) cnt t"

definition get_lapic_timer_count :: "device \<Rightarrow> u32 \<Rightarrow> history \<Rightarrow> u32 \<times> history" where
  "get_lapic_timer_count d glob_lapic_addr t = lapic_read_reg d glob_lapic_addr 0x390 t"

definition send_EOI :: "u32 \<Rightarrow> history \<Rightarrow> history" where
  "send_EOI apic_addr t = store_reg (apic_addr + 0xB0) 0 t"

text \<open>The search of the timer's override reads entry 0 twice: the step uses the count and then raises it.\<close>

partial_function (option) pit_loop :: "u32 \<Rightarrow> mem \<Rightarrow> u8 \<Rightarrow> u32 \<Rightarrow> u32 option" where
  "pit_loop madt m cnt candidate =
     (if candidate = 0 then Some 0
      else if m candidate = 0 then Some candidate
      else Option.bind (get_madt_entry madt 2 cnt m) (pit_loop madt m (cnt + 1)))"

declare pit_loop.simps [code]

definition ioapic_pit_irq :: "u32 \<Rightarrow> mem \<Rightarrow> u8 outcome" where
  "ioapic_pit_irq madt m =
     do {
       first \<leftarrow> get_madt_entry madt 2 0 m;
       candidate \<leftarrow> pit_loop madt m 0 first;
       Some (if candidate = 0 then Inl (PageFault 2) else Inr (ucast (get32 m (candidate + 2))))
     }"

text \<open>\<open>init_ioapic\<close> after the mapping of the controller's registers at \<open>ioapic\<close>; the register number is a byte.\<close>

definition init_ioapic :: "u32 \<Rightarrow> u32 \<Rightarrow> mem \<Rightarrow> history \<Rightarrow> history outcome" where
  "init_ioapic ioapic madt m t =
     bind_out (ioapic_pit_irq madt m)
       (\<lambda>irq. let pit_reg = irq * 2 + 0x10
         in Some (Inr (write_ioapic_register ioapic (ucast pit_reg + 1) 0
              (write_ioapic_register ioapic (ucast pit_reg) 49 t))))"

section \<open>Timers\<close>

definition set_pit_one_shot :: "u16 \<Rightarrow> history \<Rightarrow> history" where
  "set_pit_one_shot cnt t =
     outportb 0x40 (ucast (drop_bit 8 cnt)) (outportb 0x40 (ucast (cnt AND 0xFF)) (outportb 0x43 0x30 t))"

text \<open>
  One round of \<open>calibrate_timer\<close>: the wait for the interrupt of the PIT, which clears \<open>calibrating\<close>, ends when
  \<open>fires\<close> says that it comes.
\<close>

fun calibrate_rounds :: "device \<Rightarrow> (history \<Rightarrow> bool) \<Rightarrow> u32 \<Rightarrow> nat \<Rightarrow> u32 \<Rightarrow> history \<Rightarrow> (u32 \<times> history) option" where
  "calibrate_rounds d fires lapic 0 acc t = Some (acc, t)"
| "calibrate_rounds d fires lapic (Suc n) acc t =
     (let t1 = set_initial_lapic_timer_count lapic 0xFFFFFFFF (set_pit_one_shot (1197 * 10) t)
      in if \<not> fires t1 then None
         else let (c, t2) = lapic_read_reg d lapic 0x390 t1
              in calibrate_rounds d fires lapic n (acc + (0xFFFFFFFF - c)) t2)"

definition calibrate_timer :: "device \<Rightarrow> (history \<Rightarrow> bool) \<Rightarrow> u32 \<Rightarrow> history \<Rightarrow> (u32 \<times> history) option" where
  "calibrate_timer d fires lapic t =
     map_option (\<lambda>(acc, t1). (acc div 100, lapic_write_reg lapic 0x320 (0x30 OR push_bit 17 1) t1))
       (calibrate_rounds d fires lapic 10 0 (lapic_write_reg lapic 0x320 (push_bit 16 1) t))"

text \<open>\<open>init_apic\<close> with the registers mapped at \<open>lapic\<close> and \<open>ioapic\<close>; the result is \<open>ticks_per_ms\<close>.\<close>

definition init_apic :: "device \<Rightarrow> (history \<Rightarrow> bool) \<Rightarrow> u32 \<Rightarrow> u32 \<Rightarrow> u32 \<Rightarrow> mem \<Rightarrow> history \<Rightarrow> (u32 \<times> history) outcome" where
  "init_apic d fires lapic ioapic madt m t =
     (let (spur, t1) = load_reg d (lapic + 0xF0) t;
          t2 = store_reg (lapic + 0xF0) (spur OR 0x1FF) t1;
          (apic_id, t3) = lapic_read_reg d lapic 0x20 t2
      in bind_out (init_ioapic ioapic madt m (lapic_timer_init lapic t3))
           (\<lambda>t4. map_option Inr (calibrate_timer d fires lapic t4)))"

definition poll_timer :: "device \<Rightarrow> u32 \<Rightarrow> history \<Rightarrow> u32 \<times> history" where
  "poll_timer d lapic t = get_lapic_timer_count d lapic t"

definition arm_interrupt_timer :: "device \<Rightarrow> u32 \<Rightarrow> u32 \<Rightarrow> history \<Rightarrow> history" where
  "arm_interrupt_timer d lapic ticks t =
     (let (v, t1) = lapic_read_reg d lapic 0x320 t
      in set_initial_lapic_timer_count lapic ticks (lapic_write_reg lapic 0x320 (v AND 0xFF) t1))"

partial_function (option) poll_loop :: "device \<Rightarrow> u32 \<Rightarrow> history \<Rightarrow> history option" where
  "poll_loop d lapic t = (let (v, t1) = poll_timer d lapic t in if v = 0 then Some t1 else poll_loop d lapic t1)"

declare poll_loop.simps [code]

definition polled_sleep :: "device \<Rightarrow> u32 \<Rightarrow> u32 \<Rightarrow> u32 \<Rightarrow> history \<Rightarrow> history option" where
  "polled_sleep d lapic ticks_per_ms time t =
     (let (first_count, t1) = get_lapic_timer_count d lapic t
      in poll_loop d lapic (arm_interrupt_timer d lapic (time * ticks_per_ms) t1))"

section \<open>The legacy interrupt controllers\<close>

definition disable_pic :: "history \<Rightarrow> history" where
  "disable_pic t =
     (let t1 = io_wait (outportb 0xA0 0x11 (io_wait (outportb 0x20 0x11 t)));
          t2 = io_wait (outportb 0xA1 0x28 (io_wait (outportb 0x21 0x20 t1)));
          t3 = io_wait (outportb 0xA1 0x04 (io_wait (outportb 0x21 0x02 t2)));
          t4 = io_wait (outportb 0xA1 0x01 (io_wait (outportb 0x21 0x01 t3)))
      in outportb 0xA1 0xFF (io_wait (outportb 0x21 0xFF t4)))"

section \<open>The keyboard's controller\<close>

text \<open>
  \<open>init_keyboard\<close> without the buffer of four bytes it allocates. The scancode set is checked only when
  bit 6 of the first answer is clear and bit 7 too.
\<close>

definition init_keyboard :: "device \<Rightarrow> u32 \<Rightarrow> history \<Rightarrow> history outcome" where
  "init_keyboard d ioapic t0 =
     do {
       t \<leftarrow> init_ps2_controller d t0;
       let (trans, t1) = inportb d 0x60 (outportb 0x64 0x20 t);
       let t2 = io_wait (outportb 0x60 2 (io_wait (outportb 0x60 0xF0 (io_wait t1))));
       let (ack, t3) = inportb d 0x60 t2;
       let (keyset, t4) = inportb d 0x60 (io_wait t3);
       if drop_bit 6 trans = 0 \<and> keyset \<noteq> 0x43 then Some (Inl (Panic ''Keyboard type not supported''))
       else do {
         let t5 = write_ioapic_register ioapic (0x12 + 1) 0 (write_ioapic_register ioapic 0x12 50 t4);
         let (stat_reg, t6) = inportb d 0x60 (outportb 0x64 0x20 t5);
         Some (Inr (snd (inportb d 0x60 (outportb 0x60 (stat_reg OR 1) (outportb 0x64 0x60 t6)))))
       }
     }"

section \<open>Properties\<close>

declare wait_send.simps [simp del]

lemma wait_send_free:
  "port_value d t 0x64 AND 2 = 0 \<Longrightarrow> wait_send d n t = (True, In 0x64 (port_value d t 0x64) # t)"
  by (subst wait_send.simps) (simp add: check_status_def inportb_def Let_def)

lemma wait_send_busy:
  "port_value d t 0x64 AND 2 \<noteq> 0 \<Longrightarrow> wait_send d 0 t = (False, In 0x64 (port_value d t 0x64) # t)"
  "port_value d t 0x64 AND 2 \<noteq> 0 \<Longrightarrow> wait_send d (Suc n) t = wait_send d n (In 0x64 (port_value d t 0x64) # t)"
  by (subst wait_send.simps, simp add: check_status_def inportb_def Let_def)+

lemma wait_send_ok:
  "\<exists>busy s. (\<forall>e \<in> set busy. \<exists>v. e = In 0x64 v \<and> v AND 2 \<noteq> 0) \<and>
     ((wait_send d n t = (True, In 0x64 s # busy @ t) \<and> s AND 2 = 0 \<and> length busy \<le> n) \<or>
      (wait_send d n t = (False, busy @ t) \<and> length busy = Suc n))"
proof (induction n arbitrary: t)
  case 0
  let ?s = "port_value d t 0x64"
  show ?case
  proof (cases "?s AND 2 = 0")
    case True
    then show ?thesis
      by (intro exI [of _ "[]"] exI [of _ ?s]) (simp add: wait_send_free)
  next
    case False
    then show ?thesis
      by (intro exI [of _ "[In 0x64 ?s]"] exI [of _ 0]) (simp add: wait_send_busy)
  qed
next
  case (Suc n)
  let ?s = "port_value d t 0x64"
  show ?case
  proof (cases "?s AND 2 = 0")
    case True
    then show ?thesis
      by (intro exI [of _ "[]"] exI [of _ ?s]) (simp add: wait_send_free)
  next
    case False
    obtain busy s where b: "\<forall>e \<in> set busy. \<exists>v. e = In 0x64 v \<and> v AND 2 \<noteq> 0"
      "(wait_send d n (In 0x64 ?s # t) = (True, In 0x64 s # busy @ In 0x64 ?s # t) \<and> s AND 2 = 0 \<and> length busy \<le> n) \<or>
       (wait_send d n (In 0x64 ?s # t) = (False, busy @ In 0x64 ?s # t) \<and> length busy = Suc n)"
      using Suc.IH [of "In 0x64 ?s # t"] by blast
    show ?thesis
      by (rule exI [of _ "busy @ [In 0x64 ?s]"], rule exI [of _ s]) (use b False wait_send_busy(2) [OF False] in auto)
  qed
qed

text \<open>
  C31. Sending a byte to the keyboard always ends, after at most 3201 reads of the status. The byte is written to
  the data port only right after a status that says the input buffer is free; when all 3201 reads say
  that it is full, nothing is written at all.
\<close>

theorem ps2_send_bounded:
  "\<exists>busy s. (\<forall>e \<in> set busy. \<exists>v. e = In 0x64 v \<and> v AND 2 \<noteq> 0) \<and>
     ((ps2_send_byte_port1 d byte t = Out 0x60 byte # In 0x64 s # busy @ t \<and> s AND 2 = 0 \<and> length busy \<le> 3200) \<or>
      (ps2_send_byte_port1 d byte t = busy @ t \<and> length busy = 3201))"
proof -
  obtain busy s where b: "\<forall>e \<in> set busy. \<exists>v. e = In 0x64 v \<and> v AND 2 \<noteq> 0"
    "(wait_send d 3200 t = (True, In 0x64 s # busy @ t) \<and> s AND 2 = 0 \<and> length busy \<le> 3200) \<or>
     (wait_send d 3200 t = (False, busy @ t) \<and> length busy = Suc 3200)"
    using wait_send_ok by blast
  then show ?thesis
    by (intro exI [of _ busy] exI [of _ s]) (auto simp: ps2_send_byte_port1_def outportb_def)
qed

text \<open>A controller that is free at the third read.\<close>

definition slow_port :: device where
  "slow_port = \<lparr>port_value = (\<lambda>t p. if length t < 2 then 2 else 0), mmio_value = (\<lambda>t a. 0xFFFF0000)\<rparr>"

theorem ps2_send_bounded_witness:
  "ps2_send_byte_port1 slow_port 0xFF [] = [Out 0x60 0xFF, In 0x64 0, In 0x64 2, In 0x64 2] \<and>
    (\<exists>busy. length busy \<le> 3200 \<and> (\<forall>e \<in> set busy. \<exists>v. e = In 0x64 v \<and> v AND 2 \<noteq> 0))"
proof -
  have "\<exists>busy. length busy \<le> 3200 \<and> (\<forall>e \<in> set busy. \<exists>v. e = In 0x64 v \<and> v AND 2 \<noteq> 0)"
    using ps2_send_bounded [of slow_port "0xFF" "[]"] by (auto intro: exI [of _ "[]"])
  moreover have "ps2_send_byte_port1 slow_port 0xFF [] = [Out 0x60 0xFF, In 0x64 0, In 0x64 2, In 0x64 2]"
  proof -
    have pv: "port_value slow_port t p = (if length t < 2 then 2 else 0)" for t p
      by (simp add: slow_port_def)
    have "wait_send slow_port (Suc (Suc 3198)) [] = (True, [In 0x64 0, In 0x64 2, In 0x64 2])"
      by (simp add: wait_send_busy wait_send_free pv del: Suc_numeral)
    then have "wait_send slow_port 3200 [] = (True, [In 0x64 0, In 0x64 2, In 0x64 2])"
      by simp
    then show ?thesis
      by (simp add: ps2_send_byte_port1_def outportb_def)
  qed
  ultimately show ?thesis by blast
qed

lemma calibrate_rounds_ok:
  assumes "\<And>t. fires t" and "\<And>t. mmio_value d t (lapic + 0x390) = 0xFFFFFFFF - r"
  shows "\<exists>t'. calibrate_rounds d fires lapic n acc t = Some (acc + of_nat n * r, t')"
proof (induction n arbitrary: acc t)
  case 0
  then show ?case by simp
next
  case (Suc n)
  let ?t = "set_initial_lapic_timer_count lapic 0xFFFFFFFF (set_pit_one_shot (1197 * 10) t)"
  have "lapic_read_reg d lapic 0x390 ?t = (0xFFFFFFFF - r, Load (lapic + 0x390) (0xFFFFFFFF - r) # ?t)"
    unfolding lapic_read_reg_def load_reg_def assms(2) Let_def ..
  then have "calibrate_rounds d fires lapic (Suc n) acc t =
      calibrate_rounds d fires lapic n (acc + r) (Load (lapic + 0x390) (0xFFFFFFFF - r) # ?t)"
    using assms(1) by (simp add: Let_def)
  then show ?case
    using Suc.IH [of "acc + r"] by (simp add: algebra_simps)
qed

text \<open>
  When every round of the calibration counts \<open>r\<close> ticks in its ten milliseconds, and the ten rounds together
  stay below 2^32, the calibration returns a tenth of \<open>r\<close> as the ticks of one millisecond.
\<close>

theorem calibrate_constant_rate:
  assumes "\<And>t. fires t" and "\<And>t. mmio_value d t (lapic + 0x390) = 0xFFFFFFFF - r" and "10 * unat r < 2 ^ 32"
  shows "\<exists>t'. calibrate_timer d fires lapic t = Some (r div 10, t')"
proof -
  have "unat (10 * r) = 10 * unat r"
    using assms(3) by (simp add: unat_word_ariths)
  then have "unat (10 * r div 100) = 10 * unat r div 100"
    by (simp add: unat_div)
  also have "\<dots> = unat (r div 10)"
    by (simp add: unat_div div_mult2_eq [of "10 * unat r" 10 10, simplified])
  finally have "10 * r div 100 = r div 10"
    by (rule word_unat_eq_iff [THEN iffD2])
  then show ?thesis
    using calibrate_rounds_ok [of fires d lapic r 10 0 "lapic_write_reg lapic 0x320 (push_bit 16 1) t"] assms(1,2)
    by (auto simp: calibrate_timer_def)
qed

theorem calibrate_constant_rate_witness:
  "\<exists>t'. calibrate_timer slow_port (\<lambda>_. True) 0xFEE00000 [] = Some (6553, t')"
  using calibrate_constant_rate [of "\<lambda>_. True" slow_port "0xFEE00000" "0xFFFF" "[]"]
  by (simp add: slow_port_def)

text \<open>The GSI of the first override in a list of entries.\<close>

definition override_gsi :: "mem \<Rightarrow> u32 list \<Rightarrow> u8 result" where
  "override_gsi m xs =
     (case filter (\<lambda>e. m (e + 2) = 0) xs of [] \<Rightarrow> Inl (PageFault 2) | e # _ \<Rightarrow> Inr (ucast (get32 m (e + 4))))"

lemma pit_loop_ok:
  assumes get: "\<And>c. c \<le> length xs \<Longrightarrow> get_madt_entry madt 2 (of_nat c) m = Some (if c < length xs then xs ! c + 2 else 0)"
    and nz: "\<And>e. e \<in> set xs \<Longrightarrow> e + 2 \<noteq> 0"
  shows "c \<le> length xs \<Longrightarrow> pit_loop madt m (of_nat (Suc c)) (if c < length xs then xs ! c + 2 else 0) =
    Some (case filter (\<lambda>e. m (e + 2) = 0) (drop c xs) of [] \<Rightarrow> 0 | e # _ \<Rightarrow> e + 2)"
proof (induction "length xs - c" arbitrary: c)
  case 0
  then show ?case by (subst pit_loop.simps) simp
next
  case (Suc k)
  then have c: "c < length xs" by simp
  have drop: "drop c xs = xs ! c # drop (Suc c) xs"
    using c by (simp add: Cons_nth_drop_Suc)
  have nzc: "xs ! c + 2 \<noteq> 0"
    using nz c by simp
  show ?case
  proof (cases "m (xs ! c + 2) = 0")
    case True
    then show ?thesis
      using c nzc by (subst pit_loop.simps) (simp add: drop)
  next
    case False
    have "pit_loop madt m (of_nat (Suc c)) (xs ! c + 2) =
        pit_loop madt m (of_nat (Suc (Suc c))) (if Suc c < length xs then xs ! Suc c + 2 else 0)"
      using False nzc get [of "Suc c"] c by (subst pit_loop.simps) (simp add: ac_simps)
    then show ?thesis
      using Suc.hyps c False by (simp add: drop del: of_nat_Suc)
  qed
qed

text \<open>
  The interrupt line the timer is programmed on is the global interrupt (its low byte) of the first
  override for the ISA bus in the interrupt controller table, whatever its source line is; a table
  without one ends in a page fault at address 2.
\<close>

theorem pit_irq_first_override:
  assumes "madt_entries m (madt_first madt) (madt + sdt_length m madt) es"
    and "length (of_kind m 2 es) < 256" and "\<And>e. e \<in> set (of_kind m 2 es) \<Longrightarrow> e + 2 \<noteq> 0"
  shows "ioapic_pit_irq madt m = Some (override_gsi m (of_kind m 2 es))"
proof -
  let ?xs = "of_kind m 2 es"
  have get: "get_madt_entry madt 2 (of_nat c) m = Some (if c < length ?xs then ?xs ! c + 2 else 0)"
    if "c \<le> length ?xs" for c
    using madt_loop_ok [OF assms(1), of 0 "of_nat c" 2] that assms(2) byte_index(1) [of c]
    by (simp add: get_madt_entry_def)
  note loop = pit_loop_ok [of ?xs madt m, OF get assms(3)]
  let ?first = "if 0 < length ?xs then ?xs ! 0 + 2 else 0"
  have "pit_loop madt m 0 ?first = pit_loop madt m (of_nat (Suc 0)) ?first"
  proof (cases "?first = 0 \<or> m ?first = 0")
    case True
    then show ?thesis by (subst (1 2) pit_loop.simps) auto
  next
    case False
    then show ?thesis using get [of 0] by (subst pit_loop.simps) auto
  qed
  then have "ioapic_pit_irq madt m = Some (case filter (\<lambda>e. m (e + 2) = 0) ?xs of [] \<Rightarrow> Inl (PageFault 2)
      | e # _ \<Rightarrow> if e + 2 = 0 then Inl (PageFault 2) else Inr (ucast (get32 m (e + 4))))"
    using get [of 0] loop [of 0] by (auto simp: ioapic_pit_irq_def add.commute split: list.splits)
  moreover have "e + 2 \<noteq> 0" if "filter (\<lambda>e. m (e + 2) = 0) ?xs = e # r" for e r
    using assms(3) [of e] filter_eq_ConsD [OF that] by auto
  ultimately show ?thesis
    by (auto simp: override_gsi_def split: list.splits)
qed

theorem pit_irq_first_override_witness: "ioapic_pit_irq 0x1000 demo_madt = Some (Inr 0)"
  using pit_irq_first_override [OF demo_madt_entries]
  by (simp add: of_kind_def entry_kind_def override_gsi_def demo_madt_def get32_def)

end
