(* ===== verification/Interrupts.thy ===== *)
theory Interrupts
  imports Scheduler Keyboard_Queue Devices
begin

text \<open>
  The dispatch of interrupts and exceptions of \<open>kernel/idt.c\<close>, where the timer meets the scheduler and the
  keyboard its driver, and where each interrupt is acknowledged.
\<close>

section \<open>Interrupts\<close>

record kernel =
  tasks :: sched
  keys :: keyboard
  calibrating :: bool
  kesp :: u32
  accesses :: history

definition end_calibration :: "kernel \<Rightarrow> kernel" where
  "end_calibration k = k\<lparr>calibrating := False\<rparr>"

lemma end_calibration_fields [simp]:
  "tasks (end_calibration k) = tasks k" "keys (end_calibration k) = keys k" "accesses (end_calibration k) = accesses k"
  by (simp_all add: end_calibration_def)

text \<open>
  \<open>irq_handler\<close>: \<open>st\<close> is the address of the interrupted context \<open>ctx\<close> and the result that of the context to
  continue with. \<open>port\<close> are the bytes of the keyboard port, \<open>beyond\<close> what follows the key table in memory. The
  handler of the disk changes nothing; vector 0x80 has a stub of its own and does not get here.
\<close>

definition irq_handler ::
  "(nat \<Rightarrow> u8) \<Rightarrow> u32 \<Rightarrow> (nat \<Rightarrow> u8) \<Rightarrow> u32 \<Rightarrow> cpu_status \<Rightarrow> kernel \<Rightarrow> (u32 \<times> kernel) outcome" where
  "irq_handler beyond lapic port st ctx k =
     (let k1 = (if esp ctx > 0xc0000000 then k\<lparr>kesp := esp ctx\<rparr> else k); num = isr_no ctx
      in bind_out
           (if num = 0x30 then
              bind_out (handle_schedule st ctx (tasks k1)) (\<lambda>(sp, ts). Some (Inr (sp, k1\<lparr>tasks := ts\<rparr>)))
            else if num = 0x31 then Some (Inr (st, end_calibration k1))
            else if num = 0x32 then Some (Inr (st, k1\<lparr>keys := handle_keychange beyond port (keys k1)\<rparr>))
            else Some (Inr (st, k1)))
           (\<lambda>(sp, k2). Some (Inr (sp, k2\<lparr>accesses := send_EOI lapic (accesses k2)\<rparr>))))"

section \<open>Exceptions\<close>

text \<open>\<open>stack_trace\<close> prints the return address of each frame of the chain that starts at \<open>frame_ptr\<close>.\<close>

partial_function (option) stack_loop :: "mem \<Rightarrow> u32 \<Rightarrow> u32 list \<Rightarrow> u32 list option" where
  "stack_loop m frame_ptr out = (if frame_ptr = 0 then Some out else stack_loop m (get32 m frame_ptr) (out @ [get32 m (frame_ptr + 4)]))"

declare stack_loop.simps [code]

definition stack_trace :: "mem \<Rightarrow> u32 \<Rightarrow> u32 list option" where
  "stack_trace m frame_ptr = stack_loop m frame_ptr []"

definition exc_print :: "mem \<Rightarrow> u32 \<Rightarrow> cpu_status \<Rightarrow> u8 outcome" where
  "exc_print m frame_ptr frame =
     (if isr_no frame = 0x0E then Option.bind (stack_trace m frame_ptr) (\<lambda>_. Some (handle_exception (isr_err frame)))
      else if isr_no frame = 27 then Option.bind (stack_trace m frame_ptr) (\<lambda>_. Some (Inr 1))
      else Some (Inr 1))"

text \<open>The machine halts with interrupts disabled, unless an exception was handled with code 0.\<close>

definition isr_handler :: "mem \<Rightarrow> u32 \<Rightarrow> cpu_status \<Rightarrow> unit outcome" where
  "isr_handler m frame_ptr frame =
     bind_out (if isr_no frame < 32 then exc_print m frame_ptr frame else Some (Inr 1))
       (\<lambda>code. Some (if code = 0 then Inr () else Inl (Panic ''hlt'')))"

section \<open>Properties\<close>

definition acknowledge :: "u32 \<Rightarrow> io_event" where
  "acknowledge lapic = Store (lapic + 0xB0) 0"

text \<open>One interrupt: its context's address, the context and the keyboard's bytes.\<close>

type_synonym irq = "u32 \<times> cpu_status \<times> (nat \<Rightarrow> u8)"

definition on_irq :: "(nat \<Rightarrow> u8) \<Rightarrow> u32 \<Rightarrow> irq \<Rightarrow> kernel \<Rightarrow> kernel outcome" where
  "on_irq beyond lapic i k =
     (case i of (st, ctx, port) \<Rightarrow>
        bind_out (irq_handler beyond lapic port st ctx k)
          (\<lambda>(sp, k1). if sp = st then Some (Inr k1) else Some (Inl (Panic ''switched''))))"

fun irq_run :: "(nat \<Rightarrow> u8) \<Rightarrow> u32 \<Rightarrow> irq list \<Rightarrow> kernel \<Rightarrow> kernel outcome" where
  "irq_run beyond lapic [] k = Some (Inr k)"
| "irq_run beyond lapic (i # is) k = bind_out (on_irq beyond lapic i k) (irq_run beyond lapic is)"

text \<open>The keyboard's bytes of the interrupts that are the keyboard's.\<close>

definition key_ports :: "irq list \<Rightarrow> (nat \<Rightarrow> u8) list" where
  "key_ports is = map (\<lambda>i. snd (snd i)) (filter (\<lambda>i. isr_no (fst (snd i)) = 0x32) is)"

lemma on_irq_other:
  assumes "isr_no ctx \<noteq> 0x30"
  shows "\<exists>k1. on_irq beyond lapic (sp, ctx, port) k = Some (Inr k1) \<and> tasks k1 = tasks k \<and>
    keys k1 = (if isr_no ctx = 0x32 then handle_keychange beyond port (keys k) else keys k) \<and>
    accesses k1 = acknowledge lapic # accesses k"
proof -
  define k0 where "k0 = (if esp ctx > 0xc0000000 then k\<lparr>kesp := esp ctx\<rparr> else k)"
  have k0: "tasks k0 = tasks k" "keys k0 = keys k" "accesses k0 = accesses k"
    by (simp_all add: k0_def)
  show ?thesis
    unfolding on_irq_def irq_handler_def Let_def k0_def [symmetric]
    using assms k0 by (simp add: send_EOI_def store_reg_def acknowledge_def)
qed

lemma irq_run_ok:
  "\<forall>i \<in> set is. isr_no (fst (snd i)) \<noteq> 0x30 \<Longrightarrow>
     \<exists>k'. irq_run beyond lapic is k = Some (Inr k') \<and> tasks k' = tasks k \<and>
       keys k' = fold (handle_keychange beyond) (key_ports is) (keys k) \<and>
       accesses k' = replicate (length is) (acknowledge lapic) @ accesses k"
proof (induction "is" arbitrary: k)
  case Nil
  then show ?case by (simp add: key_ports_def)
next
  case (Cons i "is")
  obtain sp ctx port where i: "i = (sp, ctx, port)"
    by (cases i)
  then have num: "isr_no ctx \<noteq> 0x30"
    using Cons.prems by simp
  then obtain k1 where k1: "on_irq beyond lapic i k = Some (Inr k1)" "tasks k1 = tasks k"
    "keys k1 = (if isr_no ctx = 0x32 then handle_keychange beyond port (keys k) else keys k)"
    "accesses k1 = acknowledge lapic # accesses k"
    using on_irq_other [of ctx beyond lapic sp port k] i by blast
  obtain k' where k': "irq_run beyond lapic is k1 = Some (Inr k')" "tasks k' = tasks k1"
    "keys k' = fold (handle_keychange beyond) (key_ports is) (keys k1)"
    "accesses k' = replicate (length is) (acknowledge lapic) @ accesses k1"
    using Cons.IH [of k1] Cons.prems by auto
  then show ?case
    using k1 by (simp add: i key_ports_def replicate_app_Cons_same)
qed

text \<open>
  Whatever the sequence of interrupts is, as long as the scheduling timer is not among them: each one
  returns to the context it interrupted and is acknowledged exactly once at the local controller, the
  process list is left alone, and the keyboard sees its own interrupts, all of them, in order.
\<close>

theorem interrupts_keep_apart:
  assumes "\<forall>i \<in> set is. isr_no (fst (snd i)) \<noteq> 0x30"
  shows "\<exists>k'. irq_run beyond lapic is k = Some (Inr k') \<and> tasks k' = tasks k \<and>
    keys k' = fold (handle_keychange beyond) (key_ports is) (keys k) \<and>
    accesses k' = replicate (length is) (acknowledge lapic) @ accesses k"
  by (rule irq_run_ok [OF assms])

definition demo_ctx :: "u32 \<Rightarrow> cpu_status" where
  "demo_ctx n = \<lparr>cr3 = 0, cr2 = 0, cr0 = 0, esp = 0xC0001000, edi = 0, esi = 0, edx = 0, ecx = 0, ebx = 0, eax = 0,
     ebp = 0, isr_no = n, isr_err = 0, eip = 0, cs = 8, eflags = 0\<rparr>"

theorem interrupts_keep_apart_witness:
  "\<forall>k. \<exists>k'. irq_run (\<lambda>_. 0) 0xFEE00000 [(0x100, demo_ctx 0x33, \<lambda>_. 0), (0x200, demo_ctx 0x32, \<lambda>_. 30)] k = Some (Inr k') \<and>
     tasks k' = tasks k \<and> keys k' = handle_keychange (\<lambda>_. 0) (\<lambda>_. 30) (keys k) \<and>
     accesses k' = [Store 0xFEE000B0 0, Store 0xFEE000B0 0] @ accesses k"
proof
  fix k
  show "\<exists>k'. irq_run (\<lambda>_. 0) 0xFEE00000 [(0x100, demo_ctx 0x33, \<lambda>_. 0), (0x200, demo_ctx 0x32, \<lambda>_. 30)] k = Some (Inr k') \<and>
     tasks k' = tasks k \<and> keys k' = handle_keychange (\<lambda>_. 0) (\<lambda>_. 30) (keys k) \<and>
     accesses k' = [Store 0xFEE000B0 0, Store 0xFEE000B0 0] @ accesses k"
    using interrupts_keep_apart [of "[(0x100, demo_ctx 0x33, \<lambda>_. 0), (0x200, demo_ctx 0x32, \<lambda>_. 30)]" "\<lambda>_. 0" "0xFEE00000" k]
    by (simp add: key_ports_def demo_ctx_def acknowledge_def)
qed

text \<open>
  No processor exception is survived: whatever the frame is, \<open>isr_handler\<close> ends with the machine halted or
  loops in the stack trace; the branch that returns to the interrupted code is never taken.
\<close>

theorem exceptions_never_return: "isr_handler m frame_ptr frame \<noteq> Some (Inr ())"
  by (auto simp: isr_handler_def exc_print_def handle_exception_def bind_out_Inr bind_eq_Some_conv split: if_splits)

end
