(* ===== verification/Page_Mapping.thy ===== *)
theory Page_Mapping
  imports Vmm
begin

text \<open>
  What the page allocation of \<open>vmm.c\<close> relies on in the page tables of \<open>paging.c\<close>, as an interface: a
  frame allocator and a mapping routine over a machine with an invariant. The allocation of any
  number of pages is proved once against the interface, and the two-level and the three-level tables
  both provide it.
\<close>

section \<open>The interface\<close>

definition page_of :: "u32 \<Rightarrow> nat" where
  "page_of va = unat va div 4096"

definition nth_page :: "u32 \<Rightarrow> nat \<Rightarrow> u32" where
  "nth_page bas k = bas + of_nat (4096 * k)"

lemma low_bits: "(w :: u32) AND 0xFFF = 0 \<longleftrightarrow> unat w mod 4096 = 0"
proof -
  have "(0xFFF :: u32) = mask 12"
    by (simp add: mask_eq_exp_minus_1)
  then have "unat (w AND 0xFFF) = unat w mod 4096"
    using and_mask_nat [of w 12] by (simp only:) simp
  then show ?thesis
    by (metis unat_0 unsigned_eq_0_iff)
qed

lemma unat_page: "k < 2 ^ 20 \<Longrightarrow> unat (of_nat (4096 * k) :: u32) = 4096 * k"
  by (intro unat_of_nat_u32) simp

lemma nth_page_aligned:
  assumes "bas AND 0xFFF = 0"
  shows "unat (nth_page bas k) mod 4096 = 0"
proof -
  have "nth_page bas k = of_nat (unat bas + 4096 * k)"
    by (simp add: nth_page_def)
  then have "unat (nth_page bas k) = (unat bas + 4096 * k) mod 2 ^ 32"
    by (simp only: unat_of_nat) simp
  also have "\<dots> mod 4096 = (unat bas + 4096 * k) mod 4096"
    by (rule mod_mod_cancel) simp
  finally show ?thesis
    using assms by (simp add: low_bits)
qed

lemma nth_pages_apart:
  assumes "bas AND 0xFFF = 0" "i < 2 ^ 20" "k < 2 ^ 20" "page_of (nth_page bas i) = page_of (nth_page bas k)"
  shows "i = k"
proof -
  have "unat (nth_page bas i) = unat (nth_page bas k)"
    using nth_page_aligned [OF assms(1), of i] nth_page_aligned [OF assms(1), of k] assms(4)
    unfolding page_of_def by (metis div_mult_mod_eq)
  then have "(of_nat (4096 * i) :: u32) = of_nat (4096 * k)"
    unfolding nth_page_def by (metis add_left_cancel word_unat_eq_iff)
  then show ?thesis
    using unat_page [OF assms(2)] unat_page [OF assms(3)] by simp
qed

lemma page_of_add:
  assumes "unat x mod 4096 = 0" "r < 4096"
  shows "page_of (x + of_nat r) = page_of x"
proof -
  obtain b where b: "unat x = 4096 * b"
    using assms(1) by auto
  then have "b < 1048576"
    using unat_lt_u32 [of x] by simp
  then have "4096 * b + r < 2 ^ 32"
    using assms(2) by simp
  moreover have "of_nat (4096 * b + r) = x + of_nat r"
    unfolding b [symmetric] by simp
  ultimately have "unat (x + of_nat r) = 4096 * b + r"
    using unat_of_nat_u32 by metis
  then show ?thesis
    using b assms(2) by (simp add: page_of_def)
qed

text \<open>The page of an address in a range of pages, by its distance from the start.\<close>

lemma page_of_nth:
  assumes "bas AND 0xFFF = 0"
  shows "page_of va = page_of (nth_page bas (unat (va - bas) div 4096))"
proof -
  let ?k = "unat (va - bas) div 4096" and ?r = "unat (va - bas) mod 4096"
  have "of_nat (4096 * ?k + ?r) = va - bas"
    by (simp only: mult_div_mod_eq) simp
  then have "va = bas + (of_nat (4096 * ?k) + of_nat ?r)"
    by (metis add.commute diff_add_cancel of_nat_add)
  then have va: "va = nth_page bas ?k + of_nat ?r"
    by (simp only: nth_page_def add.assoc)
  show ?thesis
    by (subst va) (simp add: page_of_add nth_page_aligned [OF assms])
qed

text \<open>
  An allocation of \<open>n\<close> bytes from \<open>bas\<close> with the frames \<open>fs\<close>: every address in it resolves to its frame and
  every address outside that was mapped is kept.
\<close>

definition range_mapped :: "(u32 \<Rightarrow> bool) \<Rightarrow> (u32 \<Rightarrow> u64 option) \<Rightarrow> (u32 \<Rightarrow> u64 option) \<Rightarrow> u32 \<Rightarrow> nat \<Rightarrow> u64 list \<Rightarrow> bool" where
  "range_mapped usable res res' bas n fs \<longleftrightarrow>
     (\<forall>va. unat (va - bas) < n \<longrightarrow> res' va = Some (fs ! (unat (va - bas) div 4096))) \<and>
     (\<forall>va f. res va = Some f \<longrightarrow> usable va \<longrightarrow> n \<le> unat (va - bas) \<longrightarrow> res' va = Some f)"

text \<open>The frames of an allocation: distinct free ones, or those that follow the address given.\<close>

definition frames_given :: "u64 \<Rightarrow> u64 set \<Rightarrow> nat \<Rightarrow> u64 list \<Rightarrow> bool" where
  "frames_given phys F n fs \<longleftrightarrow> length fs = n \<and>
     (if phys = 0 then distinct fs \<and> set fs \<subseteq> F else fs = map (\<lambda>k. (phys AND NOT 0xFFF) + of_nat (4096 * k)) [0..<n])"

definition frames_enough :: "(u64 \<Rightarrow> bool) \<Rightarrow> u64 \<Rightarrow> u64 set \<Rightarrow> nat \<Rightarrow> bool" where
  "frames_enough ok phys F n \<longleftrightarrow>
     (if phys = 0 then 2 * n \<le> card F else n \<le> card F \<and> (\<forall>k<n. ok ((phys AND NOT 0xFFF) + of_nat (4096 * k))))"

text \<open>
  \<open>unclaimed\<close> is the set of frames that the allocator can still give out; \<open>usable\<close> singles out the
  addresses outside the recursive windows, \<open>allowed\<close> the frames and flags that a page may be mapped with.
  Mapping a page may take one frame for a table.
\<close>

locale page_mapper =
  fixes al :: "'m \<Rightarrow> (u64 \<times> 'm) result"
    and mp :: "u64 \<Rightarrow> u32 \<Rightarrow> u32 \<Rightarrow> 'm \<Rightarrow> 'm result"
    and inv :: "'m \<Rightarrow> bool"
    and resolve :: "'m \<Rightarrow> u32 \<Rightarrow> u64 option"
    and unclaimed :: "'m \<Rightarrow> u64 set"
    and usable :: "u32 \<Rightarrow> bool"
    and allowed :: "u64 \<Rightarrow> u32 \<Rightarrow> bool"
  assumes finite_unclaimed: "finite (unclaimed m)"
    and al_law: "inv m \<Longrightarrow> unclaimed m \<noteq> {} \<Longrightarrow>
      \<exists>f m'. al m = Inr (f, m') \<and> inv m' \<and> f \<in> unclaimed m \<and> unclaimed m' = unclaimed m - {f} \<and> resolve m' = resolve m"
    and mp_law: "inv m \<Longrightarrow> usable v \<Longrightarrow> unclaimed m \<noteq> {} \<Longrightarrow> allowed f flags \<Longrightarrow>
      \<exists>m' g. mp f v flags m = Inr m' \<and> inv m' \<and> resolve m' v = Some f \<and>
        (\<forall>u h. resolve m u = Some h \<longrightarrow> usable u \<longrightarrow> page_of u \<noteq> page_of v \<longrightarrow> resolve m' u = Some h) \<and>
        unclaimed m - {g} \<subseteq> unclaimed m' \<and> unclaimed m' \<subseteq> unclaimed m"
    and resolve_page: "page_of u = page_of v \<Longrightarrow> resolve m u = resolve m v"
begin

text \<open>The pages of an allocation are mapped and the mapped pages outside it are kept.\<close>

definition mapped :: "'m \<Rightarrow> 'm \<Rightarrow> u32 \<Rightarrow> nat list \<Rightarrow> u64 list \<Rightarrow> bool" where
  "mapped m m' bas ks fs \<longleftrightarrow>
     list_all2 (\<lambda>k f. resolve m' (nth_page bas k) = Some f) ks fs \<and>
     (\<forall>u h. resolve m u = Some h \<longrightarrow> usable u \<longrightarrow> page_of u \<notin> page_of ` nth_page bas ` set ks \<longrightarrow> resolve m' u = Some h)"

lemma mapped_Cons:
  assumes "resolve m1 (nth_page bas k) = Some f" "mapped m1 m' bas ks fs" "usable (nth_page bas k)"
    and "page_of (nth_page bas k) \<notin> page_of ` nth_page bas ` set ks"
    and "\<forall>u h. resolve m u = Some h \<longrightarrow> usable u \<longrightarrow> page_of u \<noteq> page_of (nth_page bas k) \<longrightarrow> resolve m1 u = Some h"
  shows "mapped m m' bas (k # ks) (f # fs)"
  using assms by (simp add: mapped_def)

lemma map_given:
  assumes "inv m" "\<forall>k\<in>set ks. usable (nth_page bas k)" "\<forall>k\<in>set ks. allowed ((phys AND NOT 0xFFF) + of_nat (4096 * k)) flags"
    and "inj_on (page_of \<circ> nth_page bas) (set ks)" "distinct ks" "length ks \<le> card (unclaimed m)" "phys \<noteq> 0"
  shows "\<exists>m'. map_pages al mp flags phys bas ks m = Inr m' \<and> inv m' \<and>
    mapped m m' bas ks (map (\<lambda>k. (phys AND NOT 0xFFF) + of_nat (4096 * k)) ks) \<and> unclaimed m' \<subseteq> unclaimed m"
  using assms
proof (induction ks arbitrary: m)
  case (Cons k ks)
  let ?f = "(phys AND NOT 0xFFF) + of_nat (4096 * k)"
  have "unclaimed m \<noteq> {}"
    using Cons.prems(6) by auto
  then obtain m1 g where m1: "mp ?f (nth_page bas k) flags m = Inr m1" "inv m1" "resolve m1 (nth_page bas k) = Some ?f"
      "\<forall>u h. resolve m u = Some h \<longrightarrow> usable u \<longrightarrow> page_of u \<noteq> page_of (nth_page bas k) \<longrightarrow> resolve m1 u = Some h"
      "unclaimed m - {g} \<subseteq> unclaimed m1" "unclaimed m1 \<subseteq> unclaimed m"
    using mp_law [of m "nth_page bas k" ?f flags] Cons.prems by auto
  have "length ks \<le> card (unclaimed m1)"
    using Cons.prems(6) card_mono [OF finite_unclaimed m1(5)] card_Diff1_le [of "unclaimed m" g]
    by (simp add: card_Diff_singleton_if split: if_splits)
  then obtain m' where m': "map_pages al mp flags phys bas ks m1 = Inr m'" "inv m'" "unclaimed m' \<subseteq> unclaimed m1"
      "mapped m1 m' bas ks (map (\<lambda>k. (phys AND NOT 0xFFF) + of_nat (4096 * k)) ks)"
    using Cons.IH [OF m1(2)] Cons.prems by (auto simp: inj_on_def)
  have "page_of (nth_page bas k) \<notin> page_of ` nth_page bas ` set ks"
    using Cons.prems(4,5) by (auto simp: inj_on_def)
  then have "mapped m m' bas (k # ks) (?f # map (\<lambda>k. (phys AND NOT 0xFFF) + of_nat (4096 * k)) ks)"
    using m1 m' Cons.prems(2) by (intro mapped_Cons) auto
  then show ?case
    using m1(1,6) m' Cons.prems(7) by (auto simp: nth_page_def)
qed (simp add: mapped_def)

lemma map_fresh:
  assumes "inv m" "\<forall>k\<in>set ks. usable (nth_page bas k)" "\<forall>f\<in>unclaimed m. allowed f flags"
    and "inj_on (page_of \<circ> nth_page bas) (set ks)" "distinct ks" "2 * length ks \<le> card (unclaimed m)"
  shows "\<exists>m' fs. map_pages al mp flags 0 bas ks m = Inr m' \<and> inv m' \<and> mapped m m' bas ks fs \<and>
    distinct fs \<and> set fs \<subseteq> unclaimed m \<and> unclaimed m' \<subseteq> unclaimed m - set fs"
  using assms
proof (induction ks arbitrary: m)
  case (Cons k ks)
  have "unclaimed m \<noteq> {}"
    using Cons.prems(6) by auto
  then obtain f m0 where m0: "al m = Inr (f, m0)" "inv m0" "f \<in> unclaimed m" "unclaimed m0 = unclaimed m - {f}" "resolve m0 = resolve m"
    using al_law [OF Cons.prems(1)] by blast
  have card0: "card (unclaimed m0) = card (unclaimed m) - 1"
    using m0(3,4) by simp
  then have "unclaimed m0 \<noteq> {}"
    using Cons.prems(6) by auto
  then obtain m1 g where m1: "mp f (nth_page bas k) flags m0 = Inr m1" "inv m1" "resolve m1 (nth_page bas k) = Some f"
      "\<forall>u h. resolve m u = Some h \<longrightarrow> usable u \<longrightarrow> page_of u \<noteq> page_of (nth_page bas k) \<longrightarrow> resolve m1 u = Some h"
      "unclaimed m0 - {g} \<subseteq> unclaimed m1" "unclaimed m1 \<subseteq> unclaimed m0"
    using mp_law [OF m0(2), of "nth_page bas k" f flags] Cons.prems(2,3) m0(3,5) by auto
  have "2 * length ks \<le> card (unclaimed m1)"
    using Cons.prems(6) card0 card_mono [OF finite_unclaimed m1(5)]
    by (simp add: card_Diff_singleton_if split: if_splits)
  moreover have "\<forall>f\<in>unclaimed m1. allowed f flags"
    using Cons.prems(3) m1(6) m0(4) by auto
  ultimately obtain m' fs where m': "map_pages al mp flags 0 bas ks m1 = Inr m'" "inv m'" "mapped m1 m' bas ks fs"
      "distinct fs" "set fs \<subseteq> unclaimed m1" "unclaimed m' \<subseteq> unclaimed m1 - set fs"
    using Cons.IH [OF m1(2)] Cons.prems by (auto simp: inj_on_def)
  have "page_of (nth_page bas k) \<notin> page_of ` nth_page bas ` set ks"
    using Cons.prems(4,5) by (auto simp: inj_on_def)
  then have "mapped m m' bas (k # ks) (f # fs)"
    using m1 m' Cons.prems(2) by (intro mapped_Cons) auto
  moreover have "distinct (f # fs)" "set (f # fs) \<subseteq> unclaimed m" "unclaimed m' \<subseteq> unclaimed m - set (f # fs)"
    using m' m1(6) m0(3,4) by auto
  ultimately show ?case
    using m0(1) m1(1) m'(1,2) by (intro exI [of _ m'] exI [of _ "f # fs"]) (simp add: nth_page_def)
qed (simp add: mapped_def)

lemma mapped_range:
  assumes bas: "bas AND 0xFFF = 0" and n: "n < 2 ^ 20" and m: "mapped m m' bas [0..<n] fs"
  shows "range_mapped usable (resolve m) (resolve m') bas (4096 * n) fs"
proof -
  let ?k = "\<lambda>va. unat (va - bas) div 4096"
  have k: "?k va < n \<longleftrightarrow> unat (va - bas) < 4096 * n" for va
    by (simp add: div_less_iff_less_mult mult.commute)
  have at: "resolve m' (nth_page bas i) = Some (fs ! i)" if "i < n" for i
    using m that by (auto simp: mapped_def list_all2_conv_all_nth)
  have "resolve m' va = Some (fs ! ?k va)" if "unat (va - bas) < 4096 * n" for va
    using at [of "?k va"] that resolve_page [OF page_of_nth [OF bas]] by (simp add: k)
  moreover have "resolve m' va = Some f" if va: "resolve m va = Some f" "usable va" "4096 * n \<le> unat (va - bas)" for va f
  proof -
    have "page_of va \<noteq> page_of (nth_page bas i)" if "i < n" for i
    proof
      assume "page_of va = page_of (nth_page bas i)"
      then have "page_of (nth_page bas (?k va)) = page_of (nth_page bas i)"
        using page_of_nth [OF bas] by simp
      moreover have "?k va < 2 ^ 20"
        using unat_lt_u32 [of "va - bas"] by (simp add: div_less_iff_less_mult)
      ultimately have "?k va = i"
        using nth_pages_apart [OF bas] that n by simp
      then show False
        using va(3) that k [of va] by simp
    qed
    then have "page_of va \<notin> page_of ` nth_page bas ` set [0..<n]"
      by (metis atLeastLessThan_iff imageE set_upt)
    then show ?thesis
      using m va(1,2) by (simp add: mapped_def)
  qed
  ultimately show ?thesis
    by (simp add: range_mapped_def)
qed

lemma map_pages_range:
  assumes "inv m" and bas: "bas AND 0xFFF = 0" and n: "n < 2 ^ 20" and us: "\<forall>k<n. usable (nth_page bas k)"
    and en: "frames_enough (\<lambda>f. allowed f flags) phys (unclaimed m) n" and fr: "\<forall>f\<in>unclaimed m. allowed f flags"
  shows "\<exists>m' fs. map_pages al mp flags phys bas [0..<n] m = Inr m' \<and> inv m' \<and> unclaimed m' \<subseteq> unclaimed m \<and>
    frames_given phys (unclaimed m - unclaimed m') n fs \<and> range_mapped usable (resolve m) (resolve m') bas (4096 * n) fs"
proof -
  have inj: "inj_on (page_of \<circ> nth_page bas) (set [0..<n])"
    using nth_pages_apart [OF bas] n by (auto simp: inj_on_def)
  have us': "\<forall>k\<in>set [0..<n]. usable (nth_page bas k)"
    using us by simp
  show ?thesis
  proof (cases "phys = 0")
    case True
    have "2 * length [0..<n] \<le> card (unclaimed m)"
      using en True by (simp add: frames_enough_def)
    then obtain m' fs where r: "map_pages al mp flags 0 bas [0..<n] m = Inr m'" "inv m'" "mapped m m' bas [0..<n] fs"
        "distinct fs" "set fs \<subseteq> unclaimed m" "unclaimed m' \<subseteq> unclaimed m - set fs"
      using map_fresh [OF assms(1) us' fr inj] by auto
    moreover have "length fs = n"
      using r(3) by (auto simp: mapped_def dest: list_all2_lengthD)
    ultimately show ?thesis
      using True mapped_range [OF bas n r(3)] by (intro exI [of _ m'] exI [of _ fs]) (auto simp: frames_given_def)
  next
    case False
    have en': "length [0..<n] \<le> card (unclaimed m)" "\<forall>k\<in>set [0..<n]. allowed ((phys AND NOT 0xFFF) + of_nat (4096 * k)) flags"
      using en False by (simp_all add: frames_enough_def)
    then obtain m' where r: "map_pages al mp flags phys bas [0..<n] m = Inr m'" "inv m'" "unclaimed m' \<subseteq> unclaimed m"
        "mapped m m' bas [0..<n] (map (\<lambda>k. (phys AND NOT 0xFFF) + of_nat (4096 * k)) [0..<n])"
      using map_given [OF assms(1) us' en'(2) inj distinct_upt en'(1) False] by blast
    then show ?thesis
      using False mapped_range [OF bas n r(4)] by (intro exI [of _ m']) (auto simp: frames_given_def)
  qed
qed

text \<open>The allocation itself, from a space with one free region.\<close>

lemma alloc_range:
  assumes lone: "lone_region (space s c) (region_nodes s) bas siz k limit" and k: "k < limit"
    and L: "L = BYTE_PGROUNDUP len" "L < siz" and bas: "bas AND 0xFFF = 0" and ok: "inv (mach s)"
    and us: "\<forall>va. unat (va - bas) < unat L \<longrightarrow> usable va"
    and en: "frames_enough (\<lambda>f. allowed f flags) phys (unclaimed (mach s)) (unat L div 4096)"
    and fr: "\<forall>f\<in>unclaimed (mach s). allowed f flags"
  shows "\<exists>st m' fs. vmm_page_alloc al mp c len flags phys s =
      Some (Inr (bas + (ucast phys AND 0xFFF), s\<lparr>region_nodes := st, mach := m'\<rparr>)) \<and>
    inv m' \<and> lone_region (space s c) st (bas + L) (siz - L) (Suc k) limit \<and> unclaimed m' \<subseteq> unclaimed (mach s) \<and>
    frames_given phys (unclaimed (mach s) - unclaimed m') (unat L div 4096) fs \<and>
    range_mapped usable (resolve (mach s)) (resolve m') bas (unat L) fs"
proof -
  let ?n = "unat L div 4096"
  have n: "?n < 2 ^ 20"
    using unat_lt_u32 [of L] by (simp add: div_less_iff_less_mult)
  have "L AND 0xFFF = 0"
    unfolding L(1) BYTE_PGROUNDUP_def by (simp add: and.assoc)
  then have L4: "4096 * ?n = unat L"
    by (simp add: low_bits mod_eq_0_iff_dvd)
  have us': "\<forall>k<?n. usable (nth_page bas k)"
  proof (intro allI impI)
    fix k assume k: "k < ?n"
    then have "unat (nth_page bas k - bas) = 4096 * k"
      using n unat_page [of k] by (simp add: nth_page_def)
    then show "usable (nth_page bas k)"
      using us k L4 by auto
  qed
  obtain m' fs where m': "map_pages al mp flags phys bas [0..<?n] (mach s) = Inr m'" "inv m'" "unclaimed m' \<subseteq> unclaimed (mach s)"
      "frames_given phys (unclaimed (mach s) - unclaimed m') ?n fs"
      "range_mapped usable (resolve (mach s)) (resolve m') bas (unat L) fs"
    using map_pages_range [OF ok bas n us' en fr] L4 by auto
  obtain st where st: "lone_region (space s c) st (bas + L) (siz - L) (Suc k) limit"
      "vmm_page_alloc al mp c len flags phys s = Some (Inr (bas + (ucast phys AND 0xFFF), s\<lparr>region_nodes := st, mach := m'\<rparr>))"
    using vmm_alloc_lone [OF lone k, of len al mp flags phys] L m'(1) by auto
  then show ?thesis
    using m' by blast
qed

end

section \<open>The two-level tables\<close>

definition free_frames :: "pmm \<Rightarrow> u64 set" where
  "free_frames p = frame_addr ` {f. f \<le> frame_limit \<and> f \<notin> taken p}"

text \<open>No directory entry refers to a frame that the bitmap calls free.\<close>

definition paging_inv :: "paging \<Rightarrow> bool" where
  "paging_inv m \<longleftrightarrow> paging_ok m \<and> bitmap_ok (phys_mem m) \<and> (\<forall>f\<in>free_frames (phys_mem m). unused_frame m (ucast f))"

definition walk2 :: "paging \<Rightarrow> u32 \<Rightarrow> u64 option" where
  "walk2 m va = map_option ucast (walk m va)"

definition outside_window :: "u32 \<Rightarrow> bool" where
  "outside_window va \<longleftrightarrow> pd_index va \<noteq> 1023"

definition mappable :: "u64 \<Rightarrow> u32 \<Rightarrow> bool" where
  "mappable f flags \<longleftrightarrow> unat f < 2 ^ 32 \<and> f AND 0xFFF = 0 \<and> flags AND NOT 0xFFF = 0 \<and> flags AND 1 \<noteq> 0"

lemma finite_free_frames [simp]: "finite (free_frames p)"
  by (simp add: free_frames_def)

lemma alloc_free_frames:
  assumes ok: "bitmap_ok p" and ne: "free_frames p \<noteq> {}"
  shows "\<exists>f p'. alloc_phys_page p = Inr (f, p') \<and> f \<in> free_frames p \<and> free_frames p' = free_frames p - {f} \<and> bitmap_ok p' \<and>
    num_frames p' = num_frames p \<and> (\<forall>h\<in>free_frames p. unat f \<le> unat h)"
proof -
  obtain g where g: "g \<le> frame_limit" "g \<notin> taken p"
    using ne by (auto simp: free_frames_def)
  let ?f = "first_free p"
  have le: "?f \<le> h" if "h \<notin> taken p" for h
    unfolding first_free_def using that by (rule Least_le)
  have f: "?f \<le> frame_limit" "?f \<notin> taken p"
    using le [OF g(2)] g(1) LeastI [of "\<lambda>f. f \<notin> taken p", OF g(2)] by (simp_all add: first_free_def)
  obtain p' where p': "alloc_phys_page p = Inr (frame_addr ?f, p')" "taken p' = insert ?f (taken p)" "num_frames p' = num_frames p"
    using alloc_free_frame [OF ok g(2,1)] by (auto simp: frame_addr_def)
  have "free_frames p' = free_frames p - {frame_addr ?f}"
    using f frame_addr_inj by (auto simp: free_frames_def p'(2))
  moreover have "unat (frame_addr ?f) \<le> unat h" if "h \<in> free_frames p" for h
    using that le f(1) by (auto simp: free_frames_def unat_frame_addr)
  ultimately show ?thesis
    using p' f pmm.alloc_ok [OF ok p'(1)] by (auto simp: free_frames_def)
qed

lemma free_frame_range:
  assumes "f \<in> free_frames p"
  shows "unat f \<le> 0x1000000" "unat f mod 4096 = 0"
proof -
  obtain g where "g \<le> frame_limit" "f = frame_addr g"
    using assms by (auto simp: free_frames_def)
  then show "unat f \<le> 0x1000000" "unat f mod 4096 = 0"
    using unat_frame_addr [of g] by (simp_all add: frame_limit_def mod_add_eq)
qed

lemma free_frame_nonzero: "f \<in> free_frames p \<Longrightarrow> f \<noteq> 0"
  using unat_frame_addr by (force simp: free_frames_def)

lemma low_bits64: "(w :: u64) AND 0xFFF = 0 \<longleftrightarrow> unat w mod 4096 = 0"
proof -
  have "(0xFFF :: u64) = mask 12"
    by (simp add: mask_eq_exp_minus_1)
  then have "unat (w AND 0xFFF) = unat w mod 4096"
    by (simp only: take_bit_eq_mask [symmetric] unsigned_take_bit_eq) (simp add: take_bit_eq_mod)
  then show ?thesis
    by (metis unat_0 unsigned_eq_0_iff)
qed

lemma page_indices: "page_of va = pd_index va * 1024 + pt_index va"
proof -
  have "unat va div 4096 = unat va div 4096 div 1024 * 1024 + unat va div 4096 mod 1024"
    by simp
  then show ?thesis
    by (simp add: page_of_def pd_index_nat pt_index_nat div_mult2_eq [symmetric])
qed

lemma page_indices_eq: "page_of u = page_of v \<longleftrightarrow> pd_index u = pd_index v \<and> pt_index u = pt_index v"
proof -
  have "page_of w div 1024 = pd_index w" "page_of w mod 1024 = pt_index w" for w
    using pt_index_less [of w] by (simp_all add: page_indices)
  then show ?thesis
    by (metis page_indices)
qed

lemma walk_page: "page_of u = page_of v \<Longrightarrow> walk m u = walk m v"
  by (simp add: walk_def page_indices_eq)

lemma walk_present: "walk m u = Some h \<Longrightarrow> present (pde m (pd_index u))"
  by (auto simp: walk_def Let_def split: if_splits)

lemma ucast_small: "unat (f :: u64) < 2 ^ 32 \<Longrightarrow> ucast (ucast f :: u32) = f"
  by (simp add: unsigned_ucast_eq word_unat_eq_iff unsigned_take_bit_eq take_bit_nat_eq_self)

lemma memory_map_unclaimed:
  assumes inv: "paging_inv m" and i: "pd_index v \<noteq> 1023" and ne: "free_frames (phys_mem m) \<noteq> {}"
    and al: "phys AND 0xFFF = 0" "flags AND NOT 0xFFF = 0" "flags AND 1 \<noteq> 0"
  shows "\<exists>m' g. memory_map phys v flags m = Inr m' \<and> paging_inv m' \<and> walk m' v = Some phys \<and>
    (\<forall>u h. walk m u = Some h \<longrightarrow> pd_index u \<noteq> 1023 \<longrightarrow> page_of u \<noteq> page_of v \<longrightarrow> walk m' u = Some h) \<and>
    free_frames (phys_mem m) - {g} \<subseteq> free_frames (phys_mem m') \<and> free_frames (phys_mem m') \<subseteq> free_frames (phys_mem m)"
proof -
  have ok: "paging_ok m" "bitmap_ok (phys_mem m)" and un: "\<And>f. f \<in> free_frames (phys_mem m) \<Longrightarrow> unused_frame m (ucast f)"
    using inv by (auto simp: paging_inv_def)
  show ?thesis
  proof (cases "present (pde m (pd_index v))")
    case True
    obtain m' where m': "memory_map phys v flags m = Inr m'" "paging_ok m'" "walk m' v = Some phys"
        "\<And>va. (pd_index va, pt_index va) \<noteq> (pd_index v, pt_index v) \<Longrightarrow> walk m' va = walk m va"
        "pde m' = pde m" "pd_frame m' = pd_frame m" "phys_mem m' = phys_mem m"
      using map_existing [OF ok(1) True i al] by blast
    have "paging_inv m'"
      using m'(2,5-7) ok(2) un by (simp add: paging_inv_def unused_frame_def)
    then show ?thesis
      using m' by (intro exI [of _ m'] exI [of _ 0]) (auto simp: page_indices_eq)
  next
    case False
    obtain f p where f: "alloc_phys_page (phys_mem m) = Inr (f, p)" "f \<in> free_frames (phys_mem m)"
        "free_frames p = free_frames (phys_mem m) - {f}" "bitmap_ok p"
      using alloc_free_frames [OF ok(2) ne] by blast
    have lt: "pd_index v < 1023"
      using pd_index_less [of v] i by simp
    obtain va m1 where m1: "create_new_pt (pd_index v) m = Inr (va, m1)" "paging_ok m1" "present (pde m1 (pd_index v))"
        "\<And>va. pd_index va \<noteq> pd_index v \<Longrightarrow> pd_index va \<noteq> 1023 \<Longrightarrow> walk m1 va = walk m va"
        "pde m1 = (pde m)(pd_index v := ucast f OR 3)" "pd_frame m1 = pd_frame m" "phys_mem m1 = p"
      using create_new_pt_ok [OF ok(1) lt False f(1) un [OF f(2)]] by blast
    have eq: "memory_map phys v flags m = memory_map phys v flags m1"
      using False m1(1,3) by (simp add: memory_map_def Let_def)
    obtain m' where m': "memory_map phys v flags m1 = Inr m'" "paging_ok m'" "walk m' v = Some phys"
        "\<And>va. (pd_index va, pt_index va) \<noteq> (pd_index v, pt_index v) \<Longrightarrow> walk m' va = walk m1 va"
        "pde m' = pde m1" "pd_frame m' = pd_frame m1" "phys_mem m' = phys_mem m1"
      using map_existing [OF m1(2,3) i al] by blast
    have fr: "frame_of (ucast f OR 3) = ucast f"
      using frame_of_mapped(1) [of "ucast f" 3] un [OF f(2)] by (simp add: unused_frame_def)
    have "unused_frame m' (ucast h)" if h: "h \<in> free_frames p" for h
    proof -
      have "h \<noteq> f" "h \<in> free_frames (phys_mem m)"
        using h f(3) by auto
      moreover have "(ucast (ucast w :: u32) :: u64) = w" if "w \<in> free_frames (phys_mem m)" for w
        using free_frame_range [OF that] by (intro ucast_small) simp
      ultimately have "(ucast h :: u32) \<noteq> ucast f"
        using f(2) by metis
      then show ?thesis
        using un [OF \<open>h \<in> free_frames (phys_mem m)\<close>] fr by (auto simp: unused_frame_def m'(5,6) m1(5,6))
    qed
    then have "paging_inv m'"
      using m'(2,7) m1(7) f(4) by (simp add: paging_inv_def)
    moreover have "walk m' u = Some h"
      if u: "walk m u = Some h" "pd_index u \<noteq> 1023" for u h
    proof -
      have "pd_index u \<noteq> pd_index v"
        using walk_present [OF u(1)] False by auto
      then show ?thesis
        using m'(4) m1(4) u by simp
    qed
    ultimately show ?thesis
      using eq m'(1,3) m'(7) m1(7) f(3) by (intro exI [of _ m'] exI [of _ f]) auto
  qed
qed

interpretation two_level: page_mapper alloc_frame2 map_page2 paging_inv walk2 "\<lambda>m. free_frames (phys_mem m)" outside_window mappable
proof
  fix m :: paging and u v flags :: u32 and f :: u64
  show "\<exists>f m'. alloc_frame2 m = Inr (f, m') \<and> paging_inv m' \<and> f \<in> free_frames (phys_mem m) \<and>
      free_frames (phys_mem m') = free_frames (phys_mem m) - {f} \<and> walk2 m' = walk2 m"
    if inv: "paging_inv m" and ne: "free_frames (phys_mem m) \<noteq> {}"
  proof -
    obtain f p where f: "alloc_phys_page (phys_mem m) = Inr (f, p)" "f \<in> free_frames (phys_mem m)"
        "free_frames p = free_frames (phys_mem m) - {f}" "bitmap_ok p"
      using alloc_free_frames [OF _ ne] inv by (auto simp: paging_inv_def)
    have "paging_inv (m\<lparr>phys_mem := p\<rparr>)"
      using inv f by (simp add: paging_inv_def paging_ok_def unused_frame_def pde_def)
    moreover have "walk2 (m\<lparr>phys_mem := p\<rparr>) = walk2 m"
      by (rule ext) (simp add: walk2_def walk_def pde_def)
    ultimately show ?thesis
      using f by (intro exI [of _ f] exI [of _ "m\<lparr>phys_mem := p\<rparr>"]) (simp add: alloc_frame2_def)
  qed
  show "\<exists>m' g. map_page2 f v flags m = Inr m' \<and> paging_inv m' \<and> walk2 m' v = Some f \<and>
      (\<forall>u h. walk2 m u = Some h \<longrightarrow> outside_window u \<longrightarrow> page_of u \<noteq> page_of v \<longrightarrow> walk2 m' u = Some h) \<and>
      free_frames (phys_mem m) - {g} \<subseteq> free_frames (phys_mem m') \<and> free_frames (phys_mem m') \<subseteq> free_frames (phys_mem m)"
    if pre: "paging_inv m" "outside_window v" "free_frames (phys_mem m) \<noteq> {}" "mappable f flags"
  proof -
    have f: "(ucast f :: u32) AND 0xFFF = 0" "ucast (ucast f :: u32) = f"
      using pre(4) ucast_small [of f] by (simp_all add: mappable_def low_bits low_bits64 unsigned_ucast_eq take_bit_nat_eq_self)
    have fl: "flags AND NOT 0xFFF = 0" "flags AND 1 \<noteq> 0" and v: "pd_index v \<noteq> 1023"
      using pre(2,4) unfolding mappable_def outside_window_def by blast+
    obtain m' g where m': "memory_map (ucast f) v flags m = Inr m'" "paging_inv m'" "walk m' v = Some (ucast f)"
        "\<And>u h. walk m u = Some h \<Longrightarrow> pd_index u \<noteq> 1023 \<Longrightarrow> page_of u \<noteq> page_of v \<Longrightarrow> walk m' u = Some h"
        "free_frames (phys_mem m) - {g} \<subseteq> free_frames (phys_mem m')" "free_frames (phys_mem m') \<subseteq> free_frames (phys_mem m)"
      using memory_map_unclaimed [OF pre(1) v pre(3) f(1) fl] by blast
    have "walk2 m' v = Some f" "map_page2 f v flags m = Inr m'"
      using m'(1,3) f(2) by (simp_all add: walk2_def map_page2_def)
    moreover have "\<forall>u h. walk2 m u = Some h \<longrightarrow> outside_window u \<longrightarrow> page_of u \<noteq> page_of v \<longrightarrow> walk2 m' u = Some h"
      using m'(4) by (auto simp: walk2_def outside_window_def)
    ultimately show ?thesis
      using m'(2,5,6) by (intro exI [of _ m'] exI [of _ g] conjI)
  qed
  show "page_of u = page_of v \<Longrightarrow> walk2 m u = walk2 m v"
    by (simp add: walk2_def walk_page [of u v])
qed simp

section \<open>The three-level tables\<close>

text \<open>
  \<open>G\<close> is a set of gigabytes whose directories are present and map themselves. Directories and page
  tables all lie in different frames, none of which the bitmap calls free. \<open>mx\<close> is the width of a
  physical address; with at least 25 bits every frame of the allocator is in range.
\<close>

definition table_at :: "pae \<Rightarrow> nat set \<Rightarrow> nat \<Rightarrow> nat \<Rightarrow> bool" where
  "table_at m G p i \<longleftrightarrow> p \<in> G \<and> i < 511 \<and> present64 (pae_pd m p i)"

definition tables_apart :: "pae \<Rightarrow> nat set \<Rightarrow> bool" where
  "tables_apart m G \<longleftrightarrow>
     (\<forall>p\<in>G. \<forall>q\<in>G. frame64 (pdpt m p) = frame64 (pdpt m q) \<longrightarrow> p = q) \<and>
     (\<forall>p i. \<forall>q\<in>G. table_at m G p i \<longrightarrow> frame64 (pae_pd m p i) \<noteq> frame64 (pdpt m q)) \<and>
     (\<forall>p i q j. table_at m G p i \<longrightarrow> table_at m G q j \<longrightarrow> frame64 (pae_pd m p i) = frame64 (pae_pd m q j) \<longrightarrow> p = q \<and> i = j)"

definition untabled :: "pae \<Rightarrow> nat set \<Rightarrow> u64 \<Rightarrow> bool" where
  "untabled m G f \<longleftrightarrow> f AND 0xFFF = 0 \<and> (\<forall>p\<in>G. f \<noteq> frame64 (pdpt m p)) \<and>
     (\<forall>p i. table_at m G p i \<longrightarrow> frame64 (pae_pd m p i) \<noteq> f)"

definition pae_inv :: "nat set \<Rightarrow> nat \<Rightarrow> pae \<Rightarrow> bool" where
  "pae_inv G mx m \<longleftrightarrow> unat (max_bit_extension m) = mx \<and> 25 \<le> mx \<and> (\<forall>p\<in>G. pae_ok m p) \<and> tables_apart m G \<and>
     bitmap_ok (pae_mem m) \<and> (\<forall>f\<in>free_frames (pae_mem m). untabled m G f)"

definition pae_outside :: "nat set \<Rightarrow> u32 \<Rightarrow> bool" where
  "pae_outside G va \<longleftrightarrow> pdpt_index va \<in> G \<and> pae_pd_index va \<noteq> 511"

definition pae_mappable :: "nat \<Rightarrow> u64 \<Rightarrow> u32 \<Rightarrow> bool" where
  "pae_mappable mx f flags \<longleftrightarrow> drop_bit mx f = 0 \<and> f AND 0xFFF = 0 \<and>
     (ucast flags :: u64) AND NOT 0xFFF = 0 \<and> (ucast flags :: u64) AND 1 \<noteq> 0"

lemma page_indices64: "page_of va = pdpt_index va * 262144 + pae_pd_index va * 512 + pae_pt_index va"
proof -
  let ?n = "unat va div 4096"
  have "?n = ?n div 512 * 512 + ?n mod 512" "?n div 512 = ?n div 512 div 512 * 512 + ?n div 512 mod 512"
    by simp_all
  then show ?thesis
    by (simp add: page_of_def pae_indices_nat div_mult2_eq [symmetric])
qed

lemma page_indices64_eq:
  "page_of u = page_of v \<longleftrightarrow>
     pdpt_index u = pdpt_index v \<and> pae_pd_index u = pae_pd_index v \<and> pae_pt_index u = pae_pt_index v"
proof -
  have "page_of w div 262144 = pdpt_index w" "page_of w div 512 mod 512 = pae_pd_index w" "page_of w mod 512 = pae_pt_index w" for w
    by (simp_all add: page_of_def pae_indices_nat div_mult2_eq [symmetric])
  then show ?thesis
    by (metis page_indices64)
qed

text \<open>Writing an entry of a page table changes no directory and only the page of that entry.\<close>

lemma set_table_entry:
  fixes e :: u64 and j :: nat
  assumes ap: "tables_apart m G" and t: "table_at m G p i"
  defines "m' \<equiv> set_entry64 (frame64 (pae_pd m p i)) j e m"
  shows "q \<in> G \<Longrightarrow> pae_pd m' q k = pae_pd m q k" "pdpt m' = pdpt m" "pae_mem m' = pae_mem m"
    "max_bit_extension m' = max_bit_extension m"
    "pae_outside G u \<Longrightarrow> (pdpt_index u, pae_pd_index u, pae_pt_index u) \<noteq> (p, i, j) \<Longrightarrow> pae_walk m' u = pae_walk m u"
proof -
  show pdpt: "pdpt m' = pdpt m" and "pae_mem m' = pae_mem m" "max_bit_extension m' = max_bit_extension m"
    by (simp_all add: m'_def set_entry64_def)
  show pd: "pae_pd m' q k = pae_pd m q k" if "q \<in> G" for q k
  proof -
    have "frame64 (pae_pd m p i) \<noteq> frame64 (pdpt m q)"
      using ap t that by (simp add: tables_apart_def)
    then show ?thesis
      by (simp add: m'_def set_entry64_def pae_pd_def)
  qed
  show "pae_walk m' u = pae_walk m u"
    if u: "pae_outside G u" "(pdpt_index u, pae_pd_index u, pae_pt_index u) \<noteq> (p, i, j)"
  proof (cases "present64 (pae_pd m (pdpt_index u) (pae_pd_index u))")
    case True
    then have "table_at m G (pdpt_index u) (pae_pd_index u)"
      using u(1) pae_indices_less(2) [of u] by (simp add: table_at_def pae_outside_def)
    then have "frame64 (pae_pd m (pdpt_index u) (pae_pd_index u)) = frame64 (pae_pd m p i) \<longrightarrow> pdpt_index u = p \<and> pae_pd_index u = i"
      using ap t unfolding tables_apart_def by blast
    then have "tables64 m' (frame64 (pae_pd m (pdpt_index u) (pae_pd_index u))) (pae_pt_index u) =
        tables64 m (frame64 (pae_pd m (pdpt_index u) (pae_pd_index u))) (pae_pt_index u)"
      using u(2) by (auto simp: m'_def set_entry64_def)
    then show ?thesis
      using u(1) by (simp add: pae_walk_def pd pdpt pae_outside_def Let_def)
  next
    case False
    then show ?thesis
      using u(1) by (simp add: pae_walk_def pd pdpt pae_outside_def Let_def)
  qed
qed

text \<open>A new table in a frame that no table uses.\<close>

lemma enter_new_table:
  fixes b :: pmm
  assumes ap: "tables_apart m G" and p: "p \<in> G" "i < 511" "\<not> present64 (pae_pd m p i)" and f: "untabled m G f"
  defines "m' \<equiv> new_table64 f (set_entry64 (frame64 (pdpt m p)) i (f OR 3) (m\<lparr>pae_mem := b\<rparr>))"
  shows "q \<in> G \<Longrightarrow> pae_pd m' q k = (if q = p \<and> k = i then f OR 3 else pae_pd m q k)" "pdpt m' = pdpt m" "pae_mem m' = b"
    "tables_apart m' G" "untabled m G g \<Longrightarrow> g \<noteq> f \<Longrightarrow> untabled m' G g"
    "pae_outside G u \<Longrightarrow> pae_walk m u = Some h \<Longrightarrow> pae_walk m' u = Some h"
proof -
  have e: "frame64 (f OR 3) = f" "present64 (f OR 3)"
    using frame64_mapped [of f 3] f by (simp_all add: untabled_def)
  show pdpt: "pdpt m' = pdpt m" and "pae_mem m' = b"
    by (simp_all add: m'_def set_entry64_def new_table64_def)
  show pd: "pae_pd m' q k = (if q = p \<and> k = i then f OR 3 else pae_pd m q k)" if "q \<in> G" for q k
  proof -
    have "frame64 (pdpt m q) \<noteq> f" "frame64 (pdpt m p) = frame64 (pdpt m q) \<longrightarrow> p = q"
      using f that p(1) ap by (auto simp: untabled_def tables_apart_def)
    then show ?thesis
      by (auto simp: m'_def set_entry64_def new_table64_def pae_pd_def)
  qed
  have at: "table_at m' G q k \<longleftrightarrow> table_at m G q k \<or> q = p \<and> k = i" for q k
    using p e by (auto simp: table_at_def pd)
  have fr: "frame64 (pae_pd m' q k) = (if q = p \<and> k = i then f else frame64 (pae_pd m q k))" if "q \<in> G" for q k
    using that e by (simp add: pd)
  have G: "table_at m G q k \<Longrightarrow> q \<in> G" "\<not> table_at m G p i" for q k
    using p(3) by (simp_all add: table_at_def)
  have new: "table_at m G q k \<Longrightarrow> frame64 (pae_pd m q k) \<noteq> f" "q \<in> G \<Longrightarrow> frame64 (pdpt m q) \<noteq> f" for q k
    using f by (auto simp: untabled_def)
  have old: "q = p \<and> k = i \<or> table_at m G q k \<and> frame64 (pae_pd m' q k) = frame64 (pae_pd m q k)"
      if "table_at m' G q k" for q k
    using that fr [of q k] G(1) [of q k] unfolding at by (cases "q = p \<and> k = i") simp_all
  have fr_new: "frame64 (pae_pd m' p i) = f"
    using fr [OF p(1), of i] by simp
  show "tables_apart m' G"
    unfolding tables_apart_def pdpt
  proof (intro conjI allI ballI impI)
    fix q r assume "q \<in> G" "r \<in> G" "frame64 (pdpt m q) = frame64 (pdpt m r)"
    then show "q = r" using ap by (simp add: tables_apart_def)
  next
    fix q k r assume h: "r \<in> G" "table_at m' G q k"
    have "table_at m G q k \<Longrightarrow> frame64 (pae_pd m q k) \<noteq> frame64 (pdpt m r)"
      using ap h(1) unfolding tables_apart_def by blast
    then show "frame64 (pae_pd m' q k) \<noteq> frame64 (pdpt m r)"
      using old [OF h(2)] fr_new new(2) [OF h(1)] by metis
  next
    fix q k r j assume h: "table_at m' G q k" "table_at m' G r j" "frame64 (pae_pd m' q k) = frame64 (pae_pd m' r j)"
    have "table_at m G q k \<Longrightarrow> table_at m G r j \<Longrightarrow> frame64 (pae_pd m q k) = frame64 (pae_pd m r j) \<Longrightarrow> q = r \<and> k = j"
      using ap unfolding tables_apart_def by blast
    then show "q = r" "k = j"
      using h(3) old [OF h(1)] old [OF h(2)] fr_new new(1) [of q k] new(1) [of r j] by metis+
  qed
  show "untabled m' G g" if g: "untabled m G g" "g \<noteq> f"
  proof -
    have "frame64 (pae_pd m' q k) \<noteq> g" if "table_at m' G q k" for q k
      using old [OF that] fr_new g unfolding untabled_def by metis
    then show ?thesis
      using g(1) by (simp add: untabled_def pdpt)
  qed
  show "pae_walk m' u = Some h" if u: "pae_outside G u" "pae_walk m u = Some h"
  proof -
    have d: "present64 (pae_pd m (pdpt_index u) (pae_pd_index u))" "pdpt_index u \<in> G"
      using u by (auto simp: pae_walk_def pae_outside_def Let_def split: if_splits)
    then have t: "table_at m G (pdpt_index u) (pae_pd_index u)"
      using u(1) pae_indices_less(2) [of u] by (simp add: table_at_def pae_outside_def)
    then have ne: "\<not> (pdpt_index u = p \<and> pae_pd_index u = i)"
      using G(2) by auto
    have "frame64 (pae_pd m (pdpt_index u) (pae_pd_index u)) \<noteq> frame64 (pdpt m p)"
      using ap t p(1) by (simp add: tables_apart_def)
    then have "tables64 m' (frame64 (pae_pd m (pdpt_index u) (pae_pd_index u))) =
        tables64 m (frame64 (pae_pd m (pdpt_index u) (pae_pd_index u)))"
      using new(1) [OF t] by (simp add: m'_def set_entry64_def new_table64_def)
    moreover have "pae_pd m' (pdpt_index u) (pae_pd_index u) = pae_pd m (pdpt_index u) (pae_pd_index u)"
      using pd [OF d(2)] ne by auto
    ultimately have "pae_walk m' u = pae_walk m u"
      by (simp add: pae_walk_def pdpt Let_def)
    then show ?thesis
      using u(2) by simp
  qed
qed

text \<open>
  What mapping a page leaves alone besides the other pages: the pointer table, the size of the bitmap,
  and every frame in use that holds no table, those of \<open>F\<close> excepted. A missing page table is put in the frame allocated next.
\<close>

definition pae_keeps :: "nat set \<Rightarrow> u64 set \<Rightarrow> pae \<Rightarrow> pae \<Rightarrow> bool" where
  "pae_keeps G F m m' \<longleftrightarrow> pdpt m' = pdpt m \<and> num_frames (pae_mem m') = num_frames (pae_mem m) \<and>
     free_frames (pae_mem m') \<subseteq> free_frames (pae_mem m) \<and>
     (\<forall>h. untabled m G h \<longrightarrow> h \<notin> free_frames (pae_mem m) \<longrightarrow> untabled m' G h \<and> (h \<notin> F \<longrightarrow> tables64 m' h = tables64 m h))"

lemma pae_map_present:
  assumes inv: "pae_inv G mx m" and v: "pae_outside G v" and f: "pae_mappable mx phys flags"
    and d: "present64 (pae_pd m (pdpt_index v) (pae_pd_index v))"
  shows "\<exists>m'. pae_mmap kalloc phys v flags m = Inr m' \<and> pae_inv G mx m' \<and> pae_walk m' v = Some phys \<and>
    (\<forall>u. pae_outside G u \<longrightarrow> page_of u \<noteq> page_of v \<longrightarrow> pae_walk m' u = pae_walk m u) \<and> pae_mem m' = pae_mem m \<and>
    pae_keeps G {} m m' \<and> pae_pd m' (pdpt_index v) (pae_pd_index v) = pae_pd m (pdpt_index v) (pae_pd_index v)"
proof -
  let ?p = "pdpt_index v" and ?i = "pae_pd_index v" and ?j = "pae_pt_index v"
  have p: "?p \<in> G" "?i < 511" "?i \<noteq> 511"
    using v pae_indices_less [of v] by (auto simp: pae_outside_def)
  have al: "phys AND 0xFFF = 0" "(ucast flags :: u64) AND NOT 0xFFF = 0" "(ucast flags :: u64) AND 1 \<noteq> 0"
    using f unfolding pae_mappable_def by blast+
  have ok: "pae_ok m ?p" "\<forall>q\<in>G. pae_ok m q" and ap: "tables_apart m G" and mx: "unat (max_bit_extension m) = mx" "25 \<le> mx"
    and fr: "bitmap_ok (pae_mem m)" "\<forall>f\<in>free_frames (pae_mem m). untabled m G f"
    using inv p(1) by (auto simp: pae_inv_def)
  have t: "table_at m G ?p ?i"
    using p d by (simp add: table_at_def)
  have lim: "drop_bit (unat (max_bit_extension m)) phys = 0"
    using f mx by (simp add: pae_mappable_def)
  obtain m' where m': "pae_mmap kalloc phys v flags m = Inr m'" "pae_walk m' v = Some phys"
      "m' = set_entry64 (frame64 (pae_pd m ?p ?i)) ?j (phys OR ucast flags) m"
    using pae_map_existing [OF ok(1) d p(3) lim al, of kalloc] by blast
  note upd = set_table_entry [OF ap t, where j = ?j and e = "phys OR ucast flags", folded m'(3)]
  have at: "table_at m' G q k \<longleftrightarrow> table_at m G q k" for q k
    by (auto simp: table_at_def upd(1))
  have pd: "q \<in> G \<Longrightarrow> pae_pd m' q k = pae_pd m q k" "table_at m G q k \<Longrightarrow> pae_pd m' q k = pae_pd m q k" for q k
    by (simp_all add: upd(1) table_at_def)
  have "\<forall>q\<in>G. pae_ok m' q"
    using ok(2) by (simp add: pae_ok_def pd upd(2))
  moreover have "tables_apart m' G"
    using ap by (simp add: tables_apart_def at pd upd(2) cong: conj_cong)
  moreover have un: "untabled m' G g" if "untabled m G g" for g
    using that by (simp add: untabled_def at pd upd(2))
  ultimately have "pae_inv G mx m'"
    using fr mx by (simp add: pae_inv_def upd(3,4))
  moreover have "pae_walk m' u = pae_walk m u" if "pae_outside G u" "page_of u \<noteq> page_of v" for u
    using that by (intro upd(5)) (auto simp: page_indices64_eq)
  moreover have "tables64 m' h = tables64 m h" if "untabled m G h" for h
    using that t by (auto simp: untabled_def m'(3) set_entry64_def)
  then have "pae_keeps G {} m m'"
    using un by (simp add: pae_keeps_def upd(2,3))
  ultimately show ?thesis
    using m'(1,2) upd(3) pd(1) [OF p(1)] by (intro exI [of _ m']) simp
qed

lemma pae_map_missing:
  assumes inv: "pae_inv G mx m" and v: "pae_outside G v" and f: "pae_mappable mx phys flags" and ne: "free_frames (pae_mem m) \<noteq> {}"
    and d: "\<not> present64 (pae_pd m (pdpt_index v) (pae_pd_index v))"
  shows "\<exists>m' g b. pae_mmap kalloc phys v flags m = Inr m' \<and> pae_inv G mx m' \<and> pae_walk m' v = Some phys \<and>
    (\<forall>u h. pae_walk m u = Some h \<longrightarrow> pae_outside G u \<longrightarrow> page_of u \<noteq> page_of v \<longrightarrow> pae_walk m' u = Some h) \<and>
    alloc_phys_page (pae_mem m) = Inr (g, b) \<and> free_frames (pae_mem m') = free_frames (pae_mem m) - {g} \<and>
    g \<in> free_frames (pae_mem m) \<and> (\<forall>h\<in>free_frames (pae_mem m). unat g \<le> unat h) \<and>
    pae_keeps G {} m m' \<and> frame64 (pae_pd m' (pdpt_index v) (pae_pd_index v)) = g"
proof -
  let ?p = "pdpt_index v" and ?i = "pae_pd_index v"
  have p: "?p \<in> G" "?i < 511" "?i \<noteq> 511" "?p < 4"
    using v pae_indices_less [of v] by (auto simp: pae_outside_def)
  have ok: "pae_ok m ?p" "\<forall>q\<in>G. pae_ok m q" and ap: "tables_apart m G" and mx: "unat (max_bit_extension m) = mx" "25 \<le> mx"
    and fr: "bitmap_ok (pae_mem m)" "\<And>f. f \<in> free_frames (pae_mem m) \<Longrightarrow> untabled m G f"
    using inv p(1) by (auto simp: pae_inv_def)
  obtain g b where g: "alloc_phys_page (pae_mem m) = Inr (g, b)" "g \<in> free_frames (pae_mem m)"
      "free_frames b = free_frames (pae_mem m) - {g}" "bitmap_ok b" "num_frames b = num_frames (pae_mem m)"
      "\<forall>h\<in>free_frames (pae_mem m). unat g \<le> unat h"
    using alloc_free_frames [OF fr(1) ne] by blast
  have un: "unused_frame64 m ?p g"
    using fr(2) [OF g(2)] p(1) by (simp add: untabled_def unused_frame64_def)
  obtain m1 where m1: "create_new_pae_pt kalloc ?p ?i m = Inr m1" "pae_ok m1 ?p" "present64 (pae_pd m1 ?p ?i)"
      "max_bit_extension m1 = max_bit_extension m"
      "m1 = new_table64 g (set_entry64 (frame64 (pdpt m ?p)) ?i (g OR 3) (m\<lparr>pae_mem := b\<rparr>))"
    using create_new_pae_pt_ok [OF ok(1) p(4,2) d g(1) un] by blast
  note new = enter_new_table [OF ap p(1,2) d fr(2) [OF g(2)], where b = b, folded m1(5)]
  have gf: "frame64 (g OR 3) = g" "present64 (g OR 3)"
    using frame64_mapped [of g 3] un by (simp_all add: unused_frame64_def)
  have "pae_ok m1 q" if "q \<in> G" for q
  proof -
    have "g \<noteq> frame64 (pdpt m q)"
      using fr(2) [OF g(2)] that by (simp add: untabled_def)
    then show ?thesis
      using ok(2) that p(3) gf by (auto simp: pae_ok_def new(1) new(2))
  qed
  then have inv1: "pae_inv G mx m1"
    using g(3,4) mx m1(4) new(3,4,5) fr(2) by (simp add: pae_inv_def)
  obtain m' where m': "pae_mmap kalloc phys v flags m1 = Inr m'" "pae_inv G mx m'" "pae_walk m' v = Some phys"
      "\<And>u. pae_outside G u \<Longrightarrow> page_of u \<noteq> page_of v \<Longrightarrow> pae_walk m' u = pae_walk m1 u" "pae_mem m' = pae_mem m1"
      "pae_keeps G {} m1 m'" "pae_pd m' ?p ?i = pae_pd m1 ?p ?i"
    using pae_map_present [OF inv1 v f m1(3)] by blast
  have "pae_mmap kalloc phys v flags m = pae_mmap kalloc phys v flags m1"
    using d m1(1,3,4) read_directory [OF ok(1) p(4)] read_directory [OF m1(2) p(4)] by (simp add: pae_mmap_def Let_def)
  moreover have "\<forall>u h. pae_walk m u = Some h \<longrightarrow> pae_outside G u \<longrightarrow> page_of u \<noteq> page_of v \<longrightarrow> pae_walk m' u = Some h"
    using m'(4) new(6) by auto
  moreover have "untabled m' G h \<and> tables64 m' h = tables64 m h" if h: "untabled m G h" "h \<notin> free_frames (pae_mem m)" for h
  proof -
    have "h \<noteq> g" "h \<noteq> frame64 (pdpt m ?p)"
      using h g(2) p(1) by (auto simp: untabled_def)
    then have "untabled m1 G h" "h \<notin> free_frames (pae_mem m1)" "tables64 m1 h = tables64 m h"
      using new(3,5) h g(3) by (simp_all add: m1(5) new_table64_def set_entry64_def)
    then show ?thesis
      using m'(6) by (simp add: pae_keeps_def)
  qed
  then have "pae_keeps G {} m m'"
    using m'(5,6) new(2,3) g(3,5) by (auto simp: pae_keeps_def)
  moreover have "frame64 (pae_pd m' ?p ?i) = g"
    using m'(7) new(1) [OF p(1)] gf by simp
  ultimately show ?thesis
    using m'(1-3,5) new(3) g(1,2,3,6) by (intro exI [of _ m'] exI [of _ g] exI [of _ b]) simp
qed

lemma pae_map_keeps:
  assumes inv: "pae_inv G mx m" and v: "pae_outside G v" and ne: "free_frames (pae_mem m) \<noteq> {}" and f: "pae_mappable mx phys flags"
  shows "\<exists>m' g. pae_mmap kalloc phys v flags m = Inr m' \<and> pae_inv G mx m' \<and> pae_walk m' v = Some phys \<and> pae_keeps G {} m m' \<and>
    (\<forall>u h. pae_walk m u = Some h \<longrightarrow> pae_outside G u \<longrightarrow> page_of u \<noteq> page_of v \<longrightarrow> pae_walk m' u = Some h) \<and>
    free_frames (pae_mem m) - {g} \<subseteq> free_frames (pae_mem m')"
proof (cases "present64 (pae_pd m (pdpt_index v) (pae_pd_index v))")
  case True
  obtain m' where m': "pae_mmap kalloc phys v flags m = Inr m'" "pae_inv G mx m'" "pae_walk m' v = Some phys" "pae_keeps G {} m m'"
      "\<And>u. pae_outside G u \<Longrightarrow> page_of u \<noteq> page_of v \<Longrightarrow> pae_walk m' u = pae_walk m u" "pae_mem m' = pae_mem m"
    using pae_map_present [OF inv v f True, of kalloc] by blast
  then show ?thesis
    by (intro exI [of _ m'] exI [of _ 0]) auto
next
  case False
  obtain m' g where m': "pae_mmap kalloc phys v flags m = Inr m'" "pae_inv G mx m'" "pae_walk m' v = Some phys" "pae_keeps G {} m m'"
      "\<forall>u h. pae_walk m u = Some h \<longrightarrow> pae_outside G u \<longrightarrow> page_of u \<noteq> page_of v \<longrightarrow> pae_walk m' u = Some h"
      "free_frames (pae_mem m') = free_frames (pae_mem m) - {g}"
    using pae_map_missing [OF inv v f ne False, of kalloc] by blast
  then show ?thesis
    by (intro exI [of _ m'] exI [of _ g]) auto
qed

lemma pae_mmap_unclaimed:
  assumes inv: "pae_inv G mx m" and v: "pae_outside G v" and ne: "free_frames (pae_mem m) \<noteq> {}" and f: "pae_mappable mx phys flags"
  shows "\<exists>m' g. pae_mmap kalloc phys v flags m = Inr m' \<and> pae_inv G mx m' \<and> pae_walk m' v = Some phys \<and>
    (\<forall>u h. pae_walk m u = Some h \<longrightarrow> pae_outside G u \<longrightarrow> page_of u \<noteq> page_of v \<longrightarrow> pae_walk m' u = Some h) \<and>
    free_frames (pae_mem m) - {g} \<subseteq> free_frames (pae_mem m') \<and> free_frames (pae_mem m') \<subseteq> free_frames (pae_mem m)"
  using pae_map_keeps [OF assms] unfolding pae_keeps_def by blast

lemma pae_walk_page: "page_of u = page_of v \<Longrightarrow> pae_walk m u = pae_walk m v"
  by (simp add: pae_walk_def page_indices64_eq)

interpretation three_level: page_mapper alloc_frame3 "pae_mmap kalloc" "pae_inv G mx" pae_walk "\<lambda>m. free_frames (pae_mem m)"
  "pae_outside G" "pae_mappable mx"
proof
  fix m :: pae and u v :: u32
  show "\<exists>f m'. alloc_frame3 m = Inr (f, m') \<and> pae_inv G mx m' \<and> f \<in> free_frames (pae_mem m) \<and>
      free_frames (pae_mem m') = free_frames (pae_mem m) - {f} \<and> pae_walk m' = pae_walk m"
    if inv: "pae_inv G mx m" and ne: "free_frames (pae_mem m) \<noteq> {}"
  proof -
    obtain f p where f: "alloc_phys_page (pae_mem m) = Inr (f, p)" "f \<in> free_frames (pae_mem m)"
        "free_frames p = free_frames (pae_mem m) - {f}" "bitmap_ok p"
      using alloc_free_frames [OF _ ne] inv by (auto simp: pae_inv_def)
    have pd: "pae_pd (m\<lparr>pae_mem := p\<rparr>) = pae_pd m" "table_at (m\<lparr>pae_mem := p\<rparr>) = table_at m"
      by (intro ext; simp add: pae_pd_def table_at_def)+
    have "pae_inv G mx (m\<lparr>pae_mem := p\<rparr>)"
      using inv f by (simp add: pae_inv_def pae_ok_def tables_apart_def untabled_def pd)
    moreover have "pae_walk (m\<lparr>pae_mem := p\<rparr>) = pae_walk m"
      by (rule ext) (simp add: pae_walk_def pae_pd_def)
    ultimately show ?thesis
      using f by (intro exI [of _ f] exI [of _ "m\<lparr>pae_mem := p\<rparr>"]) (simp add: alloc_frame3_def)
  qed
  show "page_of u = page_of v \<Longrightarrow> pae_walk m u = pae_walk m v"
    by (rule pae_walk_page)
qed (rule finite_free_frames pae_mmap_unclaimed; assumption?)+

section \<open>Allocations of any length\<close>

lemma free_mappable:
  "f \<in> free_frames p \<Longrightarrow> flags AND NOT 0xFFF = 0 \<Longrightarrow> flags AND 1 \<noteq> 0 \<Longrightarrow> mappable f flags"
  using free_frame_range [of f p] unfolding mappable_def low_bits64 by simp

lemma free_pae_mappable:
  assumes f: "f \<in> free_frames p" and fl: "(ucast flags :: u64) AND NOT 0xFFF = 0" "(ucast flags :: u64) AND 1 \<noteq> 0" and mx: "25 \<le> mx"
  shows "pae_mappable mx f flags"
proof -
  have "unat f < 2 ^ mx"
    using free_frame_range(1) [OF f] power_increasing [OF mx, of "2 :: nat"] by simp
  then have "unat (drop_bit mx f) = 0"
    by (simp only: unsigned_drop_bit_eq) (metis div_less drop_bit_eq_div le_less_trans take_bit_nat_less_eq_self)
  then have "drop_bit mx f = 0"
    by (simp only: unsigned_eq_0_iff)
  then show ?thesis
    using free_frame_range(2) [OF f] fl unfolding pae_mappable_def low_bits64 by simp
qed

text \<open>Allocations of one page.\<close>

lemma alloc_page_given:
  fixes s :: "'m vm"
  assumes lone: "lone_region (space s c) (region_nodes s) bas siz k limit" "k < limit" "0x1000 < siz"
    and phys: "phys \<noteq> 0" "phys AND 0xFFF = 0" and mp: "mp phys bas flags (mach s) = Inr m'"
  shows "\<exists>st. vmm_page_alloc al mp c 0x1000 flags phys s = Some (Inr (bas, s\<lparr>region_nodes := st, mach := m'\<rparr>)) \<and>
    lone_region (space s c) st (bas + 0x1000) (siz - 0x1000) (Suc k) limit"
proof -
  have r: "BYTE_PGROUNDUP 0x1000 = 0x1000" "unat (0x1000 :: u32) div 4096 = Suc 0"
    by (simp_all add: BYTE_PGROUNDUP_def)
  have p: "phys AND NOT 0xFFF = phys"
    by (metis split_mask64 phys(2) or.left_neutral)
  have low: "(ucast phys :: u32) AND 0xFFF = 0"
    using phys(2) by (simp add: low_bits low_bits64 unsigned_ucast_eq take_bit_eq_mod mod_mod_cancel)
  have "map_pages al mp flags phys bas [0..<Suc 0] (mach s) = Inr m'"
    using phys(1) p mp by simp
  then show ?thesis
    using vmm_alloc_lone [OF lone(1,2), of "0x1000" al mp flags phys] lone(3) unfolding r low by auto
qed

lemma alloc_page_fresh:
  fixes s :: "'m vm"
  assumes lone: "lone_region (space s c) (region_nodes s) bas siz k limit" "k < limit" "0x1000 < siz"
    and al: "al (mach s) = Inr (f, m1)" and mp: "mp f bas flags m1 = Inr m'"
  shows "\<exists>st. vmm_page_alloc al mp c 0x1000 flags 0 s = Some (Inr (bas, s\<lparr>region_nodes := st, mach := m'\<rparr>)) \<and>
    lone_region (space s c) st (bas + 0x1000) (siz - 0x1000) (Suc k) limit"
proof -
  have r: "BYTE_PGROUNDUP 0x1000 = 0x1000" "unat (0x1000 :: u32) div 4096 = Suc 0"
    by (simp_all add: BYTE_PGROUNDUP_def)
  have "map_pages al mp flags 0 bas [0..<Suc 0] (mach s) = Inr m'"
    using al mp by simp
  then show ?thesis
    using vmm_alloc_lone [OF lone(1,2), of "0x1000" al mp flags 0] lone(3) unfolding r by auto
qed

text \<open>
  C3. The allocator and the page tables together, for any number of pages: when the kernel's space has
  one free region, the request is smaller, and there are frames for the pages and for a table each,
  \<open>page_kalloc\<close> returns the start of the region; afterwards every address of the allocation resolves,
  to frames that are all different and were free, or to the consecutive frames from the address
  given; every page mapped before that is not in the allocation still resolves as it did; the free
  region shrinks by the allocation, and all of what the next call relies on holds again.
\<close>

theorem page_kalloc_maps_range:
  fixes s :: "paging vm"
  assumes lone: "lone_region (space s (kernel_vmm s)) (region_nodes s) bas siz k limit" "k < limit"
    and L: "L = BYTE_PGROUNDUP len" "L < siz" and bas: "bas AND 0xFFF = 0" and ok: "paging_inv (mach s)"
    and us: "\<forall>va. unat (va - bas) < unat L \<longrightarrow> outside_window va"
    and en: "frames_enough (\<lambda>f. mappable f flags) (ucast phys) (free_frames (phys_mem (mach s))) (unat L div 4096)"
    and fl: "flags AND NOT 0xFFF = 0" "flags AND 1 \<noteq> 0"
  shows "\<exists>s' fs. page_kalloc len flags phys s = Some (Inr (bas + (phys AND 0xFFF), s')) \<and> paging_inv (mach s') \<and>
    lone_region (space s' (kernel_vmm s')) (region_nodes s') (bas + L) (siz - L) (Suc k) limit \<and>
    frames_given (ucast phys) (free_frames (phys_mem (mach s)) - free_frames (phys_mem (mach s'))) (unat L div 4096) fs \<and>
    range_mapped outside_window (walk2 (mach s)) (walk2 (mach s')) bas (unat L) fs"
proof -
  have fr: "\<forall>f\<in>free_frames (phys_mem (mach s)). mappable f flags"
    using free_mappable fl by blast
  obtain st m' fs where r: "vmm_page_alloc alloc_frame2 map_page2 (kernel_vmm s) len flags (ucast phys) s =
        Some (Inr (bas + (ucast (ucast phys :: u64) AND 0xFFF), s\<lparr>region_nodes := st, mach := m'\<rparr>))" "paging_inv m'"
      "lone_region (space s (kernel_vmm s)) st (bas + L) (siz - L) (Suc k) limit"
      "frames_given (ucast phys) (free_frames (phys_mem (mach s)) - free_frames (phys_mem m')) (unat L div 4096) fs"
      "range_mapped outside_window (walk2 (mach s)) (walk2 m') bas (unat L) fs"
    using two_level.alloc_range [OF lone L bas ok us en fr] by blast
  then show ?thesis
    by (intro exI [of _ "s\<lparr>region_nodes := st, mach := m'\<rparr>"] exI [of _ fs]) (simp add: page_kalloc_def ucast_up_down)
qed

lemma free_frames_all:
  assumes "taken p = {}"
  shows "card (free_frames p) = 3841" "f \<in> free_frames p \<Longrightarrow> 0x100000 \<le> unat f"
proof -
  have "free_frames p = frame_addr ` {..3840}"
    using assms by (auto simp: free_frames_def frame_limit_def)
  moreover have "inj_on frame_addr {..3840}"
    using frame_addr_inj by (auto simp: inj_on_def frame_limit_def)
  ultimately show "card (free_frames p) = 3841"
    by (simp add: card_image)
  show "0x100000 \<le> unat f" if "f \<in> free_frames p"
    using that unat_frame_addr by (auto simp: free_frames_def)
qed

lemma lone_rebase:
  assumes "lone_region v st b z k limit" "0 < k" "root v = slot v 0"
  shows "lone_region v (st(root v := (st (root v))\<lparr>rb_base := b'\<rparr>)) b' z k limit"
proof -
  have "slot v j \<noteq> root v" if "k \<le> j" "j < limit" for j
    using that assms slot_eq [of j 0 v] by (simp add: lone_region_def)
  then show ?thesis
    using assms(1) by (auto simp: lone_region_def free_slot_def)
qed

lemma demo_paging_inv: "paging_inv demo_paging"
proof -
  have "unused_frame demo_paging (ucast f)" if f: "f \<in> free_frames (phys_mem demo_paging)" for f
  proof -
    have t: "taken (phys_mem demo_paging) = {}"
      by (auto simp: mem_taken demo_paging_def)
    have u: "unat (ucast f :: u32) = unat f"
      using free_frame_range(1) [OF f] by (simp add: unsigned_ucast_eq take_bit_nat_eq_self)
    have "(ucast f :: u32) AND 0xFFF = 0"
      using free_frame_range(2) [OF f] by (simp add: low_bits u)
    moreover have "ucast f \<noteq> (0x1000 :: u32)" "ucast f \<noteq> (0x2000 :: u32)"
      using u free_frames_all(2) [OF t f] by auto
    ultimately show ?thesis
      by (auto simp: unused_frame_def demo_paging_def pde_def present_def frame_of_def split: if_splits)
  qed
  then show ?thesis
    by (simp add: paging_inv_def demo_paging_ok) (simp add: bitmap_ok_def demo_paging_def frame_limit_def)
qed

theorem page_kalloc_maps_range_witness:
  "\<exists>s' fs. page_kalloc 0x2000 3 0 demo_space = Some (Inr (0x100000, s')) \<and> distinct fs \<and>
     walk2 (mach s') 0x100000 = Some (fs ! 0) \<and> walk2 (mach s') 0x101ABC = Some (fs ! 1) \<and> walk2 (mach s') 0xC0005000 = Some 0x7000"
proof -
  have i: "pd_index 0xC0005000 = 768" "pt_index 0xC0005000 = 5"
    by (simp_all add: pd_index_nat pt_index_nat)
  have w: "walk2 demo_paging 0xC0005000 = Some 0x7000"
    by (simp add: walk2_def walk_def i pde_def demo_paging_def present_def frame_of_def)
  have m: "mach demo_space = demo_paging" "kernel_vmm demo_space = 64"
    by (simp_all add: demo_space_def)
  have t: "taken (phys_mem demo_paging) = {}"
    by (auto simp: mem_taken demo_paging_def)
  have us: "\<forall>va. unat (va - 0x100000) < unat (0x2000 :: u32) \<longrightarrow> outside_window va"
  proof (intro allI impI)
    fix va :: u32 assume "unat (va - 0x100000) < unat (0x2000 :: u32)"
    then have "unat (va - 0x100000) + unat (0x100000 :: u32) < 2 ^ 22"
      by simp
    moreover have "unat va = unat (va - 0x100000 + 0x100000)"
      by simp
    ultimately have "unat va < 2 ^ 22"
      by (simp only: unat_plus_if') (simp split: if_splits)
    then show "outside_window va"
      by (simp add: outside_window_def pd_index_nat)
  qed
  have fl: "(3 :: u32) AND NOT 0xFFF = 0" "(3 :: u32) AND 1 \<noteq> 0" "(0x100000 :: u32) AND 0xFFF = 0"
    by simp_all
  have L: "0x2000 = BYTE_PGROUNDUP 0x2000" "(0x2000 :: u32) < 0x8000"
    by (simp_all add: BYTE_PGROUNDUP_def)
  have en: "frames_enough (\<lambda>f. mappable f 3) (ucast (0 :: u32)) (free_frames (phys_mem (mach demo_space))) (unat (0x2000 :: u32) div 4096)"
    using free_frames_all(1) [OF t] by (simp add: frames_enough_def m)
  obtain s' fs where r: "page_kalloc 0x2000 3 0 demo_space = Some (Inr (0x100000 + (0 AND 0xFFF), s'))"
      "frames_given (ucast (0 :: u32)) (free_frames (phys_mem (mach demo_space)) - free_frames (phys_mem (mach s'))) (unat (0x2000 :: u32) div 4096) fs"
      "range_mapped outside_window (walk2 (mach demo_space)) (walk2 (mach s')) 0x100000 (unat (0x2000 :: u32)) fs"
    using page_kalloc_maps_range [OF _ _ L fl(3) _ us en fl(1,2), of 1 125] demo_lone demo_paging_inv m by fastforce
  have "walk2 (mach s') 0x100000 = Some (fs ! (unat (0x100000 - 0x100000 :: u32) div 4096))"
    "walk2 (mach s') 0x101ABC = Some (fs ! (unat (0x101ABC - 0x100000 :: u32) div 4096))"
    "walk2 (mach s') 0xC0005000 = Some 0x7000"
    using r(3) w unfolding range_mapped_def m by (simp_all add: outside_window_def i)
  then show ?thesis
    using r(1,2) by (intro exI [of _ s'] exI [of _ fs]) (simp add: frames_given_def)
qed

end
