(* ===== verification/Process_Space.thy ===== *)
theory Process_Space
  imports Page_Mapping Scheduler
begin

text \<open>
  The address space of a new process, \<open>create_new_pdptes\<close> of \<open>kernel/scheduler.c\<close>: three page directories,
  the struct and the node store of the space in a page that is mapped in the kernel and in the
  process, and the stack. \<open>spawn\<close> is \<open>create_process\<close> as a whole, on the process list and the page tables.
\<close>

section \<open>The operations\<close>

definition take_frame :: "pae vm \<Rightarrow> (u64 \<times> pae vm) outcome" where
  "take_frame s = Some (map_sum id (\<lambda>(f, m). (f, s\<lparr>mach := m\<rparr>)) (alloc_frame3 (mach s)))"

definition on_mach :: "(pae \<Rightarrow> pae result) \<Rightarrow> pae vm \<Rightarrow> pae vm outcome" where
  "on_mach f s = Some (map_sum id (\<lambda>m. s\<lparr>mach := m\<rparr>) (f (mach s)))"

text \<open>\<open>memset(temp_page, 0, 4096)\<close>.\<close>

definition wipe_page :: "u32 \<Rightarrow> pae \<Rightarrow> pae result" where
  "wipe_page va m = (case pae_walk m va of None \<Rightarrow> Inl (PageFault va) | Some f \<Rightarrow> Inr (new_table64 f m))"

text \<open>
  A directory is mapped at \<open>TEMP_PAGE_VIRT\<close>, zeroed (the first two are) and its last entry set to itself.
\<close>

definition enter_directory :: "(pae \<Rightarrow> pae result) \<Rightarrow> bool \<Rightarrow> u64 \<Rightarrow> pae \<Rightarrow> pae result" where
  "enter_directory kalloc wipe phys m =
     (case pae_mmap kalloc phys TEMP_PAGE_VIRT 3 m of
        Inl e \<Rightarrow> Inl e
      | Inr m1 \<Rightarrow>
          (case (if wipe then wipe_page TEMP_PAGE_VIRT m1 else Inr m1) of
             Inl e \<Rightarrow> Inl e
           | Inr m2 \<Rightarrow> write_table64 TEMP_PAGE_VIRT 511 (phys OR 1) m2))"

text \<open>
  With no store page \<open>create_vmm\<close> maps one with \<open>memory_map\<close> in the directory given, here NULL: a fault
  at the entry of \<open>TEMP_PAGE_VIRT\<close>.
\<close>

definition create_vmm_null :: "u32 \<Rightarrow> u32 \<Rightarrow> u32 \<Rightarrow> pae vm \<Rightarrow> (u32 \<times> pae vm) outcome" where
  "create_vmm_null lo hi store_page s =
     (if store_page = 0 then bind_out (take_frame s) (\<lambda>_. Some (Inl (PageFault (4 * of_nat (pd_index TEMP_PAGE_VIRT)))))
      else create_vmm 0 lo hi store_page s)"

text \<open>
  The page at \<open>q\<close> is mapped to the frame of the page at \<open>p\<close>: the nodes in it are the same. They are
  accessed through \<open>q\<close> from then on.
\<close>

definition same_page :: "u32 \<Rightarrow> u32 \<Rightarrow> store \<Rightarrow> store" where
  "same_page p q st = (\<lambda>a. if q \<noteq> 0 \<and> in_page q a then st (p + (a - q)) else st a)"

definition enter_directories :: "(pae \<Rightarrow> pae result) \<Rightarrow> u64 \<Rightarrow> u64 \<Rightarrow> u64 \<Rightarrow> pae vm \<Rightarrow> pae vm outcome" where
  "enter_directories kalloc lo med hi s =
     bind_out (on_mach (enter_directory kalloc True lo) s)
       (\<lambda>s1. bind_out (on_mach (enter_directory kalloc True med) s1)
         (\<lambda>s2. bind_out (on_mach (enter_directory kalloc False hi) s2)
           (\<lambda>s3. on_mach (pae_unmap TEMP_PAGE_VIRT) s3)))"

text \<open>From \<open>set_current_vmm(new_vmm)\<close> on: the store page and the tree move to the process's addresses.\<close>

definition enter_space :: "(pae \<Rightarrow> pae result) \<Rightarrow> u32 \<Rightarrow> u64 \<Rightarrow> pae vm \<Rightarrow> (u32 \<times> pae vm) outcome" where
  "enter_space kalloc new_vmm vmm_store_phys s =
     bind_out (pae_alloc kalloc 4096 3 (ucast (ucast vmm_store_phys :: u32)) (set_current_vmm new_vmm s))
       (\<lambda>(vmm_pspace, s1).
         let v = space s1 new_vmm; root_offset = root v - vm_obj_store_addr v;
             store_addr = vmm_pspace + sizeof_vmm;
             v' = v\<lparr>vm_obj_store_addr := store_addr, root := store_addr + root_offset\<rparr>
         in bind_out
              (alloc_stack kalloc new_vmm
                (s1\<lparr>space := (space s1)(new_vmm := v'), region_nodes := same_page new_vmm vmm_pspace (region_nodes s1)\<rparr>))
              (\<lambda>(stack_top, s2). Some (Inr (stack_top - 0x20, s2))))"

text \<open>The new space and the stack pointer of the process.\<close>

definition create_new_pdptes :: "(pae \<Rightarrow> pae result) \<Rightarrow> pae vm \<Rightarrow> ((u32 \<times> u32) \<times> pae vm) outcome" where
  "create_new_pdptes kalloc s =
     bind_out (take_frame s) (\<lambda>(phys_pdlow, s1).
     bind_out (take_frame s1) (\<lambda>(phys_pdmed, s2).
     bind_out (take_frame s2) (\<lambda>(phys_pdhigh, s3).
     bind_out (take_frame s3) (\<lambda>(vmm_store_phys, s4).
     bind_out (pae_kalloc kalloc 4096 3 vmm_store_phys s4) (\<lambda>(vmm_kspace, s5).
     bind_out (create_vmm_null 0x10000 0xC0000000 vmm_kspace s5) (\<lambda>(new_vmm, s6).
     bind_out (enter_directories kalloc phys_pdlow phys_pdmed phys_pdhigh s6) (\<lambda>s7.
       let v = (space s7 new_vmm)\<lparr>pd_low := phys_pdlow, pd_mid := phys_pdmed, pd_high := phys_pdhigh\<rparr>
       in bind_out (enter_space kalloc new_vmm vmm_store_phys (s7\<lparr>space := (space s7)(new_vmm := v)\<rparr>))
            (\<lambda>(sp, s8). Some (Inr ((new_vmm, sp), s8))))))))))"

text \<open>\<open>create_process\<close> with its address space; \<open>p\<close>, \<open>c\<close> are the blocks from the heap, \<open>r0\<close>, \<open>r3\<close> the control registers.\<close>

definition spawn ::
  "(pae \<Rightarrow> pae result) \<Rightarrow> u32 \<Rightarrow> u32 \<Rightarrow> process \<Rightarrow> u32 \<Rightarrow> u32 \<Rightarrow> u32 \<Rightarrow> int \<Rightarrow> sched \<Rightarrow> pae vm \<Rightarrow> (u32 \<times> sched \<times> pae vm) outcome" where
  "spawn kalloc p c garbage r0 r3 function privileged ps s =
     bind_out (create_new_pdptes kalloc s) (\<lambda>((v, sp), s1).
       Option.bind (create_process p c garbage v sp r0 r3 function privileged ps)
         (\<lambda>(q, ps').
           Some (Inr (q, ps', if vm.current_vmm s \<noteq> 0 then set_current_vmm (vm.current_vmm s) s1 else s1))))"

section \<open>Frames in use\<close>

text \<open>A frame that is in use and holds neither a directory of \<open>G\<close> nor a table of one.\<close>

definition owned :: "nat set \<Rightarrow> pae \<Rightarrow> u64 \<Rightarrow> bool" where
  "owned G m f \<longleftrightarrow> untabled m G f \<and> f \<notin> free_frames (pae_mem m)"

lemma keeps_owned:
  assumes "pae_keeps G F m m'" "owned G m h"
  shows "owned G m' h" "h \<notin> F \<Longrightarrow> tables64 m' h = tables64 m h"
  using assms by (auto simp: pae_keeps_def owned_def)

lemma keeps_trans:
  assumes "pae_keeps G F m m1" "pae_keeps G F' m1 m2"
  shows "pae_keeps G (F \<union> F') m m2"
  using assms keeps_owned [OF assms(1)] keeps_owned [OF assms(2)] unfolding pae_keeps_def owned_def by auto

lemma keeps_pdpt: "pae_keeps G F m m' \<Longrightarrow> pdpt m' = pdpt m"
  by (simp add: pae_keeps_def)

lemma untabled_pae_mem [simp]: "untabled (m\<lparr>pae_mem := p\<rparr>) G f = untabled m G f"
proof -
  have "table_at (m\<lparr>pae_mem := p\<rparr>) = table_at m" "pae_pd (m\<lparr>pae_mem := p\<rparr>) = pae_pd m"
    by (intro ext; simp add: table_at_def pae_pd_def)+
  then show ?thesis
    by (simp add: untabled_def)
qed

lemma pae_walk_pae_mem [simp]: "pae_walk (m\<lparr>pae_mem := p\<rparr>) va = pae_walk m va"
  by (simp add: pae_walk_def pae_pd_def)

lemma pae_inv_pae_mem:
  assumes "pae_inv G mx m" "bitmap_ok p" "\<forall>f\<in>free_frames p. untabled m G f"
  shows "pae_inv G mx (m\<lparr>pae_mem := p\<rparr>)"
proof -
  have pd: "pae_pd (m\<lparr>pae_mem := p\<rparr>) = pae_pd m"
    by (intro ext) (simp add: pae_pd_def)
  then have "table_at (m\<lparr>pae_mem := p\<rparr>) = table_at m"
    by (intro ext) (simp add: table_at_def)
  then show ?thesis
    using assms pd by (simp add: pae_inv_def pae_ok_def tables_apart_def)
qed

text \<open>Taking the first free frame.\<close>

lemma take_frame_ok:
  assumes inv: "pae_inv G mx (mach s)" and ne: "free_frames (pae_mem (mach s)) \<noteq> {}"
  shows "\<exists>f p. take_frame s = Some (Inr (f, s\<lparr>mach := (mach s)\<lparr>pae_mem := p\<rparr>\<rparr>)) \<and> f \<in> free_frames (pae_mem (mach s)) \<and>
    free_frames p = free_frames (pae_mem (mach s)) - {f} \<and> (\<forall>h\<in>free_frames (pae_mem (mach s)). unat f \<le> unat h) \<and>
    num_frames p = num_frames (pae_mem (mach s)) \<and> pae_inv G mx ((mach s)\<lparr>pae_mem := p\<rparr>) \<and>
    pae_keeps G {} (mach s) ((mach s)\<lparr>pae_mem := p\<rparr>) \<and> owned G ((mach s)\<lparr>pae_mem := p\<rparr>) f"
proof -
  have b: "bitmap_ok (pae_mem (mach s))" and un: "\<And>f. f \<in> free_frames (pae_mem (mach s)) \<Longrightarrow> untabled (mach s) G f"
    using inv by (auto simp: pae_inv_def)
  obtain f p where f: "alloc_phys_page (pae_mem (mach s)) = Inr (f, p)" "f \<in> free_frames (pae_mem (mach s))"
      "free_frames p = free_frames (pae_mem (mach s)) - {f}" "bitmap_ok p" "num_frames p = num_frames (pae_mem (mach s))"
      "\<forall>h\<in>free_frames (pae_mem (mach s)). unat f \<le> unat h"
    using alloc_free_frames [OF b ne] by blast
  have "pae_inv G mx ((mach s)\<lparr>pae_mem := p\<rparr>)"
    using inv f(3,4) un by (intro pae_inv_pae_mem) auto
  then show ?thesis
    using f un by (intro exI [of _ f] exI [of _ p]) (auto simp: take_frame_def alloc_frame3_def pae_keeps_def owned_def)
qed

text \<open>Writing into a frame that holds no table.\<close>

definition set_frame64 :: "u64 \<Rightarrow> (nat \<Rightarrow> u64) \<Rightarrow> pae \<Rightarrow> pae" where
  "set_frame64 f t m = m\<lparr>tables64 := (tables64 m)(f := t)\<rparr>"

lemma set_frame64_simps [simp]:
  "pdpt (set_frame64 f t m) = pdpt m" "pae_mem (set_frame64 f t m) = pae_mem m"
  "max_bit_extension (set_frame64 f t m) = max_bit_extension m"
  "tables64 (set_frame64 f t m) h = (if h = f then t else tables64 m h)"
  by (simp_all add: set_frame64_def)

lemma overwrite_untabled:
  assumes inv: "pae_inv G mx m" and f: "untabled m G f"
  shows "pae_inv G mx (set_frame64 f t m)" "pae_keeps G {f} m (set_frame64 f t m)"
    "pae_outside G u \<Longrightarrow> pae_walk (set_frame64 f t m) u = pae_walk m u"
proof -
  let ?m = "set_frame64 f t m"
  have pd: "pae_pd ?m q i = pae_pd m q i" if "q \<in> G" for q i
    using f that by (auto simp: pae_pd_def untabled_def)
  have at: "table_at ?m G q i = table_at m G q i" for q i
    by (auto simp: table_at_def pd)
  have pd': "table_at m G q i \<Longrightarrow> pae_pd ?m q i = pae_pd m q i" for q i
    by (simp add: table_at_def pd)
  have un: "untabled ?m G h = untabled m G h" for h
    by (auto simp: untabled_def at pd')
  show "pae_inv G mx ?m"
    using inv by (simp add: pae_inv_def pae_ok_def tables_apart_def at pd pd' un cong: conj_cong)
  show "pae_keeps G {f} m ?m"
    by (simp add: pae_keeps_def un)
  show "pae_walk ?m u = pae_walk m u" if u: "pae_outside G u"
  proof -
    have "pdpt_index u \<in> G"
      using u by (simp add: pae_outside_def)
    moreover have "frame64 (pae_pd m (pdpt_index u) (pae_pd_index u)) \<noteq> f"
      if "present64 (pae_pd m (pdpt_index u) (pae_pd_index u))"
      using that u f pae_indices_less(2) [of u] by (auto simp: untabled_def table_at_def pae_outside_def)
    ultimately show ?thesis
      by (auto simp: pae_walk_def pd Let_def)
  qed
qed

lemma new_table_frame: "new_table64 f m = set_frame64 f (\<lambda>j. if j < 512 then 0 else tables64 m f j) m"
  by (simp add: new_table64_def set_frame64_def)

lemma set_entry_frame: "set_entry64 f i v m = set_frame64 f ((tables64 m f)(i := v)) m"
  by (simp add: set_entry64_def set_frame64_def)

text \<open>A directory is entered: it maps itself, and a zeroed one nothing else.\<close>

lemma enter_directory_ok:
  assumes inv: "pae_inv G mx m" and T: "pae_outside G TEMP_PAGE_VIRT" and ne: "free_frames (pae_mem m) \<noteq> {}"
    and f: "owned G m f" "pae_mappable mx f 3"
  shows "\<exists>m' g. enter_directory kalloc wipe f m = Inr m' \<and> pae_inv G mx m' \<and> pae_walk m' TEMP_PAGE_VIRT = Some f \<and>
    tables64 m' f 511 = f OR 1 \<and> (wipe \<longrightarrow> (\<forall>i<511. tables64 m' f i = 0)) \<and> pae_keeps G {f} m m' \<and>
    (\<forall>u h. pae_walk m u = Some h \<longrightarrow> pae_outside G u \<longrightarrow> page_of u \<noteq> page_of TEMP_PAGE_VIRT \<longrightarrow> pae_walk m' u = Some h) \<and>
    free_frames (pae_mem m) - {g} \<subseteq> free_frames (pae_mem m')"
proof -
  obtain m1 g where m1: "pae_mmap kalloc f TEMP_PAGE_VIRT 3 m = Inr m1" "pae_inv G mx m1" "pae_walk m1 TEMP_PAGE_VIRT = Some f"
      "pae_keeps G {} m m1" "free_frames (pae_mem m) - {g} \<subseteq> free_frames (pae_mem m1)"
      "\<forall>u h. pae_walk m u = Some h \<longrightarrow> pae_outside G u \<longrightarrow> page_of u \<noteq> page_of TEMP_PAGE_VIRT \<longrightarrow> pae_walk m1 u = Some h"
    using pae_map_keeps [OF inv T ne f(2), of kalloc] by blast
  define m2 where "m2 = (if wipe then new_table64 f m1 else m1)"
  define t where "t = (if wipe then (\<lambda>j. if j < 512 then 0 else tables64 m1 f j) else tables64 m1 f)(511 := f OR 1)"
  have w: "(if wipe then wipe_page TEMP_PAGE_VIRT m1 else Inr m1) = Inr m2"
    using m1(3) by (simp add: wipe_page_def m2_def)
  have un: "untabled m1 G f"
    using keeps_owned(1) [OF m1(4) f(1)] by (simp add: owned_def)
  note over = overwrite_untabled [OF m1(2) un]
  have "pae_walk m2 TEMP_PAGE_VIRT = Some f"
    using m1(3) over(3) [OF T] by (simp add: m2_def new_table_frame)
  then have "enter_directory kalloc wipe f m = Inr (set_entry64 f 511 (f OR 1) m2)"
    using m1(1) w by (simp add: enter_directory_def write_table64_def)
  also have "set_entry64 f 511 (f OR 1) m2 = set_frame64 f t m1"
    by (simp add: set_entry_frame m2_def new_table_frame t_def) (simp add: set_frame64_def)
  finally have eq: "enter_directory kalloc wipe f m = Inr (set_frame64 f t m1)" .
  have "pae_keeps G {f} m (set_frame64 f t m1)"
    using keeps_trans [OF m1(4) over(2)] by simp
  then show ?thesis
    using eq over(1,3) m1(3,5,6) T by (intro exI [of _ "set_frame64 f t m1"] exI [of _ g]) (simp add: t_def)
qed

text \<open>Unmapping gives the frame back to the allocator, whatever it is used for.\<close>

lemma free_frames_clear:
  assumes "f = frame_addr n" "n \<le> frame_limit" "of_nat n \<le> num_frames p"
  shows "free_frames (clear_frame (physical_to_frame (ucast f)) p) = insert f (free_frames p)"
proof -
  have fr: "physical_to_frame (ucast f) = of_nat n"
    using physical_to_frame_inverse [OF assms(2)] ucast_frame_addr [OF assms(2)] assms(1) by simp
  have "unat (of_nat n :: u32) = n"
    using assms(2) by (intro unat_of_nat_u32) (simp add: frame_limit_def)
  then have "taken (clear_frame (physical_to_frame (ucast f)) p) = taken p - {n}"
    using assms(3) by (simp add: fr taken_clear_frame)
  then show ?thesis
    using assms(1,2) by (auto simp: free_frames_def)
qed

lemma pae_unmap_ok:
  assumes inv: "pae_inv G mx m" and v: "pae_outside G v" and w: "pae_walk m v = Some f" and f: "owned G m f"
    and n: "f = frame_addr n" "n \<le> frame_limit" "of_nat n \<le> num_frames (pae_mem m)"
  shows "\<exists>m'. pae_unmap v m = Inr m' \<and> pae_inv G mx m' \<and> free_frames (pae_mem m') = insert f (free_frames (pae_mem m)) \<and>
    pdpt m' = pdpt m \<and> (\<forall>h. untabled m G h \<longrightarrow> untabled m' G h \<and> tables64 m' h = tables64 m h) \<and>
    (\<forall>u h. pae_walk m u = Some h \<longrightarrow> pae_outside G u \<longrightarrow> page_of u \<noteq> page_of v \<longrightarrow> pae_walk m' u = Some h)"
proof -
  let ?p = "pdpt_index v" and ?i = "pae_pd_index v" and ?j = "pae_pt_index v"
  let ?t = "frame64 (pae_pd m ?p ?i)"
  have d: "present64 (pae_pd m ?p ?i)" "frame64 (tables64 m ?t ?j) = f"
    using w by (auto simp: pae_walk_def Let_def split: if_splits)
  have p: "?p \<in> G" "?p < 4" "?i < 511"
    using v pae_indices_less [of v] by (auto simp: pae_outside_def)
  have ok: "\<forall>q\<in>G. pae_ok m q" and ap: "tables_apart m G" and fr: "\<forall>f\<in>free_frames (pae_mem m). untabled m G f"
    and b: "bitmap_ok (pae_mem m)"
    using inv by (auto simp: pae_inv_def)
  have t: "table_at m G ?p ?i"
    using p d by (simp add: table_at_def)
  define q where "q = clear_frame (physical_to_frame (ucast f)) (pae_mem m)"
  define m1 where "m1 = m\<lparr>pae_mem := q\<rparr>"
  have q: "free_frames q = insert f (free_frames (pae_mem m))" "bitmap_ok q"
    using free_frames_clear [OF n] b by (simp_all add: q_def bitmap_ok_def)
  have inv1: "pae_inv G mx m1"
    unfolding m1_def using inv q fr f by (intro pae_inv_pae_mem) (auto simp: owned_def)
  have pd1: "pae_pd m1 = pae_pd m" "table_at m1 = table_at m"
    by (intro ext; simp add: m1_def pae_pd_def table_at_def)+
  have win: "pae_walk m (table_addr ?p ?i) = Some ?t"
    using pae_walk_window [of m ?p ?i] ok p d(1) by simp
  define m' where "m' = set_entry64 ?t ?j 0 m1"
  have fe: "tables64 m ?t ?j AND NOT 0xFFF = f"
    using d(2) by (simp only: frame64_def)
  have eq: "pae_unmap v m = Inr m'"
    using win fe by (simp add: pae_unmap_def read_table64_def write_table64_def m'_def m1_def q_def Let_def)
  note upd = set_table_entry [of m1 G ?p ?i, where j = ?j and e = 0, unfolded pd1, folded m'_def]
  have ap1: "tables_apart m1 G"
    using inv1 by (simp add: pae_inv_def)
  have pd: "q \<in> G \<Longrightarrow> pae_pd m' q k = pae_pd m q k" "table_at m G q k \<Longrightarrow> pae_pd m' q k = pae_pd m q k" for q k
    using upd(1) [OF ap1 t] by (simp_all add: table_at_def)
  have at: "table_at m' G q k \<longleftrightarrow> table_at m G q k" for q k
    by (auto simp: table_at_def pd)
  have un: "untabled m' G h \<longleftrightarrow> untabled m G h" for h
    using upd(2) [OF ap1 t] by (auto simp: untabled_def at pd m1_def)
  have "pae_inv G mx m'"
    using inv1 ok ap upd(2-4) [OF ap1 t] by (simp add: pae_inv_def pae_ok_def tables_apart_def at pd un m1_def cong: conj_cong)
  moreover have "tables64 m' h = tables64 m h" if "untabled m G h" for h
    using that t by (auto simp: untabled_def m'_def m1_def set_entry64_def)
  moreover have "pae_walk m' u = pae_walk m u" if "pae_outside G u" "page_of u \<noteq> page_of v" for u
    using upd(5) [OF ap1 t that(1)] that(2) by (simp add: m1_def page_indices64_eq)
  ultimately show ?thesis
    using eq q(1) un upd(2,3) [OF ap1 t] by (intro exI [of _ m']) (simp add: m1_def)
qed

section \<open>The directories of the process\<close>

text \<open>A directory that maps only itself becomes the first gigabyte.\<close>

lemma enter_low:
  fixes x y :: u64
  assumes inv: "pae_inv {3} mx m" and lo: "owned {3} m lo" "tables64 m lo 511 = lo OR 1" "\<forall>i<511. tables64 m lo i = 0"
  defines "m' \<equiv> m\<lparr>pdpt := (pdpt m)(0 := lo OR 1, 1 := x, 2 := y)\<rparr>"
  shows "pae_inv {0, 3} mx m'" "pae_outside {3} u \<Longrightarrow> pae_walk m' u = pae_walk m u"
    "untabled m {3} h \<Longrightarrow> h \<noteq> lo \<Longrightarrow> untabled m' {0, 3} h" "pae_pd m' 0 i = tables64 m lo i"
proof -
  have un: "untabled m {3} lo" "lo \<notin> free_frames (pae_mem m)"
    using lo(1) by (simp_all add: owned_def)
  have e: "frame64 (lo OR 1) = lo" "present64 (lo OR 1)"
    using frame64_mapped [of lo 1] un(1) by (simp_all add: untabled_def)
  have dir: "pdpt m' 3 = pdpt m 3" "pdpt m' 0 = lo OR 1" "tables64 m' = tables64 m"
    by (simp_all add: m'_def)
  have pd3: "pae_pd m' 3 k = pae_pd m 3 k" for k
    by (simp add: pae_pd_def dir)
  show pd0: "pae_pd m' 0 i = tables64 m lo i" for i
    by (simp add: pae_pd_def dir e)
  have at: "table_at m' {0, 3} q k \<longleftrightarrow> table_at m {3} q k" for q k
    using lo(3) by (auto simp: table_at_def pd0 pd3 present64_def)
  have at3: "table_at m {3} q k \<Longrightarrow> q = 3" for q k
    by (simp add: table_at_def)
  have pd_at: "table_at m {3} q k \<Longrightarrow> pae_pd m' q k = pae_pd m q k" for q k
    using at3 [of q k] pd3 by metis
  have un': "untabled m' {0, 3} h \<longleftrightarrow> untabled m {3} h \<and> h \<noteq> lo" for h
    unfolding untabled_def at by (auto simp: dir e pd_at)
  show "untabled m' {0, 3} h" if "untabled m {3} h" "h \<noteq> lo" for h
    using that un' by blast
  have ok3: "pae_ok m 3" and ap: "tables_apart m {3}"
    and rest: "unat (max_bit_extension m) = mx" "25 \<le> mx" "bitmap_ok (pae_mem m)" "\<forall>f\<in>free_frames (pae_mem m). untabled m {3} f"
    using inv by (auto simp: pae_inv_def)
  have "pae_ok m' 3" "pae_ok m' 0"
    using ok3 lo e by (simp_all add: pae_ok_def pd3 pd0 dir present64_def)
  moreover have "tables_apart m' {0, 3}"
  proof -
    have "frame64 (pdpt m 3) \<noteq> lo"
      using un(1) by (auto simp: untabled_def)
    moreover have "table_at m {3} q k \<Longrightarrow> frame64 (pae_pd m q k) \<noteq> lo" for q k
      using un(1) by (auto simp: untabled_def)
    ultimately show ?thesis
      using ap at3 unfolding tables_apart_def at by (simp add: dir e pd_at cong: conj_cong)
  qed
  ultimately show "pae_inv {0, 3} mx m'"
    using rest un(2) un' by (auto simp: pae_inv_def m'_def)
  show "pae_walk m' u = pae_walk m u" if "pae_outside {3} u"
    using that by (simp add: pae_walk_def pae_outside_def pd3 dir Let_def)
qed

text \<open>The node store under its second address.\<close>

lemma lone_region_fields:
  "lone_region (v\<lparr>pd_low := a, pd_mid := b, pd_high := c\<rparr>) st bas siz k limit = lone_region v st bas siz k limit"
  by (simp add: lone_region_def slot_def)

lemma lone_same_page:
  assumes lone: "lone_region v st bas siz k limit" and lim: "k \<le> limit" "limit \<le> 125"
    and v: "vm_obj_store_addr v = p + 48" "root v = p + 96" and q: "q \<noteq> 0" "unat q + 4096 \<le> 2 ^ 32"
  shows "lone_region (v\<lparr>vm_obj_store_addr := q + 48, root := q + 96\<rparr>) (same_page p q st) bas siz k limit"
proof -
  let ?v = "v\<lparr>vm_obj_store_addr := q + 48, root := q + 96\<rparr>" and ?st = "same_page p q st"
  have slots: "slot ?v j = q + of_nat (96 + 32 * j)" "slot v j = p + of_nat (96 + 32 * j)" for j
    by (simp_all add: slot_def v)
  have d: "unat (of_nat (96 + 32 * j) :: u32) = 96 + 32 * j" if "j < 125" for j
    using that by (intro unat_of_nat_u32) simp
  have st: "?st (slot ?v j) = st (slot v j)" if "j < 125" for j
    using d [OF that] that q(1) unfolding slots by (simp only: same_page_def in_page_def add_diff_cancel_left') simp
  have nz: "slot ?v j \<noteq> 0" if "j < 125" for j
  proof
    assume "slot ?v j = 0"
    moreover have "unat (q + of_nat (96 + 32 * j)) = unat q + (96 + 32 * j)"
      using q(2) that d [OF that] by (simp only: unat_plus_if') simp
    ultimately show False
      unfolding slots by simp
  qed
  have "root ?v = slot ?v 0" "root v = slot v 0"
    by (simp_all add: slots v)
  then have r: "?st (root ?v) = st (root v)" "root ?v \<noteq> 0"
    using st [of 0] nz [of 0] by simp_all
  have "\<forall>j<k. rb_flags (?st (slot ?v j)) AND 1 \<noteq> 0"
    using lone st lim by (simp add: lone_region_def)
  moreover have "\<forall>j. k \<le> j \<and> j < limit \<longrightarrow> free_slot ?st (slot ?v j)"
    using lone st nz lim by (auto simp: lone_region_def free_slot_def)
  ultimately show ?thesis
    using lone r by (simp add: lone_region_def)
qed

section \<open>The steps\<close>

lemma Suc_card_diff: "finite A \<Longrightarrow> A - {g} \<subseteq> B \<Longrightarrow> finite B \<Longrightarrow> card A \<le> Suc (card B)"
  using card_mono [of B "A - {g}"] card_Diff_singleton_if [of A g] by (simp split: if_splits)

lemma bind_out_found [simp]: "bind_out (Some (Inr x)) f = f x"
  by (simp add: bind_out_def)

text \<open>The four frames, the least free ones in order.\<close>

definition four_taken :: "nat set \<Rightarrow> nat \<Rightarrow> nat \<Rightarrow> pae vm \<Rightarrow> u64 \<Rightarrow> u64 \<Rightarrow> u64 \<Rightarrow> u64 \<Rightarrow> pmm \<Rightarrow> pmm \<Rightarrow> pmm \<Rightarrow> pmm \<Rightarrow> bool" where
  "four_taken G mx B s lo med hi sto p1 p2 p3 p \<longleftrightarrow>
    take_frame s = Some (Inr (lo, s\<lparr>mach := (mach s)\<lparr>pae_mem := p1\<rparr>\<rparr>)) \<and>
    take_frame (s\<lparr>mach := (mach s)\<lparr>pae_mem := p1\<rparr>\<rparr>) = Some (Inr (med, s\<lparr>mach := (mach s)\<lparr>pae_mem := p2\<rparr>\<rparr>)) \<and>
    take_frame (s\<lparr>mach := (mach s)\<lparr>pae_mem := p2\<rparr>\<rparr>) = Some (Inr (hi, s\<lparr>mach := (mach s)\<lparr>pae_mem := p3\<rparr>\<rparr>)) \<and>
    take_frame (s\<lparr>mach := (mach s)\<lparr>pae_mem := p3\<rparr>\<rparr>) = Some (Inr (sto, s\<lparr>mach := (mach s)\<lparr>pae_mem := p\<rparr>\<rparr>)) \<and>
    pae_inv G mx ((mach s)\<lparr>pae_mem := p\<rparr>) \<and> distinct [lo, med, hi, sto] \<and> {lo, med, hi, sto} \<subseteq> free_frames (pae_mem (mach s)) \<and>
    free_frames p = free_frames (pae_mem (mach s)) - {lo, med, hi, sto} \<and> num_frames p = num_frames (pae_mem (mach s)) \<and>
    unat hi \<le> B \<and> (\<forall>h\<in>free_frames p. unat hi \<le> unat h)"

lemma take_four:
  assumes inv: "pae_inv G mx (mach s)" and room: "4 < card (free_frames (pae_mem (mach s)))"
    and reach: "3 \<le> card {f \<in> free_frames (pae_mem (mach s)). unat f \<le> B}"
  shows "\<exists>lo med hi sto p1 p2 p3 p. four_taken G mx B s lo med hi sto p1 p2 p3 p"
proof -
  let ?F = "free_frames (pae_mem (mach s))"
  have ne: "?F \<noteq> {}"
    using room by auto
  obtain lo p1 where 1: "take_frame s = Some (Inr (lo, s\<lparr>mach := (mach s)\<lparr>pae_mem := p1\<rparr>\<rparr>))" "lo \<in> ?F" "free_frames p1 = ?F - {lo}"
      "num_frames p1 = num_frames (pae_mem (mach s))" "pae_inv G mx ((mach s)\<lparr>pae_mem := p1\<rparr>)"
    using take_frame_ok [OF inv ne] by blast
  let ?s1 = "s\<lparr>mach := (mach s)\<lparr>pae_mem := p1\<rparr>\<rparr>"
  have c1: "card (free_frames p1) = card ?F - 1"
    using 1(2,3) by simp
  have n1: "free_frames p1 \<noteq> {}"
    using c1 room by auto
  obtain med p2 where 2: "take_frame ?s1 = Some (Inr (med, s\<lparr>mach := (mach s)\<lparr>pae_mem := p2\<rparr>\<rparr>))" "med \<in> free_frames p1"
      "free_frames p2 = free_frames p1 - {med}" "num_frames p2 = num_frames p1" "pae_inv G mx ((mach s)\<lparr>pae_mem := p2\<rparr>)"
    using take_frame_ok [of G mx ?s1] 1(5) n1 by auto
  let ?s2 = "s\<lparr>mach := (mach s)\<lparr>pae_mem := p2\<rparr>\<rparr>"
  have c2: "card (free_frames p2) = card ?F - 2"
    using 2(2,3) c1 by simp
  have n2: "free_frames p2 \<noteq> {}"
    using c2 room by auto
  obtain hi p3 where 3: "take_frame ?s2 = Some (Inr (hi, s\<lparr>mach := (mach s)\<lparr>pae_mem := p3\<rparr>\<rparr>))" "hi \<in> free_frames p2"
      "free_frames p3 = free_frames p2 - {hi}" "num_frames p3 = num_frames p2" "pae_inv G mx ((mach s)\<lparr>pae_mem := p3\<rparr>)"
      "\<forall>h\<in>free_frames p2. unat hi \<le> unat h"
    using take_frame_ok [of G mx ?s2] 2(5) n2 by auto
  let ?s3 = "s\<lparr>mach := (mach s)\<lparr>pae_mem := p3\<rparr>\<rparr>"
  have c3: "card (free_frames p3) = card ?F - 3"
    using 3(2,3) c2 by simp
  have n3: "free_frames p3 \<noteq> {}"
    using c3 room by auto
  obtain sto p4 where 4: "take_frame ?s3 = Some (Inr (sto, s\<lparr>mach := (mach s)\<lparr>pae_mem := p4\<rparr>\<rparr>))" "sto \<in> free_frames p3"
      "free_frames p4 = free_frames p3 - {sto}" "num_frames p4 = num_frames p3" "pae_inv G mx ((mach s)\<lparr>pae_mem := p4\<rparr>)"
    using take_frame_ok [of G mx ?s3] 3(5) n3 by auto
  have "unat hi \<le> B"
  proof -
    let ?R = "{f \<in> ?F. unat f \<le> B}"
    have "card {lo, med} < card ?R"
      using reach card_insert_le_m1 [of 2 "{med}" lo] by (simp add: card_insert_if split: if_splits)
    then have "\<not> ?R \<subseteq> {lo, med}"
      using card_mono [of "{lo, med}" ?R] by auto
    then obtain r where r: "r \<in> ?F" "unat r \<le> B" "r \<noteq> lo" "r \<noteq> med"
      by auto
    then have "r \<in> free_frames p2"
      using 1(3) 2(3) by simp
    then have "unat hi \<le> unat r"
      using 3(6) by blast
    then show ?thesis
      using r(2) by simp
  qed
  moreover have "distinct [lo, med, hi, sto]" "{lo, med, hi, sto} \<subseteq> ?F" "free_frames p4 = ?F - {lo, med, hi, sto}"
    "\<forall>h\<in>free_frames p4. unat hi \<le> unat h"
    using 1(2,3) 2(2,3) 3(2,3,6) 4(2,3) by auto
  moreover have "num_frames p4 = num_frames (pae_mem (mach s))"
    using 1(4) 2(4) 3(4) 4(4) by simp
  ultimately have "four_taken G mx B s lo med hi sto p1 p2 p3 p4"
    using 1(1) 2(1) 3(1) 4(1,5) unfolding four_taken_def by (intro conjI)
  then show ?thesis
    by blast
qed

lemma TEMP_outside: "3 \<in> G \<Longrightarrow> pae_outside G TEMP_PAGE_VIRT"
  by (simp add: pae_outside_def TEMP_PAGE_VIRT_def pae_indices_nat)

text \<open>
  The three directories: the first is left zeroed but for itself, all three stay frames in use for the
  tables, but the allocator has the third one back.
\<close>

lemma enter_directories_ok:
  assumes inv: "pae_inv {3} mx (mach s)" and room: "4 \<le> card (free_frames (pae_mem (mach s)))"
    and own: "owned {3} (mach s) lo" "owned {3} (mach s) med" "owned {3} (mach s) hi" "distinct [lo, med, hi]"
    and able: "pae_mappable mx lo 3" "pae_mappable mx med 3" "pae_mappable mx hi 3"
    and n: "hi = frame_addr n" "n \<le> frame_limit" "of_nat n \<le> num_frames (pae_mem (mach s))"
  shows "\<exists>m' F. enter_directories kalloc lo med hi s = Some (Inr (s\<lparr>mach := m'\<rparr>)) \<and> pae_inv {3} mx m' \<and>
    owned {3} m' lo \<and> tables64 m' lo 511 = lo OR 1 \<and> (\<forall>i<511. tables64 m' lo i = 0) \<and> untabled m' {3} hi \<and>
    free_frames (pae_mem m') = insert hi F \<and> F \<subseteq> free_frames (pae_mem (mach s)) \<and> card (free_frames (pae_mem (mach s))) \<le> card F + 3 \<and>
    (\<forall>u h. pae_walk (mach s) u = Some h \<longrightarrow> pae_outside {3} u \<longrightarrow> page_of u \<noteq> page_of TEMP_PAGE_VIRT \<longrightarrow> pae_walk m' u = Some h)"
proof -
  let ?free = "\<lambda>m. free_frames (pae_mem m)"
  have T: "pae_outside {3} TEMP_PAGE_VIRT"
    by (rule TEMP_outside) simp
  have n0: "?free (mach s) \<noteq> {}"
    using room by auto
  obtain m1 g1 where m1: "enter_directory kalloc True lo (mach s) = Inr m1" "pae_inv {3} mx m1" "tables64 m1 lo 511 = lo OR 1"
      "\<forall>i<511. tables64 m1 lo i = 0" "pae_keeps {3} {lo} (mach s) m1" "?free (mach s) - {g1} \<subseteq> ?free m1"
      "\<forall>u h. pae_walk (mach s) u = Some h \<longrightarrow> pae_outside {3} u \<longrightarrow> page_of u \<noteq> page_of TEMP_PAGE_VIRT \<longrightarrow> pae_walk m1 u = Some h"
    using enter_directory_ok [OF inv T n0 own(1) able(1), of kalloc True] by blast
  have c1: "card (?free (mach s)) \<le> Suc (card (?free m1))"
    by (rule Suc_card_diff [OF finite_free_frames m1(6) finite_free_frames])
  then have n1: "?free m1 \<noteq> {}"
    using room by auto
  obtain m2 g2 where m2: "enter_directory kalloc True med m1 = Inr m2" "pae_inv {3} mx m2"
      "pae_keeps {3} {med} m1 m2" "?free m1 - {g2} \<subseteq> ?free m2"
      "\<forall>u h. pae_walk m1 u = Some h \<longrightarrow> pae_outside {3} u \<longrightarrow> page_of u \<noteq> page_of TEMP_PAGE_VIRT \<longrightarrow> pae_walk m2 u = Some h"
    using enter_directory_ok [OF m1(2) T n1 keeps_owned(1) [OF m1(5) own(2)] able(2), of kalloc True] by blast
  have c2: "card (?free m1) \<le> Suc (card (?free m2))"
    by (rule Suc_card_diff [OF finite_free_frames m2(4) finite_free_frames])
  then have n2: "?free m2 \<noteq> {}"
    using room c1 by auto
  have k2: "pae_keeps {3} {lo, med} (mach s) m2"
    using keeps_trans [OF m1(5) m2(3)] by (simp add: insert_commute)
  obtain m3 g3 where m3: "enter_directory kalloc False hi m2 = Inr m3" "pae_inv {3} mx m3" "pae_walk m3 TEMP_PAGE_VIRT = Some hi"
      "pae_keeps {3} {hi} m2 m3" "?free m2 - {g3} \<subseteq> ?free m3"
      "\<forall>u h. pae_walk m2 u = Some h \<longrightarrow> pae_outside {3} u \<longrightarrow> page_of u \<noteq> page_of TEMP_PAGE_VIRT \<longrightarrow> pae_walk m3 u = Some h"
    using enter_directory_ok [OF m2(2) T n2 keeps_owned(1) [OF k2 own(3)] able(3), of kalloc False] by blast
  have c3: "card (?free m2) \<le> Suc (card (?free m3))"
    by (rule Suc_card_diff [OF finite_free_frames m3(5) finite_free_frames])
  have k3: "pae_keeps {3} {lo, med, hi} (mach s) m3"
    using keeps_trans [OF k2 m3(4)] by (simp add: insert_commute)
  have hi3: "owned {3} m3 hi" "owned {3} m3 lo"
    using keeps_owned(1) [OF k3] own by blast+
  have num: "of_nat n \<le> num_frames (pae_mem m3)"
    using k3 n(3) by (simp add: pae_keeps_def)
  obtain m' where m': "pae_unmap TEMP_PAGE_VIRT m3 = Inr m'" "pae_inv {3} mx m'" "?free m' = insert hi (?free m3)"
      "\<forall>h. untabled m3 {3} h \<longrightarrow> untabled m' {3} h \<and> tables64 m' h = tables64 m3 h"
      "\<forall>u h. pae_walk m3 u = Some h \<longrightarrow> pae_outside {3} u \<longrightarrow> page_of u \<noteq> page_of TEMP_PAGE_VIRT \<longrightarrow> pae_walk m' u = Some h"
    using pae_unmap_ok [OF m3(2) T m3(3) hi3(1) n(1,2) num] by blast
  have run: "enter_directories kalloc lo med hi s = Some (Inr (s\<lparr>mach := m'\<rparr>))"
    using m1(1) m2(1) m3(1) m'(1) by (simp add: enter_directories_def on_mach_def)
  have lo': "tables64 m' lo = tables64 m1 lo"
  proof -
    have "tables64 m2 lo = tables64 m1 lo" "tables64 m3 lo = tables64 m2 lo"
      using keeps_owned(2) [OF m2(3) keeps_owned(1) [OF m1(5) own(1)]] keeps_owned(2) [OF m3(4) keeps_owned(1) [OF k2 own(1)]]
        own(4) by simp_all
    then show ?thesis
      using m'(4) hi3(2) by (simp add: owned_def)
  qed
  have sub: "?free m3 \<subseteq> ?free (mach s)"
    using k3 by (simp add: pae_keeps_def)
  have "owned {3} m' lo"
    using hi3(2) m'(3,4) own(4) by (simp add: owned_def)
  moreover have "untabled m' {3} hi"
    using hi3(1) m'(4) by (simp add: owned_def)
  moreover have "\<forall>u h. pae_walk (mach s) u = Some h \<longrightarrow> pae_outside {3} u \<longrightarrow> page_of u \<noteq> page_of TEMP_PAGE_VIRT \<longrightarrow> pae_walk m' u = Some h"
    using m1(7) m2(5) m3(6) m'(5) by blast
  ultimately show ?thesis
    using run m'(2,3) lo' m1(3,4) sub c1 c2 c3 by (intro exI [of _ m'] exI [of _ "?free m3"]) simp
qed

text \<open>A space whose directories are entered can be left and made current again.\<close>

lemma current_again:
  assumes "vmm.root_pdpt (space s v) \<noteq> 0" "pd_low (space s v) \<noteq> 0" "pdpt (mach s) 0 = pd_low (space s v) OR 1"
    "pdpt (mach s) 1 = pd_mid (space s v) OR 1" "pdpt (mach s) 2 = pd_high (space s v) OR 1"
  shows "mach (set_current_vmm v (if other \<noteq> 0 then set_current_vmm other s else s)) = mach s"
proof -
  have "(pdpt (mach s))(0 := a, 1 := b, 2 := c, 0 := pdpt (mach s) 0, 1 := pdpt (mach s) 1, 2 := pdpt (mach s) 2) = pdpt (mach s)" for a b c
    by (rule ext) simp
  moreover have "(pdpt (mach s))(0 := pdpt (mach s) 0, 1 := pdpt (mach s) 1, 2 := pdpt (mach s) 2) = pdpt (mach s)"
    by (rule ext) simp
  ultimately show ?thesis
    using assms by (simp add: set_current_vmm_def Let_def)
qed

text \<open>
  The space is made current. Its store page takes the frame that the allocator has back as its page
  table; then the stack is mapped.
\<close>

lemma enter_space_ok:
  assumes inv: "pae_inv {3} mx (mach s)" and room: "2 \<le> card (free_frames (pae_mem (mach s)))"
    and lo: "owned {3} (mach s) lo" "tables64 (mach s) lo 511 = lo OR 1" "\<forall>i<511. tables64 (mach s) lo i = 0" "lo \<noteq> 0"
    and hi: "hi \<in> free_frames (pae_mem (mach s))" "\<forall>h\<in>free_frames (pae_mem (mach s)). unat hi \<le> unat h"
    and v: "vmm.root_pdpt (space s nv) \<noteq> 0" "pd_low (space s nv) = lo" "vm_obj_store_addr (space s nv) = nv + 48"
      "root (space s nv) = nv + 96"
    and lone: "lone_region (space s nv) (region_nodes s) 0x10000 0xC0000000 1 125"
    and sto: "pae_mappable mx sto 3" "sto \<noteq> 0" "unat sto < 2 ^ 32"
  shows "\<exists>s' f. enter_space kalloc nv sto s = Some (Inr (0x11FDF, s')) \<and> vm.current_vmm s' = nv \<and> pae_inv {0, 3} mx (mach s') \<and>
    pae_walk (mach s') 0x10000 = Some sto \<and> pae_walk (mach s') 0x11000 = Some f \<and> f \<in> free_frames (pae_mem (mach s)) \<and> f \<noteq> hi \<and>
    lone_region (space s' nv) (region_nodes s') 0x12000 0xBFFFE000 3 125 \<and>
    frame64 (pae_pd (mach s') 0 0) = hi \<and> pdpt (mach s') 2 = pd_high (space s nv) OR 1 \<and>
    (\<forall>u h. pae_outside {3} u \<longrightarrow> pae_walk (mach s) u = Some h \<longrightarrow> pae_walk (mach s') u = Some h) \<and>
    (\<forall>other. mach (set_current_vmm nv (if other \<noteq> 0 then set_current_vmm other s' else s')) = mach s')"
proof -
  let ?w = "space s nv"
  have ix: "pdpt_index 0x10000 = 0" "pae_pd_index 0x10000 = 0" "pdpt_index 0x11000 = 0" "pae_pd_index 0x11000 = 0"
      "page_of 0x10000 = 16" "page_of 0x11000 = 17"
    by (simp_all add: pae_indices_nat page_of_def)
  have out: "pae_outside {0, 3} 0x10000" "pae_outside {0, 3} 0x11000"
    by (simp_all add: pae_outside_def ix)
  have kernel: "pae_outside {0, 3} u" "page_of u \<noteq> 16" "page_of u \<noteq> 17" if "pae_outside {3} u" for u
    using that page_indices64 [of u] by (auto simp: pae_outside_def)
  define m1 where "m1 = (mach s)\<lparr>pdpt := (pdpt (mach s))(0 := lo OR 1, 1 := pd_mid ?w OR 1, 2 := pd_high ?w OR 1)\<rparr>"
  define s1 where "s1 = s\<lparr>vm.current_vmm := nv, mach := m1\<rparr>"
  note low = enter_low [OF inv lo(1-3), where x = "pd_mid ?w OR 1" and y = "pd_high ?w OR 1", folded m1_def]
  have cur: "set_current_vmm nv s = s1"
    using v(1,2) lo(4) by (simp add: set_current_vmm_def s1_def m1_def Let_def)
  have f1: "free_frames (pae_mem m1) = free_frames (pae_mem (mach s))" "pdpt m1 2 = pd_high ?w OR 1"
    by (simp_all add: m1_def)
  have d: "\<not> present64 (pae_pd m1 (pdpt_index 0x10000) (pae_pd_index 0x10000))"
    using low(4) lo(3) by (simp add: ix present64_def)
  have ne: "free_frames (pae_mem m1) \<noteq> {}"
    using hi(1) f1(1) by auto
  obtain m2 g where m2: "pae_mmap kalloc sto 0x10000 3 m1 = Inr m2" "pae_inv {0, 3} mx m2" "pae_walk m2 0x10000 = Some sto"
      "\<forall>u h. pae_walk m1 u = Some h \<longrightarrow> pae_outside {0, 3} u \<longrightarrow> page_of u \<noteq> page_of 0x10000 \<longrightarrow> pae_walk m2 u = Some h"
      "free_frames (pae_mem m2) = free_frames (pae_mem m1) - {g}" "g \<in> free_frames (pae_mem m1)"
      "\<forall>h\<in>free_frames (pae_mem m1). unat g \<le> unat h" "pae_keeps {0, 3} {} m1 m2" "frame64 (pae_pd m2 0 0) = g"
    using pae_map_missing [OF low(1) out(1) sto(1) ne d, of kalloc] unfolding ix by blast
  have g: "g = hi"
  proof -
    have "unat g \<le> unat hi" "unat hi \<le> unat g"
      using m2(6,7) hi f1(1) by auto
    then show ?thesis by (simp add: word_unat_eq_iff)
  qed
  have sto': "ucast (ucast sto :: u32) = sto" "sto AND 0xFFF = 0"
    using ucast_small [OF sto(3)] sto(1) by (simp_all add: pae_mappable_def)
  have lone1: "lone_region (space s1 nv) (region_nodes s1) 0x10000 0xC0000000 1 125" "(1 :: nat) < 125" "(0x1000 :: u32) < 0xC0000000"
    using lone by (simp_all add: s1_def)
  have "pae_mmap kalloc sto 0x10000 3 (mach s1) = Inr m2"
    using m2(1) by (simp add: s1_def)
  then obtain st where st: "vmm_page_alloc alloc_frame3 (pae_mmap kalloc) nv 0x1000 3 sto s1 = Some (Inr (0x10000, s1\<lparr>region_nodes := st, mach := m2\<rparr>))"
      "lone_region ?w st 0x11000 0xBFFFF000 2 125"
    using alloc_page_given [OF lone1 sto(2) sto'(2), of "pae_mmap kalloc" 3 m2 alloc_frame3] by (auto simp: s1_def numeral_2_eq_2)
  then have first: "pae_alloc kalloc 4096 3 (ucast (ucast sto :: u32)) s1 = Some (Inr (0x10000, s1\<lparr>region_nodes := st, mach := m2\<rparr>))"
    using sto'(1) by (simp add: pae_alloc_def s1_def)
  define w' where "w' = ?w\<lparr>vm_obj_store_addr := 0x10000 + 48, root := 0x10000 + 96\<rparr>"
  define s2 where "s2 = s1\<lparr>region_nodes := st, mach := m2, space := (space s1)(nv := w'), region_nodes := same_page nv 0x10000 st\<rparr>"
  have lone2: "lone_region (space s2 nv) (region_nodes s2) 0x11000 0xBFFFF000 2 125" "(2 :: nat) < 125" "(0x1000 :: u32) < 0xBFFFF000"
    using lone_same_page [OF st(2) _ _ v(3,4), of "0x10000"] by (simp_all add: s2_def w'_def)
  have n2: "free_frames (pae_mem m2) \<noteq> {}"
  proof -
    have "card (free_frames (pae_mem m2)) \<noteq> 0"
      using room m2(5,6) f1(1) by simp
    then show ?thesis by auto
  qed
  obtain f m3 where f: "alloc_frame3 m2 = Inr (f, m3)" "pae_inv {0, 3} mx m3" "f \<in> free_frames (pae_mem m2)"
      "free_frames (pae_mem m3) = free_frames (pae_mem m2) - {f}" "pae_walk m3 = pae_walk m2"
    using three_level.al_law [OF m2(2) n2] by blast
  have pd3: "pae_pd m3 = pae_pd m2" "pdpt m3 = pdpt m2"
    using f(1) by (cases "alloc_phys_page (pae_mem m2)"; auto simp: alloc_frame3_def pae_pd_def fun_eq_iff)+
  have able: "pae_mappable mx f 3"
    using free_pae_mappable [OF f(3), of 3 mx] inv by (simp add: pae_inv_def)
  have d3: "present64 (pae_pd m3 (pdpt_index 0x11000) (pae_pd_index 0x11000))"
    using m2(3) by (auto simp: pd3 ix pae_walk_def Let_def split: if_splits)
  obtain m4 where m4: "pae_mmap kalloc f 0x11000 3 m3 = Inr m4" "pae_inv {0, 3} mx m4" "pae_walk m4 0x11000 = Some f"
      "\<And>u. pae_outside {0, 3} u \<Longrightarrow> page_of u \<noteq> page_of 0x11000 \<Longrightarrow> pae_walk m4 u = pae_walk m3 u"
      "pae_keeps {0, 3} {} m3 m4" "pae_pd m4 0 0 = pae_pd m3 0 0"
    using pae_map_present [OF f(2) out(2) able d3, of kalloc] unfolding ix by blast
  let ?s2 = "s2\<lparr>vm.current_vmm := nv\<rparr>"
  have al: "alloc_frame3 (mach ?s2) = Inr (f, m3)"
    using f(1) by (simp add: s2_def)
  have lone3: "lone_region (space ?s2 nv) (region_nodes ?s2) 0x11000 0xBFFFF000 2 125"
    using lone2(1) by simp
  obtain st' where st': "vmm_page_alloc alloc_frame3 (pae_mmap kalloc) nv 0x1000 3 0 ?s2 = Some (Inr (0x11000, ?s2\<lparr>region_nodes := st', mach := m4\<rparr>))"
      "lone_region w' st' 0x12000 0xBFFFE000 3 125"
    using alloc_page_fresh [of ?s2 nv "0x11000" "0xBFFFF000" 2 125 alloc_frame3 f m3 "pae_mmap kalloc" 3 m4, OF lone3 lone2(2,3) al m4(1)] by (auto simp: s2_def numeral_3_eq_3 numeral_2_eq_2)
  then have second: "alloc_stack kalloc nv s2 = Some (Inr (0x11FFF, ?s2\<lparr>region_nodes := st', mach := m4\<rparr>))"
    by (simp add: alloc_stack_def pae_alloc_def)
  have run: "enter_space kalloc nv sto s = Some (Inr (0x11FDF, ?s2\<lparr>region_nodes := st', mach := m4\<rparr>))"
    using first second v(3,4) by (simp add: enter_space_def cur s2_def w'_def sizeof_vmm_def s1_def)
  have "pae_walk m4 u = Some h" if u: "pae_outside {3} u" "pae_walk (mach s) u = Some h" for u h
    using low(2) [OF u(1)] u(2) m2(4) m4(4) [OF kernel(1) [OF u(1)]] kernel [OF u(1)] f(5) by (simp add: ix)
  moreover have "pae_walk m4 0x10000 = Some sto"
    using m4(4) [OF out(1)] m2(3) f(5) by (simp add: ix)
  moreover have dirs: "pdpt m4 2 = pd_high ?w OR 1" "pdpt m4 1 = pd_mid ?w OR 1" "pdpt m4 0 = pd_low ?w OR 1"
    using keeps_pdpt [OF m4(5)] keeps_pdpt [OF m2(8)] pd3(2) v(2) by (simp_all add: m1_def)
  moreover have "\<forall>other. mach (set_current_vmm nv (if other \<noteq> 0 then set_current_vmm other (?s2\<lparr>region_nodes := st', mach := m4\<rparr>)
      else ?s2\<lparr>region_nodes := st', mach := m4\<rparr>)) = m4"
    using current_again [of "?s2\<lparr>region_nodes := st', mach := m4\<rparr>" nv] v(1,2) lo(4) dirs by (simp add: s2_def w'_def)
  moreover have "f \<in> free_frames (pae_mem (mach s))" "f \<noteq> hi"
    using f(3) m2(5) f1(1) g by auto
  moreover have "lone_region (space (?s2\<lparr>region_nodes := st', mach := m4\<rparr>) nv) st' 0x12000 0xBFFFE000 3 125"
    using st'(2) by (simp add: s2_def)
  ultimately show ?thesis
    using run m4(2,3,6) m2(9) g pd3(1)
    by (intro exI [of _ "?s2\<lparr>region_nodes := st', mach := m4\<rparr>"] exI [of _ f]) (simp add: s2_def s1_def)
qed

section \<open>A new process\<close>

text \<open>
  The situation the code is written for: the kernel's space has one free region in the last gigabyte,
  away from \<open>TEMP_PAGE_VIRT\<close>; nine frames are free, three of them within the reach of \<open>clear_frame\<close>.
\<close>

definition space_ready :: "nat \<Rightarrow> u32 \<Rightarrow> u32 \<Rightarrow> nat \<Rightarrow> nat \<Rightarrow> pae vm \<Rightarrow> bool" where
  "space_ready mx bas siz k limit s \<longleftrightarrow>
     pae_inv {3} mx (mach s) \<and> kernel_vmm s \<noteq> 0 \<and> vmm.root_pdpt (space s (kernel_vmm s)) \<noteq> 0 \<and>
     lone_region (space s (kernel_vmm s)) (region_nodes s) bas siz k limit \<and> k < limit \<and> 0x1000 < siz \<and>
     bas AND 0xFFF = 0 \<and> pae_outside {3} bas \<and> page_of bas \<noteq> page_of TEMP_PAGE_VIRT \<and>
     9 \<le> card (free_frames (pae_mem (mach s))) \<and>
     3 \<le> card {f \<in> free_frames (pae_mem (mach s)). unat f \<le> 0x100000 + 4096 * unat (num_frames (pae_mem (mach s)))}"

lemma new_space_ok:
  assumes ready: "space_ready mx bas siz k limit s"
  shows "\<exists>s' f g. create_new_pdptes kalloc s = Some (Inr ((bas, 0x11FDF), s')) \<and> vm.current_vmm s' = bas \<and>
    pae_inv {0, 3} mx (mach s') \<and> f \<noteq> g \<and> {f, g} \<subseteq> free_frames (pae_mem (mach s)) \<and>
    pae_walk (mach s') bas = Some f \<and> pae_walk (mach s') 0x10000 = Some f \<and> pae_walk (mach s') 0x11000 = Some g \<and>
    lone_region (space s' bas) (region_nodes s') 0x12000 0xBFFFE000 3 125 \<and>
    (\<forall>u h. pae_walk (mach s) u = Some h \<longrightarrow> pae_outside {3} u \<longrightarrow> page_of u \<noteq> page_of bas \<longrightarrow>
       page_of u \<noteq> page_of TEMP_PAGE_VIRT \<longrightarrow> pae_walk (mach s') u = Some h) \<and>
    (\<forall>other. mach (set_current_vmm bas (if other \<noteq> 0 then set_current_vmm other s' else s')) = mach s') \<and>
    frame64 (pdpt (mach s') 2) = frame64 (pae_pd (mach s') 0 0)"
proof -
  let ?free = "\<lambda>m. free_frames (pae_mem m)" and ?kv = "kernel_vmm s"
  let ?B = "0x100000 + 4096 * unat (num_frames (pae_mem (mach s)))"
  have inv: "pae_inv {3} mx (mach s)" and kv: "?kv \<noteq> 0" "vmm.root_pdpt (space s ?kv) \<noteq> 0"
    and lone: "lone_region (space s ?kv) (region_nodes s) bas siz k limit" "k < limit" "0x1000 < siz"
    and bas: "bas AND 0xFFF = 0" "pae_outside {3} bas" "page_of bas \<noteq> page_of TEMP_PAGE_VIRT"
    and room: "9 \<le> card (?free (mach s))" and reach: "3 \<le> card {f \<in> ?free (mach s). unat f \<le> ?B}"
    using ready unfolding space_ready_def by blast+
  have room4: "4 < card (?free (mach s))"
    using room by simp
  have mx: "25 \<le> mx" and un: "\<And>f. f \<in> ?free (mach s) \<Longrightarrow> untabled (mach s) {3} f"
    using inv by (auto simp: pae_inv_def)
  have able: "pae_mappable mx f 3" if "f \<in> ?free (mach s)" for f
    using that mx by (intro free_pae_mappable) simp_all
  obtain lo med hi sto p1 p2 p3 p where ft: "four_taken {3} mx ?B s lo med hi sto p1 p2 p3 p"
    using take_four [OF inv room4 reach] by blast
  have four: "take_frame s = Some (Inr (lo, s\<lparr>mach := (mach s)\<lparr>pae_mem := p1\<rparr>\<rparr>))"
      "take_frame (s\<lparr>mach := (mach s)\<lparr>pae_mem := p1\<rparr>\<rparr>) = Some (Inr (med, s\<lparr>mach := (mach s)\<lparr>pae_mem := p2\<rparr>\<rparr>))"
      "take_frame (s\<lparr>mach := (mach s)\<lparr>pae_mem := p2\<rparr>\<rparr>) = Some (Inr (hi, s\<lparr>mach := (mach s)\<lparr>pae_mem := p3\<rparr>\<rparr>))"
      "take_frame (s\<lparr>mach := (mach s)\<lparr>pae_mem := p3\<rparr>\<rparr>) = Some (Inr (sto, s\<lparr>mach := (mach s)\<lparr>pae_mem := p\<rparr>\<rparr>))"
    and inv4: "pae_inv {3} mx ((mach s)\<lparr>pae_mem := p\<rparr>)" and dist: "distinct [lo, med, hi, sto]"
    and old: "{lo, med, hi, sto} \<subseteq> ?free (mach s)" and fp: "free_frames p = ?free (mach s) - {lo, med, hi, sto}"
    and num: "num_frames p = num_frames (pae_mem (mach s))" and hi: "unat hi \<le> ?B" "\<forall>h\<in>free_frames p. unat hi \<le> unat h"
    using ft unfolding four_taken_def by - (elim conjE, assumption)+
  let ?m4 = "(mach s)\<lparr>pae_mem := p\<rparr>" and ?s4 = "s\<lparr>mach := (mach s)\<lparr>pae_mem := p\<rparr>\<rparr>"
  have own4: "owned {3} ?m4 lo" "owned {3} ?m4 med" "owned {3} ?m4 hi"
    using old un fp by (auto simp: owned_def)
  have "card {lo, med, hi, sto} = 4"
    using dist by simp
  then have c4: "card (free_frames p) = card (?free (mach s)) - 4"
    using card_Diff_subset [OF _ old] fp by simp
  have n4: "free_frames p \<noteq> {}"
    using c4 room by auto
  text \<open>The store page in the kernel.\<close>
  obtain m5 g5 where m5: "pae_mmap kalloc sto bas 3 ?m4 = Inr m5" "pae_inv {3} mx m5" "pae_walk m5 bas = Some sto" "pae_keeps {3} {} ?m4 m5"
      "\<forall>u h. pae_walk ?m4 u = Some h \<longrightarrow> pae_outside {3} u \<longrightarrow> page_of u \<noteq> page_of bas \<longrightarrow> pae_walk m5 u = Some h"
      "free_frames p - {g5} \<subseteq> ?free m5"
    using pae_map_keeps [OF inv4 bas(2), of sto 3 kalloc] n4 able [of sto] old by auto
  have c5: "card (free_frames p) \<le> Suc (card (?free m5))"
    by (rule Suc_card_diff [OF finite_free_frames m5(6) finite_free_frames])
  have sub5: "?free m5 \<subseteq> free_frames p"
    using m5(4) by (simp add: pae_keeps_def)
  have sto_old: "sto \<in> ?free (mach s)" and lo_old: "lo \<in> ?free (mach s)"
    using old by simp_all
  have sto: "pae_mappable mx sto 3" "sto \<noteq> 0" "sto AND 0xFFF = 0"
    using able [OF sto_old] free_frame_nonzero [OF sto_old] by (simp_all add: pae_mappable_def)
  have sto_small: "unat sto < 2 ^ 32"
    using free_frame_range(1) [OF sto_old] by simp
  have lone4: "lone_region (space ?s4 ?kv) (region_nodes ?s4) bas siz k limit"
    using lone(1) by simp
  have "pae_mmap kalloc sto bas 3 (mach ?s4) = Inr m5"
    using m5(1) by simp
  then obtain st5 where st5: "vmm_page_alloc alloc_frame3 (pae_mmap kalloc) ?kv 0x1000 3 sto ?s4 = Some (Inr (bas, ?s4\<lparr>region_nodes := st5, mach := m5\<rparr>))"
    using alloc_page_given [OF lone4 lone(2,3) sto(2,3)] by blast
  have step5: "pae_kalloc kalloc 4096 3 sto ?s4 = Some (Inr (bas, s\<lparr>region_nodes := st5, mach := m5\<rparr>))"
    using st5 by (simp add: pae_kalloc_def)
  text \<open>The struct of the new space.\<close>
  have nz: "bas \<noteq> 0"
    using bas(2) by (auto simp: pae_outside_def pae_indices_nat)
  have wrap: "unat bas + 4096 \<le> 2 ^ 32"
  proof -
    obtain b where "unat bas = 4096 * b"
      using bas(1) low_bits [of bas] by auto
    then show ?thesis
      using unat_lt_u32 [of bas] by simp
  qed
  let ?s5 = "s\<lparr>region_nodes := st5, mach := m5\<rparr>"
  obtain v st6 where v: "create_vmm 0 0x10000 0xC0000000 bas ?s5 = Some (Inr (bas, ?s5\<lparr>space := (space s)(bas := v), region_nodes := st6\<rparr>))"
      "lone_region v st6 0x10000 0xC0000000 1 125"
      "v = (init_space (vmm.root_pdpt (space s ?kv)) 0 0x10000 0xC0000000 bas)\<lparr>root := bas + 96\<rparr>"
    using create_vmm_region [OF nz wrap, of 0 "0x10000" "0xC0000000" ?s5] kv by (auto simp: BYTE_PGROUNDUP_def)
  let ?s6 = "s\<lparr>region_nodes := st5, mach := m5, space := (space s)(bas := v), region_nodes := st6\<rparr>"
  have step6: "create_vmm_null 0x10000 0xC0000000 bas ?s5 = Some (Inr (bas, ?s6))"
    using v(1) nz by (simp add: create_vmm_null_def)
  text \<open>The directories.\<close>
  obtain n where n: "hi = frame_addr n" "n \<le> frame_limit"
    using old by (auto simp: free_frames_def)
  have num5: "num_frames (pae_mem m5) = num_frames (pae_mem (mach s))"
    using m5(4) num by (simp add: pae_keeps_def)
  have reach5: "of_nat n \<le> num_frames (pae_mem (mach ?s6))"
  proof -
    have "unat (of_nat n :: u32) = n"
      using n(2) by (intro unat_of_nat_u32) (simp add: frame_limit_def)
    then show ?thesis
      using hi(1) n by (simp add: word_le_nat_alt num5 unat_frame_addr)
  qed
  have inv6: "pae_inv {3} mx (mach ?s6)" and room6: "4 \<le> card (?free (mach ?s6))"
    using m5(2) c4 c5 room by simp_all
  have own6: "owned {3} (mach ?s6) lo" "owned {3} (mach ?s6) med" "owned {3} (mach ?s6) hi"
    using keeps_owned(1) [OF m5(4)] own4 by simp_all
  have dist3: "distinct [lo, med, hi]" and able3: "pae_mappable mx lo 3" "pae_mappable mx med 3" "pae_mappable mx hi 3"
    using dist able old by auto
  obtain m7 F where m7: "enter_directories kalloc lo med hi ?s6 = Some (Inr (?s6\<lparr>mach := m7\<rparr>))" "pae_inv {3} mx m7"
      "owned {3} m7 lo" "tables64 m7 lo 511 = lo OR 1" "\<forall>i<511. tables64 m7 lo i = 0"
      "?free m7 = insert hi F" "F \<subseteq> ?free (mach ?s6)" "card (?free (mach ?s6)) \<le> card F + 3"
      "\<forall>u h. pae_walk (mach ?s6) u = Some h \<longrightarrow> pae_outside {3} u \<longrightarrow> page_of u \<noteq> page_of TEMP_PAGE_VIRT \<longrightarrow> pae_walk m7 u = Some h"
    using enter_directories_ok [OF inv6 room6 own6 dist3 able3 n reach5, of kalloc] by blast
  text \<open>The new space becomes current.\<close>
  let ?v = "v\<lparr>pd_low := lo, pd_mid := med, pd_high := hi\<rparr>"
  let ?s8 = "?s6\<lparr>mach := m7, space := (space (?s6\<lparr>mach := m7\<rparr>))(bas := ?v)\<rparr>"
  have F: "F \<subseteq> free_frames p" "hi \<notin> F" "finite F"
    using m7(7) sub5 own6(3) finite_subset [OF m7(7)] by (auto simp: owned_def)
  have room8: "2 \<le> card (?free (mach ?s8))"
    using m7(6,8) F(2,3) c4 c5 room by simp
  have hi8: "hi \<in> ?free (mach ?s8)" "\<forall>h\<in>?free (mach ?s8). unat hi \<le> unat h"
    using m7(6) F(1) hi(2) by auto
  have own8: "owned {3} (mach ?s8) lo" "tables64 (mach ?s8) lo 511 = lo OR 1" "\<forall>i<511. tables64 (mach ?s8) lo i = 0"
    and inv8: "pae_inv {3} mx (mach ?s8)"
    using m7(2-5) by simp_all
  have lo: "lo \<noteq> 0"
    by (rule free_frame_nonzero [OF lo_old])
  have v8: "vmm.root_pdpt (space ?s8 bas) \<noteq> 0" "pd_low (space ?s8 bas) = lo" "vm_obj_store_addr (space ?s8 bas) = bas + 48"
      "root (space ?s8 bas) = bas + 96" "pd_high (space ?s8 bas) = hi"
    using v(3) kv(2) by (simp_all add: init_space_def sizeof_vmm_def)
  have lone8: "lone_region (space ?s8 bas) (region_nodes ?s8) 0x10000 0xC0000000 1 125"
    using v(2) by (simp add: lone_region_fields)
  obtain s' f where s': "enter_space kalloc bas sto ?s8 = Some (Inr (0x11FDF, s'))" "vm.current_vmm s' = bas" "pae_inv {0, 3} mx (mach s')"
      "pae_walk (mach s') 0x10000 = Some sto" "pae_walk (mach s') 0x11000 = Some f" "f \<in> ?free (mach ?s8)" "f \<noteq> hi"
      "lone_region (space s' bas) (region_nodes s') 0x12000 0xBFFFE000 3 125"
      "frame64 (pae_pd (mach s') 0 0) = hi" "pdpt (mach s') 2 = pd_high (space ?s8 bas) OR 1"
      "\<forall>u h. pae_outside {3} u \<longrightarrow> pae_walk (mach ?s8) u = Some h \<longrightarrow> pae_walk (mach s') u = Some h"
      "\<forall>other. mach (set_current_vmm bas (if other \<noteq> 0 then set_current_vmm other s' else s')) = mach s'"
    using enter_space_ok [OF inv8 room8 own8 lo hi8 v8(1-4) lone8 sto(1,2) sto_small, of kalloc] by blast
  have run: "create_new_pdptes kalloc s = Some (Inr ((bas, 0x11FDF), s'))"
    using four step5 step6 m7(1) s'(1) by (simp add: create_new_pdptes_def)
  have "f \<in> free_frames p"
    using s'(6,7) m7(6) F(1) by auto
  then have f: "f \<noteq> sto" "f \<in> ?free (mach s)"
    using fp by auto
  have keep: "pae_walk (mach s') u = Some h" if "pae_walk m5 u = Some h" "pae_outside {3} u" "page_of u \<noteq> page_of TEMP_PAGE_VIRT" for u h
    using m7(9) s'(11) that by simp
  have "pae_walk (mach s') bas = Some sto"
    using keep m5(3) bas(2,3) by blast
  moreover have "\<forall>u h. pae_walk (mach s) u = Some h \<longrightarrow> pae_outside {3} u \<longrightarrow> page_of u \<noteq> page_of bas \<longrightarrow>
       page_of u \<noteq> page_of TEMP_PAGE_VIRT \<longrightarrow> pae_walk (mach s') u = Some h"
    using keep m5(5) by simp
  moreover have "frame64 (pdpt (mach s') 2) = hi"
    using s'(10) v8(5) frame64_mapped(1) [of hi 1] un [of hi] old by (simp add: untabled_def)
  ultimately show ?thesis
    using run s'(2-5,8,9,12) f old by (intro exI [of _ s'] exI [of _ sto] exI [of _ f]) auto
qed

lemma spawn_ok:
  assumes ready: "space_ready mx bas siz k limit s" and ps: "process_list ps xs" "p \<noteq> 0" "p \<notin> set xs"
    and priv: "privileged \<noteq> PRIV_NO_ADD"
  shows "\<exists>ps' t m f g. spawn kalloc p c garbage r0 r3 function privileged ps s = Some (Inr (p, ps', t)) \<and>
    process_list ps' (xs @ [p]) \<and> pstatus (procs ps' p) = READY \<and> vmm_obj (procs ps' p) = bas \<and> context (procs ps' p) = c \<and>
    eip (contexts ps' c) = function \<and>
    m = mach (set_current_vmm bas t) \<and> pae_inv {0, 3} mx m \<and> f \<noteq> g \<and> {f, g} \<subseteq> free_frames (pae_mem (mach s)) \<and>
    pae_walk m bas = Some f \<and> pae_walk m 0x10000 = Some f \<and> pae_walk m (esp (contexts ps' c)) = Some g \<and>
    lone_region (space t bas) (region_nodes t) 0x12000 0xBFFFE000 3 125 \<and>
    (\<forall>u h. pae_walk (mach s) u = Some h \<longrightarrow> pae_outside {3} u \<longrightarrow> page_of u \<noteq> page_of bas \<longrightarrow>
       page_of u \<noteq> page_of TEMP_PAGE_VIRT \<longrightarrow> pae_walk m u = Some h)"
proof -
  obtain s' f g where s': "create_new_pdptes kalloc s = Some (Inr ((bas, 0x11FDF), s'))"
      "pae_inv {0, 3} mx (mach s')" "f \<noteq> g" "{f, g} \<subseteq> free_frames (pae_mem (mach s))"
      "pae_walk (mach s') bas = Some f" "pae_walk (mach s') 0x10000 = Some f" "pae_walk (mach s') 0x11000 = Some g"
      "lone_region (space s' bas) (region_nodes s') 0x12000 0xBFFFE000 3 125"
      "\<forall>u h. pae_walk (mach s) u = Some h \<longrightarrow> pae_outside {3} u \<longrightarrow> page_of u \<noteq> page_of bas \<longrightarrow>
       page_of u \<noteq> page_of TEMP_PAGE_VIRT \<longrightarrow> pae_walk (mach s') u = Some h"
      "\<forall>other. mach (set_current_vmm bas (if other \<noteq> 0 then set_current_vmm other s' else s')) = mach s'"
    using new_space_ok [OF ready, of kalloc] by blast
  define proc where "proc = garbage\<lparr>pid := next_free_pid ps, pstatus := READY, context := c, vmm_obj := bas, pnext := 0\<rparr>"
  define ctx where "ctx = null_context\<lparr>esp := 0x11FDF, eflags := 0x200202, cs := 0x08, eip := function, cr0 := r0, cr2 := 0,
      cr3 := r3, ebx := 0xbeef\<rparr>"
  define ps1 where "ps1 = ps\<lparr>next_free_pid := next_free_pid ps + 1, procs := (procs ps)(p := proc),
      contexts := (contexts ps)(c := ctx), current_vmm := bas\<rparr>"
  have "plist (procs ps1) (process_list_head ps1) xs"
    using ps by (auto simp: ps1_def process_list_def elim: plist_cong)
  then have l1: "process_list ps1 xs" "pnext (procs ps1 p) = 0"
    using ps(1) by (simp_all add: process_list_def ps1_def proc_def)
  obtain ps2 where ps2: "add_process p ps1 = Some ps2" "process_list ps2 (xs @ [p])" "contexts ps2 = contexts ps1"
      "procs ps2 p = (procs ps1 p)\<lparr>pnext := pnext (procs ps2 p)\<rparr>"
    using add_process_ok [OF l1(1) ps(2,3) l1(2)] by blast
  define ps' where "ps' = (if Scheduler.current_vmm ps \<noteq> 0 then ps2\<lparr>current_vmm := Scheduler.current_vmm ps\<rparr> else ps2)"
  have cp: "create_process p c garbage bas 0x11FDF r0 r3 function privileged ps = Some (p, ps')"
    using priv ps2(1) by (simp add: create_process_def ps1_def proc_def ctx_def ps'_def Let_def)
  have pl: "process_list ps' (xs @ [p])" and fields: "procs ps' = procs ps2" "contexts ps' c = ctx"
    using ps2(2,3) by (simp_all add: ps'_def process_list_def ps1_def)
  have "pstatus (procs ps2 p) = READY \<and> vmm_obj (procs ps2 p) = bas \<and> context (procs ps2 p) = c"
    by (subst (1 2 3) ps2(4)) (simp add: ps1_def proc_def)
  moreover have "pae_walk (mach s') (esp ctx) = Some g"
    using s'(7) pae_walk_page [of "0x11FDF" "0x11000" "mach s'"] by (simp add: ctx_def page_of_def)
  moreover define t where "t = (if vm.current_vmm s \<noteq> 0 then set_current_vmm (vm.current_vmm s) s' else s')"
  have "spawn kalloc p c garbage r0 r3 function privileged ps s = Some (Inr (p, ps', t))"
    using s'(1) cp by (simp add: spawn_def t_def)
  moreover have "mach (set_current_vmm bas t) = mach s'" "space t = space s'" "region_nodes t = region_nodes s'"
    using s'(10) by (simp_all add: t_def set_current_vmm_def Let_def)
  ultimately show ?thesis
    using s' pl fields by (intro exI [of _ ps'] exI [of _ t] exI [of _ "mach s'"] exI [of _ f] exI [of _ g]) (simp add: ctx_def)
qed

text \<open>
  C7. Creating a process: in the situation described by \<open>space_ready\<close>, with any process list, the new
  process is appended to the list, ready to run the function given. When its address space is made
  current (the creator's has been restored), the space's own data are mapped at the same frame in the
  kernel and in the process, the stack pointer lies in a page of its own, what the next allocation
  relies on holds, and the kernel's pages resolve as before, the temporary page aside.
\<close>

theorem spawn_process:
  assumes ready: "space_ready mx bas siz k limit s" and ps: "process_list ps xs" "p \<noteq> 0" "p \<notin> set xs"
    and priv: "privileged \<noteq> PRIV_NO_ADD"
  shows "\<exists>ps' t m f g. spawn kalloc p c garbage r0 r3 function privileged ps s = Some (Inr (p, ps', t)) \<and>
    process_list ps' (xs @ [p]) \<and> pstatus (procs ps' p) = READY \<and> vmm_obj (procs ps' p) = bas \<and> context (procs ps' p) = c \<and>
    eip (contexts ps' c) = function \<and>
    m = mach (set_current_vmm bas t) \<and> pae_inv {0, 3} mx m \<and> f \<noteq> g \<and> {f, g} \<subseteq> free_frames (pae_mem (mach s)) \<and>
    pae_walk m bas = Some f \<and> pae_walk m 0x10000 = Some f \<and> pae_walk m (esp (contexts ps' c)) = Some g \<and>
    lone_region (space t bas) (region_nodes t) 0x12000 0xBFFFE000 3 125 \<and>
    (\<forall>u h. pae_walk (mach s) u = Some h \<longrightarrow> pae_outside {3} u \<longrightarrow> page_of u \<noteq> page_of bas \<longrightarrow>
       page_of u \<noteq> page_of TEMP_PAGE_VIRT \<longrightarrow> pae_walk m u = Some h)"
  by (rule spawn_ok [OF assms])


section \<open>An example\<close>

definition demo_kernel :: "pae vm" where
  "demo_kernel = \<lparr>space = (\<lambda>_. demo_vmm\<lparr>root_pdpt := 0xC0002000\<rparr>),
     region_nodes = demo_store(160 := (demo_store 160)\<lparr>rb_base := 0xC1000000\<rparr>), kernel_vmm = 64, current_vmm = 0, mach = demo_pae\<rparr>"

lemma demo_ready: "space_ready 36 0xC1000000 0x8000 1 125 demo_kernel"
proof -
  have t: "taken (pae_mem demo_pae) = {}"
    by (auto simp: mem_taken demo_pae_def)
  note free = free_frames_all [OF t]
  have at: "\<not> table_at demo_pae {3} p i" for p i
    by (auto simp: table_at_def demo_pae_def pae_pd_def present64_def frame64_def)
  have ok: "pae_ok demo_pae 3"
    by (simp add: pae_ok_def demo_pae_def pae_pd_def present64_def frame64_def)
  have dir: "frame64 (pdpt demo_pae 3) = 0x1000"
    by (simp add: demo_pae_def frame64_def)
  have "untabled demo_pae {3} f" if f: "f \<in> free_frames (pae_mem demo_pae)" for f
  proof -
    have "f \<noteq> 0x1000"
      using free(2) [OF f] by auto
    then show ?thesis
      using free_frame_range(2) [OF f] by (simp add: untabled_def at dir low_bits64)
  qed
  then have inv: "pae_inv {3} 36 demo_pae"
    using ok by (simp add: pae_inv_def tables_apart_def at) (simp add: demo_pae_def bitmap_ok_def frame_limit_def)
  have bound: "unat (num_frames (pae_mem demo_pae)) = 2560"
    by (simp add: demo_pae_def)
  let ?A = "frame_addr ` {0, 1, 2}"
  have "inj_on frame_addr {0, 1, 2}"
    by (rule inj_onI, rule frame_addr_inj) (auto simp: frame_limit_def)
  then have "card ?A = 3"
    by (subst card_image) simp_all
  moreover have "?A \<subseteq> {f \<in> free_frames (pae_mem demo_pae). unat f \<le> 0x100000 + 4096 * 2560}"
    by (auto simp: free_frames_def t frame_limit_def unat_frame_addr)
  then have "card ?A \<le> card {f \<in> free_frames (pae_mem demo_pae). unat f \<le> 0x100000 + 4096 * 2560}"
    by (intro card_mono) simp_all
  ultimately have reach: "3 \<le> card {f \<in> free_frames (pae_mem demo_pae). unat f \<le> 0x100000 + 4096 * 2560}"
    by simp
  have "lone_region demo_vmm (region_nodes demo_kernel) 0xC1000000 0x8000 1 125"
    using lone_rebase [of demo_vmm demo_store "0x100000" "0x8000" 1 125 "0xC1000000"] demo_lone
    by (simp add: demo_space_def demo_kernel_def) (simp add: demo_vmm_def slot_def)
  then have lone: "lone_region (demo_vmm\<lparr>root_pdpt := 0xC0002000\<rparr>) (region_nodes demo_kernel) 0xC1000000 0x8000 1 125"
    by (simp add: lone_region_def slot_def)
  have "pae_outside {3} 0xC1000000" "page_of 0xC1000000 \<noteq> page_of TEMP_PAGE_VIRT"
    by (simp_all add: pae_outside_def pae_indices_nat page_of_def TEMP_PAGE_VIRT_def)
  moreover have "mach demo_kernel = demo_pae" "kernel_vmm demo_kernel = 64" "space demo_kernel 64 = demo_vmm\<lparr>root_pdpt := 0xC0002000\<rparr>"
    by (simp_all add: demo_kernel_def)
  ultimately show ?thesis
    using inv lone reach free(1) by (simp add: space_ready_def bound)
qed

theorem spawn_process_witness:
  "\<exists>ps' t m g. spawn Inr 0x400 0x500 (demo_process DEAD 0 0) 0 0 0xC0101000 1 demo_sched demo_kernel = Some (Inr (0x400, ps', t)) \<and>
     process_list ps' [0x100, 0x200, 0x400] \<and> m = mach (set_current_vmm 0xC1000000 t) \<and> pae_walk m (esp (contexts ps' 0x500)) = Some g"
  using spawn_process [OF demo_ready, of demo_sched "[0x100, 0x200]" "0x400" 1 Inr "0x500" "demo_process DEAD 0 0" 0 0 "0xC0101000"] demo_sched_list
  by (simp add: PRIV_NO_ADD_def) blast


end
