(* ===== verification/Pae_Switch.thy ===== *)
theory Pae_Switch
  imports Page_Mapping
begin

text \<open>
  The change from two-level to three-level tables, \<open>transfer_pages_to_pae\<close> and \<open>init_pae\<close> of
  \<open>memory/paging.c\<close> up to the instructions that change the processor's mode. The new tables are built
  in frames mapped into the kernel; \<open>mem\<close> is what these frames hold, as 64-bit entries. They are not
  tables of the old structure, so the two views do not meet.
\<close>

section \<open>The operations\<close>

type_synonym mem64 = "u64 \<Rightarrow> nat \<Rightarrow> u64"

text \<open>A frame from the allocator and a kernel page mapped to it.\<close>

definition new_page :: "paging vm \<Rightarrow> ((u64 \<times> u32) \<times> paging vm) outcome" where
  "new_page s =
     (case alloc_frame2 (mach s) of
        Inl e \<Rightarrow> Some (Inl e)
      | Inr (f, m) \<Rightarrow>
          bind_out (page_kalloc PGSIZE 3 (ucast f) (s\<lparr>mach := m\<rparr>)) (\<lambda>(va, s'). Some (Inr ((f, va), s'))))"

definition store64 :: "paging \<Rightarrow> u32 \<Rightarrow> nat \<Rightarrow> u64 \<Rightarrow> mem64 \<Rightarrow> mem64 result" where
  "store64 m va i v mem =
     (case walk m va of
        None \<Rightarrow> Inl (PageFault (va + 8 * of_nat i))
      | Some f \<Rightarrow> Inr (mem(ucast f := (mem (ucast f))(i := v))))"

text \<open>The two copying loops; \<open>off\<close> is 0 for the first half of the old table and 512 for the second.\<close>

fun copy_entries :: "paging \<Rightarrow> u32 \<Rightarrow> nat \<Rightarrow> u32 \<Rightarrow> nat list \<Rightarrow> mem64 \<Rightarrow> mem64 result" where
  "copy_entries m pt off va [] mem = Inr mem"
| "copy_entries m pt off va (j # js) mem =
     (case read_table pt (j + off) m of
        Inl e \<Rightarrow> Inl e
      | Inr v \<Rightarrow>
          (case store64 m va j (ucast v) mem of
             Inl e \<Rightarrow> Inl e
           | Inr mem' \<Rightarrow> copy_entries m pt off va js mem'))"

text \<open>One half: a new table is filled and entered at \<open>k\<close> of the new directory with the bits \<open>bits\<close>.\<close>

definition transfer_half :: "u32 \<Rightarrow> nat \<Rightarrow> nat \<Rightarrow> nat \<Rightarrow> u64 \<Rightarrow> paging vm \<times> mem64 \<Rightarrow> (paging vm \<times> mem64) outcome" where
  "transfer_half new_pd i off k bits = (\<lambda>(s, mem).
     bind_out (new_page s) (\<lambda>((f, va), s').
       case copy_entries (mach s') (0xFFC00000 + of_nat i * 0x1000) off va [0..<512] mem of
         Inl e \<Rightarrow> Some (Inl e)
       | Inr mem1 \<Rightarrow> Some (map_sum id (Pair s') (store64 (mach s') new_pd k (f OR bits) mem1))))"

text \<open>The second table of a pair is entered without any bits.\<close>

definition transfer_table :: "u32 \<Rightarrow> nat \<Rightarrow> paging vm \<times> mem64 \<Rightarrow> (paging vm \<times> mem64) outcome" where
  "transfer_table new_pd i = (\<lambda>(s, mem).
     if present (pde (mach s) i)
     then bind_out (transfer_half new_pd i 0 ((i - 768) * 2) 3 (s, mem)) (transfer_half new_pd i 512 ((i - 768) * 2 + 1) 0)
     else Some (Inr (s, mem)))"

fun transfer_loop :: "u32 \<Rightarrow> nat list \<Rightarrow> paging vm \<times> mem64 \<Rightarrow> (paging vm \<times> mem64) outcome" where
  "transfer_loop new_pd [] x = Some (Inr x)"
| "transfer_loop new_pd (i # is) x = bind_out (transfer_table new_pd i x) (transfer_loop new_pd is)"

definition transfer_pages_to_pae :: "paging vm \<Rightarrow> mem64 \<Rightarrow> (u64 \<times> paging vm \<times> mem64) outcome" where
  "transfer_pages_to_pae s mem =
     bind_out (new_page s) (\<lambda>((new_pd_phys, new_pd), s1).
       bind_out (transfer_loop new_pd [768..<1024] (s1, mem)) (\<lambda>(s2, mem2).
         Some (map_sum id (\<lambda>mem3. (new_pd_phys, s2, mem3)) (store64 (mach s2) new_pd 511 (new_pd_phys OR 1) mem2))))"

text \<open>
  \<open>init_pae\<close> up to the change of mode. \<open>cpu01\<close> and \<open>cpu808\<close> are what \<open>cpuid\<close> leaves in \<open>eax\<close>, \<open>eip\<close> the address of
  the running code. The identity tables map the two pages around it. The result is the physical and
  the virtual address of the pointer table.
\<close>

definition stores64 :: "(u32 \<times> nat \<times> u64) list \<Rightarrow> paging \<Rightarrow> mem64 \<Rightarrow> mem64 result" where
  "stores64 ws m mem =
     foldl (\<lambda>r (va, i, v). case r of Inl e \<Rightarrow> Inl e | Inr mem' \<Rightarrow> store64 m va i v mem') (Inr mem) ws"

definition code_page :: "u32 \<Rightarrow> u32" where
  "code_page eip = (eip - 0xC0000000) AND NOT 0x3FF"

definition identity_index :: "u32 \<Rightarrow> nat" where
  "identity_index a = unat (drop_bit 12 a AND 0x1FF)"

definition init_pae :: "u32 \<Rightarrow> u32 \<Rightarrow> u32 \<Rightarrow> paging vm \<Rightarrow> mem64 \<Rightarrow> ((u32 \<times> u32 \<times> u32) \<times> paging vm \<times> mem64) outcome" where
  "init_pae cpu01 cpu808 eip s mem =
     (if cpu01 AND push_bit 6 1 = 0 then Some (Inl (Panic ''No PAE supported...''))
      else
        bind_out (new_page s) (\<lambda>((pdpt_phys, pdpt_page), s1).
        bind_out (new_page s1) (\<lambda>((pd_phys, identity_pd), s2).
        bind_out (new_page s2) (\<lambda>((pt_phys, identity_pt), s3).
        bind_out (Some (store64 (mach s3) pdpt_page 0 (ucast (ucast pd_phys :: u32) OR 1) mem)) (\<lambda>mem1.
        bind_out (transfer_pages_to_pae s3 mem1) (\<lambda>(kernel_pd, s4, mem2).
        bind_out (Some (store64 (mach s4) pdpt_page 3 (ucast (ucast kernel_pd :: u32) OR 1) mem2)) (\<lambda>mem3.
          let e = code_page eip; e' = BYTE_PGROUNDUP e in
        bind_out (Some (memory_map e e 3 (mach s4))) (\<lambda>m5.
        bind_out (Some (memory_map e' e' 3 m5)) (\<lambda>m6.
        bind_out (Some (stores64
          [(identity_pt, identity_index e, ucast e OR 3), (identity_pt, identity_index e', ucast e' OR 3),
           (identity_pd, unat (drop_bit 21 e AND 0x1FF), pt_phys OR 3), (identity_pd, 511, pd_phys OR 1)] m6 mem3)) (\<lambda>mem4.
          Some (Inr ((ucast pdpt_phys, pdpt_page, cpu808 AND 0xFF), s4\<lparr>mach := m6\<rparr>, mem4))))))))))))"

section \<open>Pages for the new tables\<close>

lemma new_page_ok:
  fixes s :: "paging vm"
  assumes inv: "paging_inv (mach s)"
    and lone: "lone_region (space s (kernel_vmm s)) (region_nodes s) bas siz k limit" "k < limit" "0x1000 < siz"
    and d: "present (pde (mach s) (pd_index bas))" "pd_index bas \<noteq> 1023" and ne: "free_frames (phys_mem (mach s)) \<noteq> {}"
  shows "\<exists>f st m'. new_page s = Some (Inr ((f, bas), s\<lparr>region_nodes := st, mach := m'\<rparr>)) \<and> paging_inv m' \<and>
    lone_region (space s (kernel_vmm s)) st (bas + 0x1000) (siz - 0x1000) (Suc k) limit \<and> pde m' = pde (mach s) \<and>
    f \<in> free_frames (phys_mem (mach s)) \<and> free_frames (phys_mem m') = free_frames (phys_mem (mach s)) - {f} \<and>
    walk m' bas = Some (ucast f) \<and> (\<forall>va. page_of va \<noteq> page_of bas \<longrightarrow> walk m' va = walk (mach s) va)"
proof -
  have b: "bitmap_ok (phys_mem (mach s))" and un: "\<And>f. f \<in> free_frames (phys_mem (mach s)) \<Longrightarrow> unused_frame (mach s) (ucast f)"
    using inv by (auto simp: paging_inv_def)
  obtain f p where f: "alloc_phys_page (phys_mem (mach s)) = Inr (f, p)" "f \<in> free_frames (phys_mem (mach s))"
      "free_frames p = free_frames (phys_mem (mach s)) - {f}" "bitmap_ok p"
    using alloc_free_frames [OF b ne] by blast
  define m1 where "m1 = (mach s)\<lparr>phys_mem := p\<rparr>"
  have pde1: "pde m1 = pde (mach s)" "walk m1 va = walk (mach s) va" "phys_mem m1 = p" "pd_frame m1 = pd_frame (mach s)" for va
    by (auto simp: m1_def pde_def walk_def)
  have inv1: "paging_ok m1"
    using inv by (simp add: paging_inv_def paging_ok_def pde1 cong: conj_cong)
  have small: "(ucast (ucast f :: u32) :: u64) = f" "(ucast f :: u32) AND 0xFFF = 0" "f \<noteq> 0"
    using free_frame_range(1) [OF f(2)] un [OF f(2)] free_frame_nonzero [OF f(2)] by (auto simp: ucast_small unused_frame_def)
  have f64: "f AND 0xFFF = 0"
    using free_frame_range(2) [OF f(2)] by (simp add: low_bits64)
  have fl: "(3 :: u32) AND NOT 0xFFF = 0" "(3 :: u32) AND 1 \<noteq> 0"
    by simp_all
  obtain m' where m': "memory_map (ucast f) bas 3 m1 = Inr m'" "paging_ok m'" "walk m' bas = Some (ucast f)"
      "\<forall>va. (pd_index va, pt_index va) \<noteq> (pd_index bas, pt_index bas) \<longrightarrow> walk m' va = walk m1 va"
      "pde m' = pde m1" "pd_frame m' = pd_frame m1" "phys_mem m' = phys_mem m1"
    using map_existing [OF inv1 _ d(2) small(2) fl] d(1) pde1(1) by auto
  have "paging_inv m'"
    using m'(2,5-7) un f(3,4) by (simp add: paging_inv_def unused_frame_def pde1)
  moreover have "map_page2 f bas 3 (mach (s\<lparr>mach := m1\<rparr>)) = Inr m'"
    using m'(1) by (simp add: map_page2_def)
  then obtain st where st: "vmm_page_alloc alloc_frame2 map_page2 (kernel_vmm s) 0x1000 3 f (s\<lparr>mach := m1\<rparr>) =
        Some (Inr (bas, s\<lparr>mach := m1, region_nodes := st, mach := m'\<rparr>))"
      "lone_region (space s (kernel_vmm s)) st (bas + 0x1000) (siz - 0x1000) (Suc k) limit"
    using alloc_page_given [of "s\<lparr>mach := m1\<rparr>" "kernel_vmm s" bas siz k limit f map_page2 3 m' alloc_frame2] lone small(3) f64 by auto
  have "vmm_page_alloc alloc_frame2 map_page2 c PGSIZE 3 f t = vmm_page_alloc alloc_frame2 map_page2 c 0x1000 3 f t" for c and t :: "paging vm"
    by (simp add: vmm_page_alloc_def PGSIZE_def BYTE_PGROUNDUP_def Let_def)
  then have "new_page s = Some (Inr ((f, bas), s\<lparr>region_nodes := st, mach := m'\<rparr>))"
    using f(1) st(1) small(1) by (simp add: new_page_def alloc_frame2_def page_kalloc_def m1_def)
  ultimately show ?thesis
    using st(2) m'(3-5,7) f(2,3) pde1 by (intro exI [of _ f] exI [of _ st] exI [of _ m']) (simp add: page_indices_eq)
qed

text \<open>
  The state after \<open>c\<close> of \<open>n\<close> such pages: they are taken from the start of the kernel's free region and
  all other pages resolve as in \<open>m0\<close>.
\<close>

definition kept_page :: "u32 \<Rightarrow> nat \<Rightarrow> u32 \<Rightarrow> bool" where
  "kept_page bas n va \<longleftrightarrow> (\<forall>i<n. page_of va \<noteq> page_of (nth_page bas i))"

definition paged :: "paging \<Rightarrow> u32 \<Rightarrow> u32 \<Rightarrow> nat \<Rightarrow> nat \<Rightarrow> nat \<Rightarrow> nat \<Rightarrow> paging vm \<Rightarrow> bool" where
  "paged m0 bas siz k limit n c s \<longleftrightarrow>
     paging_inv (mach s) \<and> pde (mach s) = pde m0 \<and>
     lone_region (space s (kernel_vmm s)) (region_nodes s) (nth_page bas c) (siz - of_nat (4096 * c)) (k + c) limit \<and>
     n \<le> card (free_frames (phys_mem (mach s))) + c \<and> (\<forall>va. kept_page bas n va \<longrightarrow> walk (mach s) va = walk m0 va)"

text \<open>Room for \<open>n\<close> pages under tables that exist, outside the recursive window.\<close>

definition room_for :: "paging \<Rightarrow> u32 \<Rightarrow> u32 \<Rightarrow> nat \<Rightarrow> nat \<Rightarrow> nat \<Rightarrow> bool" where
  "room_for m0 bas siz k limit n \<longleftrightarrow>
     bas AND 0xFFF = 0 \<and> 4096 * n < unat siz \<and> k + n \<le> limit \<and> (\<forall>i<n. present (pde m0 (pd_index (nth_page bas i))) \<and> pd_index (nth_page bas i) \<noteq> 1023)"

lemma paged_0:
  "paging_inv (mach s) \<Longrightarrow> lone_region (space s (kernel_vmm s)) (region_nodes s) bas siz k limit \<Longrightarrow>
    n \<le> card (free_frames (phys_mem (mach s))) \<Longrightarrow> paged (mach s) bas siz k limit n 0 s"
  by (simp add: paged_def nth_page_def)

lemma room_small: "room_for m0 bas siz k limit n \<Longrightarrow> n < 2 ^ 20"
  using unat_lt_u32 [of siz] by (simp add: room_for_def)

lemma room_pages_apart:
  assumes "room_for m0 bas siz k limit n" "i < n" "j < n" "i \<noteq> j"
  shows "page_of (nth_page bas i) \<noteq> page_of (nth_page bas j)"
  using nth_pages_apart [of bas i j] assms room_small [OF assms(1)] by (auto simp: room_for_def)

lemma next_page_ok:
  assumes pg: "paged m0 bas siz k limit n c s" and room: "room_for m0 bas siz k limit n" and c: "c < n"
  shows "\<exists>f st m'. new_page s = Some (Inr ((f, nth_page bas c), s\<lparr>region_nodes := st, mach := m'\<rparr>)) \<and>
    paged m0 bas siz k limit n (Suc c) (s\<lparr>region_nodes := st, mach := m'\<rparr>) \<and>
    f \<in> free_frames (phys_mem (mach s)) \<and> free_frames (phys_mem m') = free_frames (phys_mem (mach s)) - {f} \<and>
    ucast (ucast f :: u32) = f \<and> f AND 0xFFF = 0 \<and> walk m' (nth_page bas c) = Some (ucast f) \<and>
    (\<forall>va. page_of va \<noteq> page_of (nth_page bas c) \<longrightarrow> walk m' va = walk (mach s) va)"
proof -
  let ?free = "free_frames (phys_mem (mach s))" and ?b = "nth_page bas c"
  have S: "paging_inv (mach s)" "pde (mach s) = pde m0"
      "lone_region (space s (kernel_vmm s)) (region_nodes s) ?b (siz - of_nat (4096 * c)) (k + c) limit" "n \<le> card ?free + c"
      "\<And>va. kept_page bas n va \<Longrightarrow> walk (mach s) va = walk m0 va"
    using pg unfolding paged_def by blast+
  have R: "4096 * n < unat siz" "k + n \<le> limit" "present (pde m0 (pd_index ?b))" "pd_index ?b \<noteq> 1023"
    using room c unfolding room_for_def by blast+
  have u: "unat (of_nat (4096 * c) :: u32) = 4096 * c"
    using c room_small [OF room] by (intro unat_page) simp
  have z: "0x1000 < siz - of_nat (4096 * c)"
    using R(1) c u by (simp add: word_less_nat_alt unat_sub_if')
  have next_page: "?b + 0x1000 = nth_page bas (Suc c)" "siz - of_nat (4096 * c) - 0x1000 = siz - of_nat (4096 * Suc c)"
    by (simp_all add: nth_page_def algebra_simps)
  have kc: "k + c < limit" and d: "present (pde (mach s) (pd_index ?b))" "?free \<noteq> {}"
    using R(2,3) S(2,4) c by auto
  obtain f st m' where p: "new_page s = Some (Inr ((f, ?b), s\<lparr>region_nodes := st, mach := m'\<rparr>))" "paging_inv m'"
      "lone_region (space s (kernel_vmm s)) st (nth_page bas (Suc c)) (siz - of_nat (4096 * Suc c)) (Suc (k + c)) limit"
      "pde m' = pde (mach s)" "f \<in> ?free" "free_frames (phys_mem m') = ?free - {f}" "walk m' ?b = Some (ucast f)"
      "\<And>va. page_of va \<noteq> page_of ?b \<Longrightarrow> walk m' va = walk (mach s) va"
    using new_page_ok [OF S(1,3) kc z d(1) R(4) d(2), unfolded next_page] by blast
  have fz: "ucast (ucast f :: u32) = f" "f AND 0xFFF = 0"
    using free_frame_range [OF p(5)] by (auto simp: ucast_small low_bits64)
  have "walk m' va = walk m0 va" if va: "kept_page bas n va" for va
    using S(5) [OF va] p(8) [of va] va c by (simp add: kept_page_def)
  moreover have "n \<le> card (?free - {f}) + Suc c"
    using S(4) p(5) by simp
  ultimately have "paged m0 bas siz k limit n (Suc c) (s\<lparr>region_nodes := st, mach := m'\<rparr>)"
    using p(2-4,6) S(2) unfolding paged_def by simp
  then show ?thesis
    using p fz by (intro exI [of _ f] exI [of _ st] exI [of _ m']) simp
qed

section \<open>Copying a table\<close>

definition copied :: "paging \<Rightarrow> nat \<Rightarrow> nat \<Rightarrow> (nat \<Rightarrow> u64) \<Rightarrow> nat \<Rightarrow> u64" where
  "copied m i off old = (\<lambda>j. if j < 512 then ucast (tables m (frame_of (pde m i)) (j + off)) else old j)"

lemma copy_entries_ok:
  assumes win: "walk m pt = Some t" and va: "walk m va = Some (ucast f)" "ucast (ucast f :: u32) = f"
  shows "copy_entries m pt off va js mem =
    Inr (mem(f := (\<lambda>j. if j \<in> set js then ucast (tables m t (j + off)) else mem f j)))"
proof (induction js arbitrary: mem)
  case (Cons j js)
  let ?v = "ucast (tables m t (j + off)) :: u64"
  have "copy_entries m pt off va (j # js) mem = copy_entries m pt off va js (mem(f := (mem f)(j := ?v)))"
    using win va by (simp add: read_table_def store64_def)
  also have "\<dots> = Inr ((mem(f := (mem f)(j := ?v)))
      (f := (\<lambda>i. if i \<in> set js then ucast (tables m t (i + off)) else (mem(f := (mem f)(j := ?v))) f i)))"
    by (rule Cons.IH)
  also have "(mem(f := (mem f)(j := ?v)))(f := (\<lambda>i. if i \<in> set js then ucast (tables m t (i + off)) else (mem(f := (mem f)(j := ?v))) f i)) =
      mem(f := (\<lambda>i. if i \<in> set (j # js) then ucast (tables m t (i + off)) else mem f i))"
    by (auto simp: fun_eq_iff)
  finally show ?case .
qed (simp add: fun_upd_idem)

text \<open>The state between two steps of the transfer: the new directory is at \<open>npd\<close>, one of the \<open>c\<close> pages, in the frame \<open>npf\<close>.\<close>

definition switching :: "paging \<Rightarrow> u32 \<Rightarrow> u32 \<Rightarrow> nat \<Rightarrow> nat \<Rightarrow> nat \<Rightarrow> u32 \<Rightarrow> u64 \<Rightarrow> nat \<Rightarrow> paging vm \<Rightarrow> bool" where
  "switching m0 bas siz k limit n npd npf c s \<longleftrightarrow>
     paged m0 bas siz k limit n c s \<and> walk (mach s) npd = Some (ucast npf) \<and> (\<exists>i<c. npd = nth_page bas i) \<and>
     ucast (ucast npf :: u32) = npf \<and> npf AND 0xFFF = 0 \<and> npf \<notin> free_frames (phys_mem (mach s))"

lemma switchingD:
  assumes "switching m0 bas siz k limit n npd npf c s"
  shows "paged m0 bas siz k limit n c s" "paging_inv (mach s)" "pde (mach s) = pde m0" "walk (mach s) npd = Some (ucast npf)"
    "\<And>va. kept_page bas n va \<Longrightarrow> walk (mach s) va = walk m0 va" "npf \<notin> free_frames (phys_mem (mach s))"
  using assms unfolding switching_def paged_def by blast+

lemma transfer_half_ok:
  assumes sw: "switching m0 bas siz k limit n npd npf c s" and room: "room_for m0 bas siz k limit n" and c: "c < n"
    and i: "768 \<le> i" "i < 1024" "present (pde m0 i)"
  shows "\<exists>f s'. transfer_half npd i off e bits (s, mem) =
      Some (Inr (s', (mem(f := copied (mach s') i off (mem f)))(npf := (mem npf)(e := f OR bits)))) \<and>
    switching m0 bas siz k limit n npd npf (Suc c) s' \<and> f \<noteq> npf \<and> f AND 0xFFF = 0 \<and>
    f \<in> free_frames (phys_mem (mach s)) \<and> free_frames (phys_mem (mach s')) = free_frames (phys_mem (mach s)) - {f} \<and>
    (\<forall>j<c. walk (mach s') (nth_page bas j) = walk (mach s) (nth_page bas j))"
proof -
  let ?free = "free_frames (phys_mem (mach s))" and ?b = "nth_page bas c"
  obtain f st m' where p: "new_page s = Some (Inr ((f, ?b), s\<lparr>region_nodes := st, mach := m'\<rparr>))"
      "paged m0 bas siz k limit n (Suc c) (s\<lparr>region_nodes := st, mach := m'\<rparr>)" "f \<in> ?free" "free_frames (phys_mem m') = ?free - {f}"
      "ucast (ucast f :: u32) = f" "f AND 0xFFF = 0" "walk m' ?b = Some (ucast f)"
      "\<And>va. page_of va \<noteq> page_of ?b \<Longrightarrow> walk m' va = walk (mach s) va"
    using next_page_ok [OF switchingD(1) [OF sw] room c] by blast
  let ?s' = "s\<lparr>region_nodes := st, mach := m'\<rparr>"
  have np: "walk (mach s) npd = Some (ucast npf)" "ucast (ucast npf :: u32) = npf" "npf AND 0xFFF = 0" "npf \<notin> ?free"
    and ex: "\<exists>j<c. npd = nth_page bas j"
    using sw unfolding switching_def by blast+
  have ne: "f \<noteq> npf"
    using p(3) np(4) by blast
  have earlier: "walk m' (nth_page bas j) = walk (mach s) (nth_page bas j)" if "j < c" for j
    using p(8) room_pages_apart [OF room, of j c] that c by simp
  then have npd: "walk m' npd = Some (ucast npf)"
    using ex np(1) by auto
  have "paging_ok m'" "pde m' = pde m0"
    using p(2) by (simp_all add: paged_def paging_inv_def)
  then have win: "walk m' (0xFFC00000 + of_nat i * 0x1000) = Some (frame_of (pde m' i))"
    using walk_window [of m' i] i by (simp add: RECURSIVE_ADDR_def)
  have cp: "copy_entries m' (0xFFC00000 + of_nat i * 0x1000) off ?b [0..<512] mem = Inr (mem(f := copied m' i off (mem f)))"
    using copy_entries_ok [OF win p(7,5), of off "[0..<512]" mem] by (simp add: copied_def cong: if_cong)
  have run: "transfer_half npd i off e bits (s, mem) =
      Some (Inr (?s', (mem(f := copied m' i off (mem f)))(npf := (mem npf)(e := f OR bits))))"
    using p(1) cp npd np(2) ne by (simp add: transfer_half_def store64_def)
  have "\<exists>j<Suc c. npd = nth_page bas j"
    using ex less_SucI by blast
  then have "switching m0 bas siz k limit n npd npf (Suc c) ?s'"
    using p(2,4) np(2-4) npd unfolding switching_def by simp
  then show ?thesis
    using run ne p(3,4,6) earlier by (intro exI [of _ f] exI [of _ ?s']) simp
qed

section \<open>The transfer\<close>

lemma low_bit: "(w AND 1 \<noteq> 0) = bit w 0" for w :: "'a::len word"
  by (simp add: bit_0 and_one_eq odd_iff_mod_2_eq_one)

lemma wide_entry: "present64 (ucast e) = present (e :: u32)" "frame64 (ucast e) = (ucast (frame_of e) :: u64)"
proof -
  show "present64 (ucast e) = present e"
    by (simp only: present64_def present_def low_bit bit_ucast_iff) simp
  show "frame64 (ucast e) = (ucast (frame_of e) :: u64)"
  proof -
    have m: "(0xFFF :: u64) = mask 12" "(0xFFF :: u32) = mask 12"
      by (simp_all add: mask_eq_exp_minus_1)
    show ?thesis
      unfolding frame64_def frame_of_def m
      by (rule bit_word_eqI) (auto simp: bit_and_iff bit_not_iff bit_mask_iff bit_ucast_iff dest: bit_imp_le_length)
  qed
qed

lemma copied_resolves:
  assumes "walk m va = Some h" "pd_index va = i" "pt_index va = j + off" "j < 512"
  shows "present64 (copied m i off old j)" "frame64 (copied m i off old j) = ucast h"
  using assms by (auto simp: copied_def wide_entry walk_def Let_def split: if_splits)

text \<open>
  What one entry of the old directory becomes: a first table, in a frame of \<open>U\<close>, that resolves like the
  first half of the old one, and a second that is not present.
\<close>

definition table_pair :: "paging \<Rightarrow> u32 \<Rightarrow> nat \<Rightarrow> u64 \<Rightarrow> u64 set \<Rightarrow> mem64 \<Rightarrow> nat \<Rightarrow> bool" where
  "table_pair m0 bas n npf U mem i \<longleftrightarrow>
     (\<exists>f1 f2. mem npf ((i - 768) * 2) = f1 OR 3 \<and> mem npf ((i - 768) * 2 + 1) = f2 \<and> f1 AND 0xFFF = 0 \<and> f2 AND 0xFFF = 0 \<and>
       f1 \<noteq> npf \<and> f1 \<in> U \<and>
       (\<forall>va h. walk m0 va = Some h \<longrightarrow> pd_index va = i \<longrightarrow> pt_index va < 512 \<longrightarrow> kept_page bas n va \<longrightarrow>
          present64 (mem f1 (pt_index va)) \<and> frame64 (mem f1 (pt_index va)) = ucast h))"

lemma table_pair_later:
  assumes "table_pair m0 bas n npf U mem i" "U \<subseteq> U'" "\<forall>g\<in>U. g \<noteq> npf \<longrightarrow> mem' g = mem g"
    and "mem' npf ((i - 768) * 2) = mem npf ((i - 768) * 2)" "mem' npf ((i - 768) * 2 + 1) = mem npf ((i - 768) * 2 + 1)"
  shows "table_pair m0 bas n npf U' mem' i"
proof -
  obtain f1 f2 where f: "mem npf ((i - 768) * 2) = f1 OR 3" "mem npf ((i - 768) * 2 + 1) = f2" "f1 AND 0xFFF = 0" "f2 AND 0xFFF = 0"
      "f1 \<noteq> npf" "f1 \<in> U"
      "\<forall>va h. walk m0 va = Some h \<longrightarrow> pd_index va = i \<longrightarrow> pt_index va < 512 \<longrightarrow> kept_page bas n va \<longrightarrow>
          present64 (mem f1 (pt_index va)) \<and> frame64 (mem f1 (pt_index va)) = ucast h"
    using assms(1) unfolding table_pair_def by blast
  then have "mem' f1 = mem f1"
    using assms(3) by blast
  then show ?thesis
    using f assms(2,4,5) unfolding table_pair_def by (intro exI [of _ f1] exI [of _ f2]) auto
qed

lemma transfer_table_ok:
  assumes sw: "switching m0 bas siz k limit n npd npf c s" and room: "room_for m0 bas siz k limit n" and c: "Suc c < n"
    and i: "768 \<le> i" "i < 1024" "present (pde m0 i)"
  shows "\<exists>s' mem'. transfer_table npd i (s, mem) = Some (Inr (s', mem')) \<and> switching m0 bas siz k limit n npd npf (Suc (Suc c)) s' \<and>
    free_frames (phys_mem (mach s')) \<subseteq> free_frames (phys_mem (mach s)) \<and>
    table_pair m0 bas n npf (free_frames (phys_mem (mach s)) - free_frames (phys_mem (mach s'))) mem' i \<and>
    (\<forall>g. g \<notin> free_frames (phys_mem (mach s)) \<longrightarrow> g \<noteq> npf \<longrightarrow> mem' g = mem g) \<and>
    (\<forall>x. x \<noteq> (i - 768) * 2 \<longrightarrow> x \<noteq> (i - 768) * 2 + 1 \<longrightarrow> mem' npf x = mem npf x) \<and>
    (\<forall>j<c. walk (mach s') (nth_page bas j) = walk (mach s) (nth_page bas j))"
proof -
  let ?e = "(i - 768) * 2"
  have c1: "c < n" using c by simp
  obtain f1 s1 where 1: "transfer_half npd i 0 ?e 3 (s, mem) =
        Some (Inr (s1, (mem(f1 := copied (mach s1) i 0 (mem f1)))(npf := (mem npf)(?e := f1 OR 3))))"
      "switching m0 bas siz k limit n npd npf (Suc c) s1" "f1 \<noteq> npf" "f1 AND 0xFFF = 0" "f1 \<in> free_frames (phys_mem (mach s))"
      "free_frames (phys_mem (mach s1)) = free_frames (phys_mem (mach s)) - {f1}" "\<forall>j<c. walk (mach s1) (nth_page bas j) = walk (mach s) (nth_page bas j)"
    using transfer_half_ok [OF sw room c1 i, of 0 ?e 3 mem] by blast
  let ?m1 = "(mem(f1 := copied (mach s1) i 0 (mem f1)))(npf := (mem npf)(?e := f1 OR 3))"
  obtain f2 s2 where 2: "transfer_half npd i 512 (?e + 1) 0 (s1, ?m1) =
        Some (Inr (s2, (?m1(f2 := copied (mach s2) i 512 (?m1 f2)))(npf := (?m1 npf)(?e + 1 := f2 OR 0))))"
      "switching m0 bas siz k limit n npd npf (Suc (Suc c)) s2" "f2 \<noteq> npf" "f2 AND 0xFFF = 0" "f2 \<in> free_frames (phys_mem (mach s1))"
      "free_frames (phys_mem (mach s2)) = free_frames (phys_mem (mach s1)) - {f2}" "\<forall>j<Suc c. walk (mach s2) (nth_page bas j) = walk (mach s1) (nth_page bas j)"
    using transfer_half_ok [OF 1(2) room c i, of 512 "?e + 1" 0 ?m1] by blast
  let ?m2 = "(?m1(f2 := copied (mach s2) i 512 (?m1 f2)))(npf := (?m1 npf)(?e + 1 := f2 OR 0))"
  have pres: "present (pde (mach s) i)"
    using switchingD(3) [OF sw] i(3) by simp
  have run: "transfer_table npd i (s, mem) = Some (Inr (s2, ?m2))"
    using pres 1(1) 2(1) by (simp add: transfer_table_def)
  have f12: "f1 \<noteq> f2" "f1 \<notin> free_frames (phys_mem (mach s2))"
    using 1(6) 2(5,6) by auto
  have first: "?m2 f1 = copied (mach s1) i 0 (mem f1)"
    using f12(1) 1(3) by simp
  have "present64 (?m2 f1 (pt_index va)) \<and> frame64 (?m2 f1 (pt_index va)) = ucast h"
    if va: "walk m0 va = Some h" "pd_index va = i" "pt_index va < 512" "kept_page bas n va" for va h
  proof -
    have "walk (mach s1) va = Some h"
      using switchingD(5) [OF 1(2)] va(1,4) by simp
    then show ?thesis
      using copied_resolves [of "mach s1" va h i "pt_index va" 0 "mem f1"] va(2,3) unfolding first by simp
  qed
  then have "table_pair m0 bas n npf (free_frames (phys_mem (mach s)) - free_frames (phys_mem (mach s2))) ?m2 i"
    using 1(3-5) 2(4) f12(2) unfolding table_pair_def by (intro exI [of _ f1] exI [of _ f2]) simp
  moreover have "?m2 g = mem g" if "g \<notin> free_frames (phys_mem (mach s))" "g \<noteq> npf" for g
    using that 1(5,6) 2(5) by auto
  moreover have "?m2 npf x = mem npf x" if "x \<noteq> ?e" "x \<noteq> ?e + 1" for x
    using that by simp
  moreover have "free_frames (phys_mem (mach s2)) \<subseteq> free_frames (phys_mem (mach s))"
    using 1(6) 2(6) by auto
  moreover have "\<forall>j<c. walk (mach s2) (nth_page bas j) = walk (mach s) (nth_page bas j)"
    using 1(7) 2(7) by simp
  ultimately show ?thesis
    using run 2(2) by blast
qed

lemma transfer_loop_ok:
  assumes "switching m0 bas siz k limit n npd npf c s" "room_for m0 bas siz k limit n"
    and "c + 2 * length (filter (\<lambda>i. present (pde m0 i)) is) \<le> n" "distinct is" "set is \<subseteq> {768..<1024}"
  shows "\<exists>s' mem'. transfer_loop npd is (s, mem) = Some (Inr (s', mem')) \<and>
    switching m0 bas siz k limit n npd npf (c + 2 * length (filter (\<lambda>i. present (pde m0 i)) is)) s' \<and>
    free_frames (phys_mem (mach s')) \<subseteq> free_frames (phys_mem (mach s)) \<and>
    (\<forall>i\<in>set is. present (pde m0 i) \<longrightarrow> table_pair m0 bas n npf (free_frames (phys_mem (mach s)) - free_frames (phys_mem (mach s'))) mem' i) \<and>
    (\<forall>g. g \<notin> free_frames (phys_mem (mach s)) \<longrightarrow> g \<noteq> npf \<longrightarrow> mem' g = mem g) \<and>
    (\<forall>x. (\<forall>i\<in>set is. x \<noteq> (i - 768) * 2 \<and> x \<noteq> (i - 768) * 2 + 1) \<longrightarrow> mem' npf x = mem npf x) \<and>
    (\<forall>j<c. walk (mach s') (nth_page bas j) = walk (mach s) (nth_page bas j))"
  using assms
proof (induction "is" arbitrary: s mem c)
  case (Cons i "is")
  let ?free = "\<lambda>s. free_frames (phys_mem (mach s))"
  have i: "768 \<le> i" "i < 1024" "i \<notin> set is" "distinct is" "set is \<subseteq> {768..<1024}"
    using Cons.prems(4,5) by auto
  obtain s1 mem1 c1 where 1: "transfer_table npd i (s, mem) = Some (Inr (s1, mem1))" "switching m0 bas siz k limit n npd npf c1 s1"
      "?free s1 \<subseteq> ?free s" "present (pde m0 i) \<longrightarrow> table_pair m0 bas n npf (?free s - ?free s1) mem1 i"
      "\<forall>g. g \<notin> ?free s \<longrightarrow> g \<noteq> npf \<longrightarrow> mem1 g = mem g"
      "\<forall>x. x \<noteq> (i - 768) * 2 \<longrightarrow> x \<noteq> (i - 768) * 2 + 1 \<longrightarrow> mem1 npf x = mem npf x"
      "c1 + 2 * length (filter (\<lambda>i. present (pde m0 i)) is) \<le> n" "c1 = c + (if present (pde m0 i) then 2 else 0)"
      "\<forall>j<c. walk (mach s1) (nth_page bas j) = walk (mach s) (nth_page bas j)"
  proof (cases "present (pde m0 i)")
    case True
    have "Suc c < n"
      using Cons.prems(3) True by simp
    then obtain s1 mem1 where t: "transfer_table npd i (s, mem) = Some (Inr (s1, mem1))" "switching m0 bas siz k limit n npd npf (Suc (Suc c)) s1"
        "?free s1 \<subseteq> ?free s" "table_pair m0 bas n npf (?free s - ?free s1) mem1 i"
        "\<forall>g. g \<notin> ?free s \<longrightarrow> g \<noteq> npf \<longrightarrow> mem1 g = mem g"
        "\<forall>x. x \<noteq> (i - 768) * 2 \<longrightarrow> x \<noteq> (i - 768) * 2 + 1 \<longrightarrow> mem1 npf x = mem npf x"
        "\<forall>j<c. walk (mach s1) (nth_page bas j) = walk (mach s) (nth_page bas j)"
      using transfer_table_ok [OF Cons.prems(1,2) _ i(1,2) True, of mem] by blast
    have "Suc (Suc c) + 2 * length (filter (\<lambda>i. present (pde m0 i)) is) \<le> n" "Suc (Suc c) = c + (if present (pde m0 i) then 2 else 0)"
      using Cons.prems(3) True by simp_all
    then show ?thesis
      by (intro that [of s1 mem1 "Suc (Suc c)"] t impI)
  next
    case False
    have "pde (mach s) = pde m0"
      using switchingD(3) [OF Cons.prems(1)] .
    then show ?thesis
      using that [of s mem c] Cons.prems(1,3) False by (simp add: transfer_table_def)
  qed
  obtain s2 mem2 where 2: "transfer_loop npd is (s1, mem1) = Some (Inr (s2, mem2))"
      "switching m0 bas siz k limit n npd npf (c1 + 2 * length (filter (\<lambda>i. present (pde m0 i)) is)) s2"
      "?free s2 \<subseteq> ?free s1" "\<forall>i\<in>set is. present (pde m0 i) \<longrightarrow> table_pair m0 bas n npf (?free s1 - ?free s2) mem2 i"
      "\<forall>g. g \<notin> ?free s1 \<longrightarrow> g \<noteq> npf \<longrightarrow> mem2 g = mem1 g"
      "\<forall>x. (\<forall>i\<in>set is. x \<noteq> (i - 768) * 2 \<and> x \<noteq> (i - 768) * 2 + 1) \<longrightarrow> mem2 npf x = mem1 npf x"
      "\<forall>j<c1. walk (mach s2) (nth_page bas j) = walk (mach s1) (nth_page bas j)"
    using Cons.IH [OF 1(2) Cons.prems(2) 1(7) i(4,5), of mem1] by blast
  have other: "(i - 768) * 2 \<noteq> (j - 768) * 2 \<and> (i - 768) * 2 \<noteq> (j - 768) * 2 + 1 \<and>
      (i - 768) * 2 + 1 \<noteq> (j - 768) * 2 \<and> (i - 768) * 2 + 1 \<noteq> (j - 768) * 2 + 1" if "j \<in> set is" for j
  proof -
    have "j \<noteq> i" "768 \<le> j"
      using that i(3,5) by auto
    then show ?thesis
      using i(1) by presburger
  qed
  have mono: "?free s - ?free s1 \<subseteq> ?free s - ?free s2" "?free s1 - ?free s2 \<subseteq> ?free s - ?free s2"
    using 1(3) 2(3) by blast+
  have "table_pair m0 bas n npf (?free s - ?free s2) mem2 j" if "j \<in> set is" "present (pde m0 j)" for j
    using 2(4) that table_pair_later [OF _ mono(2), of m0 bas n npf mem2 j mem2] by blast
  moreover have "table_pair m0 bas n npf (?free s - ?free s2) mem2 i" if p: "present (pde m0 i)"
  proof (rule table_pair_later)
    show "table_pair m0 bas n npf (?free s - ?free s1) mem1 i"
      using 1(4) p by blast
    show "?free s - ?free s1 \<subseteq> ?free s - ?free s2" "\<forall>g\<in>?free s - ?free s1. g \<noteq> npf \<longrightarrow> mem2 g = mem1 g"
      using mono(1) 2(5) by blast+
    show "mem2 npf ((i - 768) * 2) = mem1 npf ((i - 768) * 2)" "mem2 npf ((i - 768) * 2 + 1) = mem1 npf ((i - 768) * 2 + 1)"
      using 2(6) other by blast+
  qed
  moreover have "mem2 g = mem g" if "g \<notin> ?free s" "g \<noteq> npf" for g
    using that 1(3,5) 2(5) by (metis subsetD)
  moreover have "mem2 npf x = mem npf x" if "\<forall>j\<in>set (i # is). x \<noteq> (j - 768) * 2 \<and> x \<noteq> (j - 768) * 2 + 1" for x
    using that 1(6) 2(6) by simp
  moreover have "\<forall>j<c. walk (mach s2) (nth_page bas j) = walk (mach s) (nth_page bas j)"
    using 1(8,9) 2(7) by simp
  moreover have "c1 + 2 * length (filter (\<lambda>i. present (pde m0 i)) is) = c + 2 * length (filter (\<lambda>i. present (pde m0 i)) (i # is))"
    using 1(8) by simp
  ultimately show ?case
    using 1(1,3) 2(1-3) by (intro exI [of _ s2] exI [of _ mem2]) auto
qed auto

text \<open>The indices of a kernel address in the two structures.\<close>

lemma kernel_indices:
  assumes "768 \<le> pd_index va"
  shows "pdpt_index va = 3" "pae_pd_index va = (pd_index va - 768) * 2 + pt_index va div 512" "pae_pt_index va = pt_index va mod 512"
proof -
  let ?i = "pd_index va" and ?t = "pt_index va"
  have eq: "?i * 1024 + ?t = pdpt_index va * 262144 + pae_pd_index va * 512 + pae_pt_index va"
    using page_indices [of va] page_indices64 [of va] by simp
  have lt: "?i < 1024" "?t < 1024" "pdpt_index va < 4" "pae_pd_index va < 512" "pae_pt_index va < 512"
    using pd_index_less pt_index_less pae_indices_less by simp_all
  show p: "pdpt_index va = 3"
    using eq lt assms by linarith
  have "(?i - 768) * 1024 + ?t = pae_pd_index va * 512 + pae_pt_index va"
    using eq p assms by simp
  moreover have "(pae_pd_index va * 512 + pae_pt_index va) div 512 = pae_pd_index va" "(pae_pd_index va * 512 + pae_pt_index va) mod 512 = pae_pt_index va"
    using lt by simp_all
  moreover have "((?i - 768) * 1024 + ?t) div 512 = (?i - 768) * 2 + ?t div 512" "((?i - 768) * 1024 + ?t) mod 512 = ?t mod 512"
  proof -
    have "(?i - 768) * 1024 + ?t = ?t + ((?i - 768) * 2) * 512"
      by simp
    then show "((?i - 768) * 1024 + ?t) div 512 = (?i - 768) * 2 + ?t div 512" "((?i - 768) * 1024 + ?t) mod 512 = ?t mod 512"
      by (simp_all only: div_mult_self1 mod_mult_self1)
  qed
  ultimately show "pae_pd_index va = (?i - 768) * 2 + ?t div 512" "pae_pt_index va = ?t mod 512"
    by metis+
qed

definition pages_needed :: "paging \<Rightarrow> nat" where
  "pages_needed m = 1 + 2 * length (filter (\<lambda>i. present (pde m i)) [768..<1024])"

lemma table_pair_walk:
  assumes pair: "table_pair m0 bas n f U mem i" and va: "pd_index va = i" "768 \<le> i" "walk m0 va = Some h" "kept_page bas n va"
    and m: "present64 (pdpt m 3)" "frame64 (pdpt m 3) = f" "tables64 m f ((i - 768) * 2) = mem f ((i - 768) * 2)"
      "tables64 m f ((i - 768) * 2 + 1) = mem f ((i - 768) * 2 + 1)" "\<forall>g\<in>U. g \<noteq> f \<longrightarrow> tables64 m g = mem g"
  shows "pae_walk m va = (if pt_index va < 512 then Some (ucast h) else None)"
proof -
  obtain f1 f2 where f: "mem f ((i - 768) * 2) = f1 OR 3" "mem f ((i - 768) * 2 + 1) = f2" "f1 AND 0xFFF = 0" "f2 AND 0xFFF = 0"
      "f1 \<noteq> f" "f1 \<in> U" "pt_index va < 512 \<longrightarrow> present64 (mem f1 (pt_index va)) \<and> frame64 (mem f1 (pt_index va)) = ucast h"
    using pair va(1,3,4) unfolding table_pair_def by blast
  have e1: "frame64 (f1 OR 3) = f1" "present64 (f1 OR 3)"
    using frame64_mapped [of f1 3] f(3) by simp_all
  have "f2 AND 1 = (f2 AND 0xFFF) AND 1"
    by (simp add: and.assoc)
  then have e2: "\<not> present64 f2"
    using f(4) by (simp add: present64_def)
  have ix: "pdpt_index va = 3" "pae_pd_index va = (i - 768) * 2 + pt_index va div 512" "pae_pt_index va = pt_index va mod 512"
    using kernel_indices [of va] va(1,2) by simp_all
  show ?thesis
  proof (cases "pt_index va < 512")
    case True
    then show ?thesis
      using ix f e1 m by (simp add: pae_walk_def pae_pd_def Let_def)
  next
    case False
    then have "pt_index va div 512 = 1"
      using pt_index_less [of va] by simp
    then show ?thesis
      using ix f(2) e2 m False by (simp add: pae_walk_def pae_pd_def Let_def)
  qed
qed

lemma transfer_ok:
  assumes pg: "paged m0 bas siz k limit n c s" and room: "room_for m0 bas siz k limit n" and n: "c + pages_needed m0 \<le> n"
  shows "\<exists>f s' mem'. transfer_pages_to_pae s mem = Some (Inr (f, s', mem')) \<and> paged m0 bas siz k limit n (c + pages_needed m0) s' \<and>
    f \<in> free_frames (phys_mem (mach s)) \<and> free_frames (phys_mem (mach s')) \<subseteq> free_frames (phys_mem (mach s)) - {f} \<and>
    (\<forall>g. g \<notin> free_frames (phys_mem (mach s)) \<longrightarrow> mem' g = mem g) \<and>
    (\<forall>j<c. walk (mach s') (nth_page bas j) = walk (mach s) (nth_page bas j)) \<and>
    (\<forall>i. 768 \<le> i \<longrightarrow> i < 1023 \<longrightarrow> present (pde m0 i) \<longrightarrow>
       table_pair m0 bas n f (free_frames (phys_mem (mach s)) - free_frames (phys_mem (mach s'))) mem' i)"
proof -
  let ?free = "\<lambda>s. free_frames (phys_mem (mach s))" and ?b = "nth_page bas c"
  obtain ixs :: "nat list" where ixs: "ixs = [768..<1024]" "distinct ixs" "set ixs = {768..<1024}"
    using distinct_upt set_upt by blast
  have cnt: "Suc c + 2 * length (filter (\<lambda>i. present (pde m0 i)) ixs) \<le> n"
    using n unfolding pages_needed_def ixs(1) by linarith
  have cnt': "c + pages_needed m0 = Suc c + 2 * length (filter (\<lambda>i. present (pde m0 i)) ixs)"
    unfolding pages_needed_def ixs(1) by linarith
  from cnt have c: "c < n"
    by simp
  obtain f st m1 where p: "new_page s = Some (Inr ((f, ?b), s\<lparr>region_nodes := st, mach := m1\<rparr>))"
      "paged m0 bas siz k limit n (Suc c) (s\<lparr>region_nodes := st, mach := m1\<rparr>)" "f \<in> ?free s" "free_frames (phys_mem m1) = ?free s - {f}"
      "ucast (ucast f :: u32) = f" "f AND 0xFFF = 0" "walk m1 ?b = Some (ucast f)"
      "\<And>va. page_of va \<noteq> page_of ?b \<Longrightarrow> walk m1 va = walk (mach s) va"
    using next_page_ok [OF pg room c] by blast
  let ?s1 = "s\<lparr>region_nodes := st, mach := m1\<rparr>"
  have sw: "switching m0 bas siz k limit n ?b f (Suc c) ?s1"
    using p(2,4-7) unfolding switching_def by auto
  obtain s2 mem2 where 2: "transfer_loop ?b ixs (?s1, mem) = Some (Inr (s2, mem2))" "switching m0 bas siz k limit n ?b f (c + pages_needed m0) s2"
      "?free s2 \<subseteq> ?free ?s1" "\<forall>i\<in>set ixs. present (pde m0 i) \<longrightarrow> table_pair m0 bas n f (?free ?s1 - ?free s2) mem2 i"
      "\<forall>g. g \<notin> ?free ?s1 \<longrightarrow> g \<noteq> f \<longrightarrow> mem2 g = mem g"
      "\<forall>j<Suc c. walk (mach s2) (nth_page bas j) = walk (mach ?s1) (nth_page bas j)"
    using transfer_loop_ok [OF sw room cnt ixs(2) equalityD1 [OF ixs(3)], of mem] unfolding cnt' by blast
  let ?mem = "mem2(f := (mem2 f)(511 := f OR 1))"
  have run: "transfer_pages_to_pae s mem = Some (Inr (f, s2, ?mem))"
    using p(1,5) 2(1) switchingD(4) [OF 2(2)] unfolding transfer_pages_to_pae_def ixs(1) [symmetric] by (simp add: store64_def)
  have "table_pair m0 bas n f (?free s - ?free s2) ?mem i" if i: "768 \<le> i" "i < 1023" "present (pde m0 i)" for i
  proof (rule table_pair_later)
    show "table_pair m0 bas n f (?free ?s1 - ?free s2) mem2 i"
      using 2(4) i ixs(3) by simp
    have "(i - 768) * 2 \<noteq> 511" "(i - 768) * 2 + 1 \<noteq> 511"
      using i(1,2) by presburger+
    then show "?mem f ((i - 768) * 2) = mem2 f ((i - 768) * 2)" "?mem f ((i - 768) * 2 + 1) = mem2 f ((i - 768) * 2 + 1)"
      by simp_all
  qed (use p(4) in auto)
  moreover have "?mem g = mem g" if "g \<notin> ?free s" for g
    using that 2(5) p(3,4) by auto
  moreover have "?free s2 \<subseteq> ?free s - {f}"
    using 2(3) p(4) by auto
  moreover have "walk (mach s2) (nth_page bas j) = walk (mach s) (nth_page bas j)" if "j < c" for j
    using 2(6) p(8) room_pages_apart [OF room, of j c] that c by simp
  ultimately show ?thesis
    using run switchingD(1) [OF 2(2)] p(3) by (intro exI [of _ f] exI [of _ s2] exI [of _ ?mem]) simp
qed

text \<open>
  C12. The switch to three-level tables. With enough free frames and room in the kernel's space for the new
  tables, \<open>transfer_pages_to_pae\<close> returns a page directory, and the old structure still resolves every page
  outside the new ones as before. A processor whose fourth pointer entry is this directory resolves a kernel
  page of the old structure to the same frame when it lies in the lower 2 MiB of its 4 MiB table, and
  does not resolve it at all when it lies in the upper 2 MiB: the second table is entered without the
  present bit.
\<close>

theorem transfer_keeps_half:
  fixes s :: "paging vm"
  assumes inv: "paging_inv (mach s)" and lone: "lone_region (space s (kernel_vmm s)) (region_nodes s) bas siz k limit"
    and room: "room_for (mach s) bas siz k limit n" and n: "pages_needed (mach s) \<le> n" "n \<le> card (free_frames (phys_mem (mach s)))"
  shows "\<exists>f s' mem'. transfer_pages_to_pae s mem = Some (Inr (f, s', mem')) \<and> paging_inv (mach s') \<and>
    (\<forall>va. kept_page bas n va \<longrightarrow> walk (mach s') va = walk (mach s) va) \<and>
    (\<forall>m va h. pdpt m 3 = f OR 1 \<longrightarrow> tables64 m = mem' \<longrightarrow> 0xC0000000 \<le> va \<longrightarrow> pd_index va \<noteq> 1023 \<longrightarrow>
       kept_page bas n va \<longrightarrow> walk (mach s) va = Some h \<longrightarrow>
       pae_walk m va = (if pt_index va < 512 then Some (ucast h) else None))"
proof -
  have pg: "paged (mach s) bas siz k limit n 0 s" and n0: "0 + pages_needed (mach s) \<le> n"
    using paged_0 [OF inv lone n(2)] n(1) by simp_all
  obtain f s' mem' where t: "transfer_pages_to_pae s mem = Some (Inr (f, s', mem'))"
      "paged (mach s) bas siz k limit n (0 + pages_needed (mach s)) s'"
      "f \<in> free_frames (phys_mem (mach s))"
      "\<forall>i. 768 \<le> i \<longrightarrow> i < 1023 \<longrightarrow> present (pde (mach s) i) \<longrightarrow>
        table_pair (mach s) bas n f (free_frames (phys_mem (mach s)) - free_frames (phys_mem (mach s'))) mem' i"
    using transfer_ok [OF pg room n0, of mem] by blast
  have "f AND 0xFFF = 0"
    using free_frame_range(2) [OF t(3)] by (simp add: low_bits64)
  then have f: "present64 (f OR 1)" "frame64 (f OR 1) = f"
    using frame64_mapped [of f 1] by simp_all
  have "pae_walk m va = (if pt_index va < 512 then Some (ucast h) else None)"
    if m: "pdpt m 3 = f OR 1" "tables64 m = mem'" and va: "0xC0000000 \<le> va" "pd_index va \<noteq> 1023" "kept_page bas n va"
      "walk (mach s) va = Some h" for m va h
  proof -
    have i: "768 \<le> pd_index va" "pd_index va < 1023" "present (pde (mach s) (pd_index va))"
      using va(1,2,4) pd_index_less [of va] by (auto simp: pd_index_nat word_le_nat_alt walk_def Let_def split: if_splits)
    have "table_pair (mach s) bas n f (free_frames (phys_mem (mach s)) - free_frames (phys_mem (mach s'))) mem' (pd_index va)"
      using t(4) i by blast
    then show ?thesis
      by (rule table_pair_walk) (use va i m f in simp_all)
  qed
  then show ?thesis
    using t(1,2) unfolding paged_def by blast
qed

lemma lone_resize:
  assumes "lone_region v st b z k limit" "0 < k" "root v = slot v 0"
  shows "lone_region v (st(root v := (st (root v))\<lparr>rb_base := b', rb_size := z'\<rparr>)) b' z' k limit"
proof -
  have "slot v j \<noteq> root v" if "k \<le> j" "j < limit" for j
    using that assms slot_eq [of j 0 v] by (simp add: lone_region_def)
  then show ?thesis
    using assms(1) by (auto simp: lone_region_def free_slot_def)
qed

definition demo_old :: "paging vm" where
  "demo_old = \<lparr>space = (\<lambda>_. demo_vmm), region_nodes = demo_store(160 := (demo_store 160)\<lparr>rb_base := 0xC0100000, rb_size := 0x10000\<rparr>),
     kernel_vmm = 64, current_vmm = 0, mach = demo_paging\<rparr>"

lemma demo_old_lone: "lone_region (space demo_old (kernel_vmm demo_old)) (region_nodes demo_old) 0xC0100000 0x10000 1 125"
  using lone_resize [of demo_vmm demo_store "0x100000" "0x8000" 1 125 "0x10000" "0xC0100000"] demo_lone
  by (simp add: demo_space_def demo_old_def) (simp add: demo_vmm_def slot_def)

lemma demo_old_mach: "mach demo_old = demo_paging"
  by (simp add: demo_old_def)

lemma demo_old_frames: "10 \<le> card (free_frames (phys_mem (mach demo_old)))"
proof -
  have t: "taken (phys_mem demo_paging) = {}"
    by (auto simp: mem_taken demo_paging_def)
  show ?thesis
    using free_frames_all(1) [OF t] demo_old_mach by simp
qed

lemma demo_old_need: "pages_needed (mach demo_old) = 5"
proof -
  have "filter (\<lambda>i. present (pde demo_paging i)) [768..<1024] = filter (\<lambda>i. i = 768 \<or> i = 1023) [768..<1024]"
    by (rule filter_cong) (auto simp: pde_def demo_paging_def present_def frame_of_def)
  also have "length \<dots> = card {i \<in> {768..<1024}. i = 768 \<or> i = (1023 :: nat)}"
    by (subst distinct_card [symmetric]) (simp_all only: distinct_filter distinct_upt set_filter set_upt)
  also have "{i \<in> {768..<1024}. i = 768 \<or> i = 1023} = {768, 1023 :: nat}"
    by auto
  finally show ?thesis
    unfolding pages_needed_def demo_old_mach by simp
qed

lemma demo_old_page: "i < 10 \<Longrightarrow> unat (nth_page 0xC0100000 i) = 0xC0100000 + 4096 * i"
proof -
  assume i: "i < 10"
  have "unat (of_nat (4096 * i) :: u32) = 4096 * i"
    using i by (intro unat_page) simp
  then show ?thesis
    unfolding nth_page_def using i by (simp only: unat_word_ariths) simp
qed

lemma demo_old_room: "n \<le> 10 \<Longrightarrow> room_for (mach demo_old) 0xC0100000 0x10000 1 125 n"
  unfolding room_for_def demo_old_mach
  by (auto simp: demo_old_page pd_index_nat pde_def demo_paging_def present_def frame_of_def less_mult_imp_div_less div_nat_eqI)

lemma demo_old_kept:
  assumes "n \<le> 10" "unat va div 4096 < 0xC0100 \<or> 0xC010A \<le> unat va div 4096"
  shows "kept_page 0xC0100000 n va"
  using assms unfolding kept_page_def by (auto simp: page_of_def demo_old_page)

text \<open>A page of the lower half is kept, one of the upper half is lost.\<close>

theorem transfer_keeps_half_witness:
  "\<exists>f s' mem' m. transfer_pages_to_pae demo_old (\<lambda>_ _. 0) = Some (Inr (f, s', mem')) \<and> m = demo_pae\<lparr>pdpt := \<lambda>_. f OR 1, tables64 := mem'\<rparr> \<and>
     walk demo_paging 0xC0005000 = Some 0x7000 \<and> pae_walk m 0xC0005000 = Some 0x7000 \<and>
     walk demo_paging 0xC0258000 = Some 0x8000 \<and> pae_walk m 0xC0258000 = None"
proof -
  note mach = demo_old_mach
  have ten: "(5 :: nat) \<le> 10"
    by simp
  have kept: "kept_page 0xC0100000 5 0xC0005000" "kept_page 0xC0100000 5 0xC0258000"
    by (simp_all add: demo_old_kept)
  have five: "pages_needed (mach demo_old) \<le> 5" "5 \<le> card (free_frames (phys_mem (mach demo_old)))"
    using demo_old_need demo_old_frames by simp_all
  have w: "walk demo_paging 0xC0005000 = Some 0x7000" "walk demo_paging 0xC0258000 = Some 0x8000"
    by (simp_all add: walk_def pd_index_nat pt_index_nat pde_def demo_paging_def present_def frame_of_def)
  have ix: "pd_index 0xC0005000 \<noteq> 1023" "pd_index 0xC0258000 \<noteq> 1023" "pt_index 0xC0005000 < 512" "\<not> pt_index 0xC0258000 < 512"
    by (simp_all add: pd_index_nat pt_index_nat)
  obtain f s' mem' where r: "transfer_pages_to_pae demo_old (\<lambda>_ _. 0) = Some (Inr (f, s', mem'))"
      "\<forall>m va h. pdpt m 3 = f OR 1 \<longrightarrow> tables64 m = mem' \<longrightarrow> 0xC0000000 \<le> va \<longrightarrow> pd_index va \<noteq> 1023 \<longrightarrow>
         kept_page 0xC0100000 5 va \<longrightarrow> walk demo_paging va = Some h \<longrightarrow>
         pae_walk m va = (if pt_index va < 512 then Some (ucast h) else None)"
    using transfer_keeps_half [OF _ demo_old_lone demo_old_room [OF ten] five, of "\<lambda>_ _. 0"] demo_paging_inv unfolding mach by blast
  let ?m = "demo_pae\<lparr>pdpt := \<lambda>_. f OR 1, tables64 := mem'\<rparr>"
  have m: "pdpt ?m 3 = f OR 1" "tables64 ?m = mem'"
    by simp_all
  have "pae_walk ?m 0xC0005000 = Some 0x7000" "pae_walk ?m 0xC0258000 = None"
    using r(2) [rule_format, OF m _ ix(1) kept(1) w(1)] r(2) [rule_format, OF m _ ix(2) kept(2) w(2)] ix(3,4) by simp_all
  then show ?thesis
    using r(1) w by blast
qed

end
