(* ===== verification/Pae_Init.thy ===== *)
theory Pae_Init
  imports Pae_Switch
begin

text \<open>
  The tables that \<open>init_pae\<close> leaves to the instructions that change the mode: the kernel's pages in the
  fourth gigabyte, and the pages around the running code at their physical addresses, where the
  processor goes on while paging is off.
\<close>

section \<open>The identity mapping\<close>

lemma three_pages:
  assumes pg: "paged m0 bas siz k limit n 0 s" and room: "room_for m0 bas siz k limit n" and n: "3 \<le> n"
  obtains a b c s1 s2 s3 where "new_page s = Some (Inr ((a, nth_page bas 0), s1))" "new_page s1 = Some (Inr ((b, nth_page bas 1), s2))"
    "new_page s2 = Some (Inr ((c, nth_page bas 2), s3))" "paged m0 bas siz k limit n 3 s3" "distinct [a, b, c]"
    "{a, b, c} \<inter> free_frames (phys_mem (mach s3)) = {}"
    "\<forall>f\<in>{a, b, c}. ucast (ucast f :: u32) = f \<and> f AND 0xFFF = 0 \<and> f \<in> free_frames (phys_mem (mach s))"
    "walk (mach s3) (nth_page bas 0) = Some (ucast a)" "walk (mach s3) (nth_page bas 1) = Some (ucast b)"
    "walk (mach s3) (nth_page bas 2) = Some (ucast c)"
proof -
  let ?free = "\<lambda>s. free_frames (phys_mem (mach s))" and ?p = "nth_page bas"
  have lt: "0 < n" "1 < n" "2 < n"
    using n by simp_all
  obtain a st1 m1 where 1: "new_page s = Some (Inr ((a, ?p 0), s\<lparr>region_nodes := st1, mach := m1\<rparr>))"
      "paged m0 bas siz k limit n (Suc 0) (s\<lparr>region_nodes := st1, mach := m1\<rparr>)" "a \<in> ?free s" "free_frames (phys_mem m1) = ?free s - {a}"
      "ucast (ucast a :: u32) = a" "a AND 0xFFF = 0" "walk m1 (?p 0) = Some (ucast a)"
    using next_page_ok [OF pg room lt(1)] by blast
  define s1 where "s1 = s\<lparr>region_nodes := st1, mach := m1\<rparr>"
  have p1: "paged m0 bas siz k limit n 1 s1" "mach s1 = m1"
    using 1(2) by (simp_all add: s1_def)
  obtain b st2 m2 where 2: "new_page s1 = Some (Inr ((b, ?p 1), s1\<lparr>region_nodes := st2, mach := m2\<rparr>))"
      "paged m0 bas siz k limit n (Suc 1) (s1\<lparr>region_nodes := st2, mach := m2\<rparr>)" "b \<in> ?free s1" "free_frames (phys_mem m2) = ?free s1 - {b}"
      "ucast (ucast b :: u32) = b" "b AND 0xFFF = 0" "walk m2 (?p 1) = Some (ucast b)"
      "\<And>va. page_of va \<noteq> page_of (?p 1) \<Longrightarrow> walk m2 va = walk (mach s1) va"
    using next_page_ok [OF p1(1) room lt(2)] by blast
  define s2 where "s2 = s1\<lparr>region_nodes := st2, mach := m2\<rparr>"
  have p2: "paged m0 bas siz k limit n 2 s2" "mach s2 = m2"
    using 2(2) by (simp_all add: s2_def numeral_2_eq_2)
  obtain c st3 m3 where 3: "new_page s2 = Some (Inr ((c, ?p 2), s2\<lparr>region_nodes := st3, mach := m3\<rparr>))"
      "paged m0 bas siz k limit n (Suc 2) (s2\<lparr>region_nodes := st3, mach := m3\<rparr>)" "c \<in> ?free s2" "free_frames (phys_mem m3) = ?free s2 - {c}"
      "ucast (ucast c :: u32) = c" "c AND 0xFFF = 0" "walk m3 (?p 2) = Some (ucast c)"
      "\<And>va. page_of va \<noteq> page_of (?p 2) \<Longrightarrow> walk m3 va = walk (mach s2) va"
    using next_page_ok [OF p2(1) room lt(3)] by blast
  define s3 where "s3 = s2\<lparr>region_nodes := st3, mach := m3\<rparr>"
  have p3: "paged m0 bas siz k limit n 3 s3" "mach s3 = m3"
    using 3(2) by (simp_all add: s3_def numeral_3_eq_3 numeral_2_eq_2)
  have apart: "page_of (?p 0) \<noteq> page_of (?p 1)" "page_of (?p 0) \<noteq> page_of (?p 2)" "page_of (?p 1) \<noteq> page_of (?p 2)"
    using room_pages_apart [OF room, of 0 1] room_pages_apart [OF room, of 0 2] room_pages_apart [OF room, of 1 2] lt by simp_all
  have "walk m3 (?p 0) = Some (ucast a)" "walk m3 (?p 1) = Some (ucast b)"
    using 1(7) 2(7,8) 3(8) apart p1(2) p2(2) by simp_all
  moreover have "distinct [a, b, c]" "{a, b, c} \<inter> ?free s3 = {}" "a \<in> ?free s" "b \<in> ?free s" "c \<in> ?free s"
    using 1(3,4) 2(3,4) 3(3,4) p1(2) p2(2) p3(2) by auto
  moreover from this have "\<forall>f\<in>{a, b, c}. ucast (ucast f :: u32) = f \<and> f AND 0xFFF = 0 \<and> f \<in> ?free s"
    using 1(5,6) 2(5,6) 3(5,6) by blast
  moreover have "new_page s = Some (Inr ((a, ?p 0), s1))" "new_page s1 = Some (Inr ((b, ?p 1), s2))" "new_page s2 = Some (Inr ((c, ?p 2), s3))"
    using 1(1) 2(1) 3(1) unfolding s1_def [symmetric] s2_def [symmetric] s3_def [symmetric] by blast+
  ultimately show thesis
    using 3(7) p3 by (intro that [of a s1 b s2 c s3]) simp_all
qed

lemma split_or: "v OR w = (v AND NOT m) OR ((v AND m) OR w)" for v w m :: u32
  by (rule bit_word_eqI) (auto simp: bit_and_iff bit_or_iff bit_not_iff)

lemma low_or_outside: "((v AND m) OR w) AND NOT m = w AND NOT m" for v w m :: u32
  by (rule bit_word_eqI) (auto simp: bit_and_iff bit_or_iff bit_not_iff)

text \<open>An entry made of an address whose lowest ten bits are 0; the bits above them up to the page size are ignored.\<close>

lemma loose_entry:
  fixes e :: u32
  assumes "e AND 0x3FF = 0"
  shows "e OR 3 = (e AND NOT 0xFFF) OR ((e AND 0xFFF) OR 3)" "(e AND NOT 0xFFF) AND 0xFFF = 0"
    "((e AND 0xFFF) OR 3) AND NOT 0xFFF = 0" "((e AND 0xFFF) OR 3) AND 1 \<noteq> 0" "(e AND NOT 0xFFF) AND 0x3FF = 0"
proof -
  show "e OR 3 = (e AND NOT 0xFFF) OR ((e AND 0xFFF) OR 3)"
    by (rule split_or)
  show "(e AND NOT 0xFFF) AND 0xFFF = 0"
    by (simp add: and.assoc)
  show "((e AND 0xFFF) OR 3) AND NOT 0xFFF = 0"
    unfolding low_or_outside by simp
  show "((e AND 0xFFF) OR 3) AND 1 \<noteq> 0"
    by (simp add: low_bit bit_or_iff bit_1_0 bit_numeral_rec)
  have "(e AND NOT 0xFFF) AND 0x3FF = (e AND 0x3FF) AND NOT 0xFFF"
    by (simp add: ac_simps)
  then show "(e AND NOT 0xFFF) AND 0x3FF = 0"
    using assms by simp
qed

lemma loose_map: "e AND 0x3FF = 0 \<Longrightarrow> memory_map e v 3 m = memory_map (e AND NOT 0xFFF) v ((e AND 0xFFF) OR 3) m"
  using loose_entry(1,5) [of e] unfolding memory_map_def Let_def by (simp split: sum.split)

lemma identity_maps:
  assumes inv: "paging_inv m" and free: "2 \<le> card (free_frames (phys_mem m))"
    and e: "e AND 0x3FF = 0" "pd_index e \<noteq> 1023" "e' AND 0xFFF = 0" "pd_index e' \<noteq> 1023" "page_of e' = page_of e \<longrightarrow> e' = e"
  shows "\<exists>m1 m2. memory_map e e 3 m = Inr m1 \<and> memory_map e' e' 3 m1 = Inr m2 \<and> paging_inv m2 \<and>
    walk m2 e = Some (e AND NOT 0xFFF) \<and> walk m2 e' = Some e' \<and>
    (\<forall>u h. walk m u = Some h \<longrightarrow> pd_index u \<noteq> 1023 \<longrightarrow> page_of u \<noteq> page_of e \<longrightarrow> page_of u \<noteq> page_of e' \<longrightarrow> walk m2 u = Some h)"
proof -
  have "free_frames (phys_mem m) \<noteq> {}"
    using free by auto
  then obtain m1 g where 1: "memory_map e e 3 m = Inr m1" "paging_inv m1" "walk m1 e = Some (e AND NOT 0xFFF)"
      "\<And>u h. walk m u = Some h \<Longrightarrow> pd_index u \<noteq> 1023 \<Longrightarrow> page_of u \<noteq> page_of e \<Longrightarrow> walk m1 u = Some h"
      "free_frames (phys_mem m) - {g} \<subseteq> free_frames (phys_mem m1)"
    using memory_map_unclaimed [OF inv e(2) _ loose_entry(2-4) [OF e(1)]] unfolding loose_map [OF e(1)] by blast
  have "free_frames (phys_mem m1) \<noteq> {}"
  proof
    assume "free_frames (phys_mem m1) = {}"
    then have "free_frames (phys_mem m) \<subseteq> {g}"
      using 1(5) by blast
    then have "card (free_frames (phys_mem m)) \<le> 1"
      using card_mono [of "{g}"] by simp
    then show False
      using free by simp
  qed
  then obtain m2 where 2: "memory_map e' e' 3 m1 = Inr m2" "paging_inv m2" "walk m2 e' = Some e'"
      "\<And>u h. walk m1 u = Some h \<Longrightarrow> pd_index u \<noteq> 1023 \<Longrightarrow> page_of u \<noteq> page_of e' \<Longrightarrow> walk m2 u = Some h"
    using memory_map_unclaimed [OF 1(2) e(4) _ e(3), of 3] by auto
  have "walk m2 e = Some (e AND NOT 0xFFF)"
  proof (cases "page_of e' = page_of e")
    case True
    then have "e' = e" "e AND NOT 0xFFF = e"
      using e(3,5) split_mask [of e "0xFFF"] by auto
    then show ?thesis
      using 2(3) by simp
  next
    case False
    then show ?thesis
      using 2(4) [OF 1(3) e(2)] by simp
  qed
  then show ?thesis
    using 1(1,4) 2 by (intro exI [of _ m1] exI [of _ m2]) simp
qed

lemma low_bits_1k: "(w :: u32) AND 0xFFF = 0 \<Longrightarrow> w AND 0x3FF = 0"
proof -
  assume "w AND 0xFFF = 0"
  moreover have "w AND 0x3FF = (w AND 0xFFF) AND 0x3FF"
    by (simp add: and.assoc)
  ultimately show ?thesis
    by simp
qed

lemma identity_entry:
  fixes e :: u32
  assumes "e AND 0x3FF = 0"
  shows "present64 (ucast e OR 3)" "frame64 (ucast e OR 3) = ucast (e AND NOT 0xFFF)"
proof -
  have eq: "(ucast e OR 3 :: u64) = ucast (e OR 3)"
    by (simp add: unsigned_or_eq)
  have "frame_of (e OR 3) = e AND NOT 0xFFF" "present (e OR 3)"
    unfolding loose_entry(1) [OF assms] using frame_of_mapped [OF loose_entry(2-4) [OF assms]] by simp_all
  then show "present64 (ucast e OR 3)" "frame64 (ucast e OR 3) = ucast (e AND NOT 0xFFF)"
    unfolding eq by (simp_all add: wide_entry)
qed

text \<open>The two pages around the running code: the page of its address, and the next unless the address is that page's start.\<close>

lemma code_page_facts:
  fixes eip :: u32
  defines "e \<equiv> code_page eip" and "e' \<equiv> BYTE_PGROUNDUP (code_page eip)"
  assumes low: "unat e + 4096 < 2 ^ 32"
  shows "e AND 0x3FF = 0" "e' AND 0xFFF = 0" "page_of e' = page_of e \<longrightarrow> e' = e" "page_of e \<le> page_of e'" "page_of e' \<le> Suc (page_of e)"
proof -
  show "e AND 0x3FF = 0"
    by (simp add: e_def code_page_def and.assoc)
  show al: "e' AND 0xFFF = 0"
    by (simp add: e'_def BYTE_PGROUNDUP_def and.assoc)
  have m: "(4096 - 1 :: u32) = mask 12"
    by (simp add: mask_eq_exp_minus_1)
  have u: "unat e' = (unat e + 4095) div 4096 * 4096"
    using unat_align_up [of e 12] low by (simp add: e_def e'_def BYTE_PGROUNDUP_def m [simplified] mask_eq_exp_minus_1)
  obtain d r where d: "unat e = r + 4096 * d" "r < 4096"
    by (metis mod_less_divisor mod_mult_div_eq zero_less_numeral)
  have "(r + 4096 * d + 4095) div 4096 = (r + 4095) div 4096 + d"
    using div_mult_self2 [of 4096 "r + 4095" d] by (simp add: ac_simps)
  moreover have "(r + 4095) div 4096 = (if r = 0 then 0 else 1)"
    using d(2) by (auto intro: div_nat_eqI)
  ultimately have up: "unat e' = (if r = 0 then 4096 * d else 4096 * Suc d)"
    unfolding u d(1) by simp
  have pages: "page_of e = d" "page_of e' = (if r = 0 then d else Suc d)"
    using d by (simp_all add: page_of_def up)
  then show "page_of e' = page_of e \<longrightarrow> e' = e" "page_of e \<le> page_of e'" "page_of e' \<le> Suc (page_of e)"
    using d(1) by (auto simp: word_unat_eq_iff up)
qed

section \<open>The tables after \<open>init_pae\<close>\<close>

lemma store64_mapped: "walk m va = Some (ucast f) \<Longrightarrow> ucast (ucast f :: u32) = f \<Longrightarrow> store64 m va i v mem = Inr (mem(f := (mem f)(i := v)))"
  by (simp add: store64_def)

lemma directory_entry:
  fixes f :: u64
  assumes "f AND 0xFFF = 0"
  shows "present64 (f OR 1)" "frame64 (f OR 1) = f" "present64 (f OR 3)" "frame64 (f OR 3) = f"
  using frame64_mapped [OF assms, of 1] frame64_mapped [OF assms, of 3] by simp_all

lemma init_pae_ok:
  fixes s :: "paging vm" and eip :: u32
  defines "e \<equiv> code_page eip" and "e' \<equiv> BYTE_PGROUNDUP (code_page eip)"
  assumes pg: "paged m0 bas siz k limit n 0 s" and room: "room_for m0 bas siz k limit n" and n: "5 + pages_needed m0 \<le> n"
    and cpu: "cpu01 AND push_bit 6 1 \<noteq> 0" and low: "unat e + 4096 < 0x40000000" and kept: "kept_page bas n e" "kept_page bas n e'"
  obtains a b c f U pp s' mem' where "init_pae cpu01 cpu808 eip s mem = Some (Inr ((ucast a, pp, cpu808 AND 0xFF), s', mem'))"
    "ucast (ucast a :: u32) = a" "paging_inv (mach s')" "walk (mach s') e = Some (e AND NOT 0xFFF)" "walk (mach s') e' = Some e'"
    "mem' a 0 = b OR 1" "mem' a 3 = f OR 1" "b AND 0xFFF = 0" "c AND 0xFFF = 0" "f AND 0xFFF = 0"
    "pae_pd_index e \<noteq> 511 \<longrightarrow> mem' b (pae_pd_index e) = c OR 3"
    "mem' c (pae_pt_index e) = ucast e OR 3" "mem' c (pae_pt_index e') = ucast e' OR 3"
    "\<forall>i. 768 \<le> i \<longrightarrow> i < 1023 \<longrightarrow> present (pde m0 i) \<longrightarrow> table_pair m0 bas n f U mem' i"
    "\<And>va h. kept_page bas n va \<Longrightarrow> walk m0 va = Some h \<Longrightarrow> pd_index va \<noteq> 1023 \<Longrightarrow> page_of va \<noteq> page_of e \<Longrightarrow> page_of va \<noteq> page_of e' \<Longrightarrow>
      walk (mach s') va = Some h"
proof -
  let ?free = "\<lambda>s. free_frames (phys_mem (mach s))" and ?p = "nth_page bas"
  have n3: "3 \<le> n" "3 + pages_needed m0 \<le> n"
    using n by simp_all
  have w: "unat e + 4096 < 2 ^ 32"
    using low by simp
  note code = code_page_facts [of eip, folded e_def e'_def, OF w]
  obtain a b c s1 s2 s3 where P: "new_page s = Some (Inr ((a, ?p 0), s1))" "new_page s1 = Some (Inr ((b, ?p 1), s2))"
      "new_page s2 = Some (Inr ((c, ?p 2), s3))" "paged m0 bas siz k limit n 3 s3" "distinct [a, b, c]" "{a, b, c} \<inter> ?free s3 = {}"
      "\<forall>f\<in>{a, b, c}. ucast (ucast f :: u32) = f \<and> f AND 0xFFF = 0 \<and> f \<in> ?free s"
      "walk (mach s3) (?p 0) = Some (ucast a)" "walk (mach s3) (?p 1) = Some (ucast b)" "walk (mach s3) (?p 2) = Some (ucast c)"
    by (rule three_pages [OF pg room n3(1)])
  have abc: "ucast (ucast a :: u32) = a" "ucast (ucast b :: u32) = b" "ucast (ucast c :: u32) = c" "b AND 0xFFF = 0" "c AND 0xFFF = 0"
      "a \<noteq> b" "a \<noteq> c" "b \<noteq> c" "a \<notin> ?free s3" "b \<notin> ?free s3" "c \<notin> ?free s3"
    using P(5-7) by auto
  let ?mem1 = "mem(a := (mem a)(0 := b OR 1))"
  obtain f s4 mem2 where T: "transfer_pages_to_pae s3 ?mem1 = Some (Inr (f, s4, mem2))" "paged m0 bas siz k limit n (3 + pages_needed m0) s4"
      "f \<in> ?free s3" "\<forall>g. g \<notin> ?free s3 \<longrightarrow> mem2 g = ?mem1 g" "\<forall>j<3. walk (mach s4) (?p j) = walk (mach s3) (?p j)"
      "\<forall>i. 768 \<le> i \<longrightarrow> i < 1023 \<longrightarrow> present (pde m0 i) \<longrightarrow> table_pair m0 bas n f (?free s3 - ?free s4) mem2 i"
    using transfer_ok [OF P(4) room n3(2), of ?mem1] by blast
  have f: "ucast (ucast f :: u32) = f" "f AND 0xFFF = 0" "f \<noteq> a" "f \<noteq> b" "f \<noteq> c"
    using free_frame_range [OF T(3)] T(3) abc(9-11) by (auto simp: ucast_small low_bits64)
  have inv4: "paging_inv (mach s4)" "2 \<le> card (?free s4)" and keep4: "\<And>va. kept_page bas n va \<Longrightarrow> walk (mach s4) va = walk m0 va"
    using T(2) n unfolding paged_def by auto
  have pd: "pd_index e \<noteq> 1023" "pd_index e' \<noteq> 1023"
  proof -
    have "page_of e < 262144"
      using low by (simp add: page_of_def less_mult_imp_div_less)
    then show "pd_index e \<noteq> 1023" "pd_index e' \<noteq> 1023"
      using code(5) page_indices [of e] page_indices [of e'] by linarith+
  qed
  obtain m5 m6 where M: "memory_map e e 3 (mach s4) = Inr m5" "memory_map e' e' 3 m5 = Inr m6" "paging_inv m6"
      "walk m6 e = Some (e AND NOT 0xFFF)" "walk m6 e' = Some e'"
      "\<And>u h. walk (mach s4) u = Some h \<Longrightarrow> pd_index u \<noteq> 1023 \<Longrightarrow> page_of u \<noteq> page_of e \<Longrightarrow> page_of u \<noteq> page_of e' \<Longrightarrow> walk m6 u = Some h"
    using identity_maps [OF inv4 code(1) pd(1) code(2) pd(2) code(3)] by blast
  have new: "walk (mach s4) (?p 0) = Some (ucast a)" "walk m6 (?p 1) = Some (ucast b)" "walk m6 (?p 2) = Some (ucast c)"
  proof -
    have *: "pd_index (?p j) \<noteq> 1023" "page_of (?p j) \<noteq> page_of e" "page_of (?p j) \<noteq> page_of e'" if "j < 3" for j
      using room kept that n3(1) unfolding room_for_def kept_page_def by (metis order_less_le_trans)+
    show "walk (mach s4) (?p 0) = Some (ucast a)" "walk m6 (?p 1) = Some (ucast b)" "walk m6 (?p 2) = Some (ucast c)"
      using T(5) P(8-10) M(6) [OF _ *, of 1] M(6) [OF _ *, of 2] by simp_all
  qed
  let ?mem3 = "mem2(a := (mem2 a)(3 := f OR 1))"
  define mem4 where "mem4 = ?mem3(c := (?mem3 c)(identity_index e := ucast e OR 3, identity_index e' := ucast e' OR 3),
      b := (?mem3 b)(unat (drop_bit 21 e AND 0x1FF) := c OR 3, 511 := b OR 1))"
  have st1: "store64 (mach s3) (?p 0) 0 (b OR 1) mem = Inr ?mem1"
    by (rule store64_mapped [OF P(8) abc(1)])
  have st3: "store64 (mach s4) (?p 0) 3 (f OR 1) mem2 = Inr ?mem3"
    by (rule store64_mapped [OF new(1) abc(1)])
  have st4: "stores64 [(?p 2, identity_index e, ucast e OR 3), (?p 2, identity_index e', ucast e' OR 3),
      (?p 1, unat (drop_bit 21 e AND 0x1FF), c OR 3), (?p 1, 511, b OR 1)] m6 ?mem3 = Inr mem4"
    unfolding stores64_def mem4_def
    using abc(6-8) by (simp add: store64_mapped [OF new(2) [unfolded One_nat_def] abc(2)] store64_mapped [OF new(3) abc(3)] fun_upd_twist)
  have up: "BYTE_PGROUNDUP e = e'"
    by (simp add: e_def e'_def)
  have run: "init_pae cpu01 cpu808 eip s mem = Some (Inr ((ucast a, ?p 0, cpu808 AND 0xFF), s4\<lparr>mach := m6\<rparr>, mem4))"
    unfolding init_pae_def Let_def e_def [symmetric] up
    using cpu P(1-3) T(1) M(1,2) st1 st3 st4 abc(2) f(1) by simp
  have idx: "identity_index e = pae_pt_index e" "identity_index e' = pae_pt_index e'" "unat (drop_bit 21 e AND 0x1FF) = pae_pd_index e"
    by (simp_all add: identity_index_def pae_pt_index_def pae_pd_index_def)
  have entries: "mem4 a 0 = b OR 1" "mem4 a 3 = f OR 1" "pae_pd_index e \<noteq> 511 \<longrightarrow> mem4 b (pae_pd_index e) = c OR 3"
      "mem4 c (pae_pt_index e) = ucast e OR 3" "mem4 c (pae_pt_index e') = ucast e' OR 3"
  proof -
    have "pae_pt_index e = pae_pt_index e' \<longrightarrow> e' = e"
    proof (rule impI)
      assume "pae_pt_index e = pae_pt_index e'"
      then have "page_of e mod 512 = page_of e' mod 512"
        by (simp add: page_of_def pae_indices_nat)
      then have "page_of e' \<noteq> Suc (page_of e)"
        by (auto simp: mod_Suc split: if_splits)
      then show "e' = e"
        using code(3-5) by linarith
    qed
    then show "mem4 a 0 = b OR 1" "mem4 a 3 = f OR 1" "pae_pd_index e \<noteq> 511 \<longrightarrow> mem4 b (pae_pd_index e) = c OR 3"
      "mem4 c (pae_pt_index e) = ucast e OR 3" "mem4 c (pae_pt_index e') = ucast e' OR 3"
      using abc(6-9) T(4) unfolding mem4_def idx by auto
  qed
  have pair: "table_pair m0 bas n f (?free s3 - ?free s4) mem4 i" if "768 \<le> i" "i < 1023" "present (pde m0 i)" for i
  proof (rule table_pair_later [OF T(6) [rule_format, OF that] subset_refl])
    show "\<forall>g\<in>?free s3 - ?free s4. g \<noteq> f \<longrightarrow> mem4 g = mem2 g"
      using abc(9-11) by (auto simp: mem4_def)
    show "mem4 f ((i - 768) * 2) = mem2 f ((i - 768) * 2)" "mem4 f ((i - 768) * 2 + 1) = mem2 f ((i - 768) * 2 + 1)"
      using f(3-5) by (simp_all add: mem4_def)
  qed
  have keep: "walk m6 va = Some h"
    if "kept_page bas n va" "walk m0 va = Some h" "pd_index va \<noteq> 1023" "page_of va \<noteq> page_of e" "page_of va \<noteq> page_of e'" for va h
    using M(6) [OF _ that(3-5)] keep4 [OF that(1)] that(2) by simp
  have pairs: "\<forall>i. 768 \<le> i \<longrightarrow> i < 1023 \<longrightarrow> present (pde m0 i) \<longrightarrow> table_pair m0 bas n f (?free s3 - ?free s4) mem4 i"
    using pair by blast
  show thesis
    by (rule that [OF run abc(1) _ _ _ entries(1,2) abc(4,5) f(2) entries(3-5) pairs]) (use M(3-5) keep in simp_all)
qed

text \<open>
  C13. The tables for the change of mode. With bit 6 of the first word of \<open>cpuid\<close> set, and frames and
  room for all the tables, \<open>init_pae\<close> comes to its mode switch. A processor that takes the pointer
  table it made resolves kernel addresses as \<open>transfer_keeps_half\<close> says. It resolves the physical
  address of the running code to itself, as the old tables now do too, so execution continues there on both
  sides of the switch; so with the next page, if the two lie in the same 2 MiB.
\<close>

theorem init_pae_tables:
  fixes s :: "paging vm" and eip :: u32
  defines "e \<equiv> code_page eip" and "e' \<equiv> BYTE_PGROUNDUP (code_page eip)"
  assumes inv: "paging_inv (mach s)" and lone: "lone_region (space s (kernel_vmm s)) (region_nodes s) bas siz k limit"
    and room: "room_for (mach s) bas siz k limit n" and n: "5 + pages_needed (mach s) \<le> n" "n \<le> card (free_frames (phys_mem (mach s)))"
    and cpu: "cpu01 AND push_bit 6 1 \<noteq> 0" and low: "unat e + 4096 < 0x3FE00000" and kept: "kept_page bas n e" "kept_page bas n e'"
  shows "\<exists>r s' mem'. init_pae cpu01 cpu808 eip s mem = Some (Inr (r, s', mem')) \<and> paging_inv (mach s') \<and>
    walk (mach s') e = Some (e AND NOT 0xFFF) \<and> walk (mach s') e' = Some e' \<and>
    (\<forall>m. (\<forall>p<4. pdpt m p = mem' (ucast (fst r)) p) \<longrightarrow> tables64 m = mem' \<longrightarrow>
       pae_walk m e = Some (ucast (e AND NOT 0xFFF)) \<and> (pae_pd_index e' = pae_pd_index e \<longrightarrow> pae_walk m e' = Some (ucast e')) \<and>
       (\<forall>va h. 0xC0000000 \<le> va \<longrightarrow> pd_index va \<noteq> 1023 \<longrightarrow> kept_page bas n va \<longrightarrow> walk (mach s) va = Some h \<longrightarrow>
          pae_walk m va = (if pt_index va < 512 then Some (ucast h) else None)))"
proof -
  have pg: "paged (mach s) bas siz k limit n 0 s"
    by (rule paged_0 [OF inv lone n(2)])
  have low': "unat (code_page eip) + 4096 < 0x40000000" and w: "unat (code_page eip) + 4096 < 2 ^ 32"
    using low unfolding e_def by simp_all
  note code = code_page_facts [OF w, folded e_def e'_def]
  obtain a b c f U pp s' mem' where I: "init_pae cpu01 cpu808 eip s mem = Some (Inr ((ucast a, pp, cpu808 AND 0xFF), s', mem'))"
      "ucast (ucast a :: u32) = a" "paging_inv (mach s')" "walk (mach s') e = Some (e AND NOT 0xFFF)" "walk (mach s') e' = Some e'"
      "mem' a 0 = b OR 1" "mem' a 3 = f OR 1" "b AND 0xFFF = 0" "c AND 0xFFF = 0" "f AND 0xFFF = 0"
      "pae_pd_index e \<noteq> 511 \<longrightarrow> mem' b (pae_pd_index e) = c OR 3"
      "mem' c (pae_pt_index e) = ucast e OR 3" "mem' c (pae_pt_index e') = ucast e' OR 3"
      "\<forall>i. 768 \<le> i \<longrightarrow> i < 1023 \<longrightarrow> present (pde (mach s) i) \<longrightarrow> table_pair (mach s) bas n f U mem' i"
    by (rule init_pae_ok [OF pg room n(1) cpu low' kept [unfolded e_def e'_def], folded e_def e'_def])
  have pages: "page_of e' < 0x3FE00" "page_of e < 0x3FE00"
    using low code(5) by (simp_all add: page_of_def)
  have idx: "pdpt_index e = 0" "pdpt_index e' = 0" "pae_pd_index e \<noteq> 511"
    using pages by (simp_all add: page_of_def pae_indices_nat)
  have "pae_walk m e = Some (ucast (e AND NOT 0xFFF)) \<and> (pae_pd_index e' = pae_pd_index e \<longrightarrow> pae_walk m e' = Some (ucast e'))"
    if m: "\<forall>p<4. pdpt m p = mem' a p" "tables64 m = mem'" for m
  proof -
    have d: "present64 (pdpt m 0)" "pae_pd m 0 (pae_pd_index e) = c OR 3"
      using m I(6,8,11) idx(3) directory_entry [of b] by (simp_all add: pae_pd_def)
    have "e' AND 0x3FF = 0" "e' AND NOT 0xFFF = e'"
      using code(2) split_mask [of e' "0xFFF"] by (auto simp: low_bits_1k)
    then show ?thesis
      using d m(2) I(9,12,13) idx(1,2) directory_entry [of c] identity_entry [OF code(1)] identity_entry [of e']
      by (simp add: pae_walk_def Let_def)
  qed
  moreover have "pae_walk m va = (if pt_index va < 512 then Some (ucast h) else None)"
    if m: "\<forall>p<4. pdpt m p = mem' a p" "tables64 m = mem'" and va: "0xC0000000 \<le> va" "pd_index va \<noteq> 1023" "kept_page bas n va"
      "walk (mach s) va = Some h" for m va h
  proof -
    have i: "768 \<le> pd_index va" "pd_index va < 1023" "present (pde (mach s) (pd_index va))"
      using va(1,2,4) pd_index_less [of va] walk_present by (auto simp: pd_index_nat word_le_nat_alt)
    have "table_pair (mach s) bas n f U mem' (pd_index va)"
      using I(14) i by blast
    then show ?thesis
      by (rule table_pair_walk) (use va i m I(7,10) directory_entry [of f] in simp_all)
  qed
  ultimately show ?thesis
    using I(1-5) by (intro exI [of _ "(ucast a, pp, cpu808 AND 0xFF)"] exI [of _ s'] exI [of _ mem']) simp
qed

theorem init_pae_tables_witness:
  "\<exists>r s' mem' m. init_pae 0x40 0x24 0xC0100523 demo_old (\<lambda>_ _. 0) = Some (Inr (r, s', mem')) \<and>
     m = demo_pae\<lparr>pdpt := mem' (ucast (fst r)), tables64 := mem'\<rparr> \<and>
     walk (mach s') 0x100400 = Some 0x100000 \<and> pae_walk m 0x100400 = Some 0x100000 \<and> pae_walk m 0x101000 = Some 0x101000 \<and>
     walk demo_paging 0xC0005000 = Some 0x7000 \<and> pae_walk m 0xC0005000 = Some 0x7000"
proof -
  let ?eip = "0xC0100523 :: u32"
  have e: "code_page ?eip = 0x100400"
    by (simp add: code_page_def)
  have e': "BYTE_PGROUNDUP 0x100400 = 0x101000"
    by (simp add: BYTE_PGROUNDUP_def)
  have pre: "paging_inv (mach demo_old)" "5 + pages_needed (mach demo_old) \<le> 10" "(0x40 :: u32) AND push_bit 6 1 \<noteq> 0"
      "unat (code_page ?eip) + 4096 < 0x3FE00000" "kept_page 0xC0100000 10 (code_page ?eip)"
      "kept_page 0xC0100000 10 (BYTE_PGROUNDUP (code_page ?eip))"
    by (simp_all add: demo_old_mach demo_paging_inv demo_old_need [unfolded demo_old_mach] e e' demo_old_kept del: One_nat_def)
  have kept: "kept_page 0xC0100000 10 0xC0005000"
    by (simp add: demo_old_kept)
  note T = init_pae_tables [OF pre(1) demo_old_lone demo_old_room [OF order_refl] pre(2) demo_old_frames pre(3-6), of "0x24" "\<lambda>_ _. 0",
      unfolded e e' demo_old_mach]
  have w: "walk demo_paging 0xC0005000 = Some 0x7000"
    by (simp add: walk_def pd_index_nat pt_index_nat pde_def demo_paging_def present_def frame_of_def)
  have ix: "pd_index 0xC0005000 \<noteq> 1023" "pt_index 0xC0005000 < 512" "pae_pd_index 0x101000 = pae_pd_index 0x100400"
    by (simp_all add: pd_index_nat pt_index_nat pae_indices_nat)
  obtain r s' mem' where I: "init_pae 0x40 0x24 0xC0100523 demo_old (\<lambda>_ _. 0) = Some (Inr (r, s', mem'))"
      "walk (mach s') 0x100400 = Some (0x100400 AND NOT 0xFFF)"
      "\<And>m. (\<forall>p<4. pdpt m p = mem' (ucast (fst r)) p) \<Longrightarrow> tables64 m = mem' \<Longrightarrow>
         pae_walk m 0x100400 = Some (ucast (0x100400 AND NOT 0xFFF :: u32)) \<and> pae_walk m 0x101000 = Some (ucast (0x101000 :: u32)) \<and>
         (\<forall>va h. 0xC0000000 \<le> va \<longrightarrow> pd_index va \<noteq> 1023 \<longrightarrow> kept_page 0xC0100000 10 va \<longrightarrow> walk demo_paging va = Some h \<longrightarrow>
            pae_walk m va = (if pt_index va < 512 then Some (ucast h) else None))"
    using T ix(3) by blast
  let ?m = "demo_pae\<lparr>pdpt := mem' (ucast (fst r)), tables64 := mem'\<rparr>"
  have "pae_walk ?m 0x100400 = Some 0x100000" "pae_walk ?m 0x101000 = Some 0x101000" "pae_walk ?m 0xC0005000 = Some 0x7000"
    using I(3) [of ?m] w ix(1,2) kept by simp_all
  then show ?thesis
    using I(1,2) w by (intro exI [of _ r] exI [of _ s'] exI [of _ mem'] exI [of _ ?m]) simp
qed

end
