(* ===== verification/Kernel_Tables.thy ===== *)
theory Kernel_Tables
  imports Page_Mapping
begin

text \<open>
  The kernel's own page tables, \<open>pg_init\<close> of \<open>memory/paging.c\<close>, and the copies of their directory. At boot
  a small directory is active; \<open>kernel_pd\<close> and \<open>kernel_pt\<close> are page-sized arrays of the kernel,
  filled through their virtual addresses and made active at the end.
\<close>

section \<open>The operations\<close>

definition then_do :: "'a result \<Rightarrow> ('a \<Rightarrow> 'b result) \<Rightarrow> 'b result" where
  "then_do r f = (case r of Inl e \<Rightarrow> Inl e | Inr x \<Rightarrow> f x)"

lemma then_do_simps [simp]: "then_do (Inl e) f = Inl e" "then_do (Inr x) f = f x"
  by (simp_all add: then_do_def)

text \<open>A page-sized array at a virtual address, read and rewritten as a whole.\<close>

definition read_array :: "u32 \<Rightarrow> paging \<Rightarrow> (nat \<Rightarrow> u32) result" where
  "read_array va s = (case walk s va of None \<Rightarrow> Inl (PageFault va) | Some f \<Rightarrow> Inr (tables s f))"

definition update_array :: "u32 \<Rightarrow> ((nat \<Rightarrow> u32) \<Rightarrow> nat \<Rightarrow> u32) \<Rightarrow> paging \<Rightarrow> paging result" where
  "update_array va g s =
     (case walk s va of None \<Rightarrow> Inl (PageFault va) | Some f \<Rightarrow> Inr (s\<lparr>tables := (tables s)(f := g (tables s f))\<rparr>))"

text \<open>
  \<open>create_new_pt\<close> and \<open>memory_map\<close> for a directory \<open>rpd\<close> that need not be the active one: its entry is read
  and written, but the table is reached through the active directory.
\<close>

definition create_new_pt_in :: "u32 \<Rightarrow> nat \<Rightarrow> paging \<Rightarrow> paging result" where
  "create_new_pt_in rpd i s =
     (case alloc_phys_page (phys_mem s) of
        Inl e \<Rightarrow> Inl e
      | Inr (new_pt, p) \<Rightarrow>
          then_do (write_table rpd i (ucast new_pt OR 3) (s\<lparr>phys_mem := p\<rparr>))
            (update_array (RECURSIVE_ADDR OR push_bit 12 (of_nat i)) (\<lambda>t j. if j < 256 then 0 else t j)))"

definition memory_map_in :: "u32 \<Rightarrow> u32 \<Rightarrow> u32 \<Rightarrow> u32 \<Rightarrow> paging \<Rightarrow> paging result" where
  "memory_map_in rpd phys virt flags s =
     then_do (read_table rpd (pd_index virt) s) (\<lambda>d.
     then_do (if \<not> present d then create_new_pt_in rpd (pd_index virt) s else Inr s) (\<lambda>s1.
       if phys AND 0x3FF \<noteq> 0 then Inl (Panic ''PHYSICAL ADDRESS NOT PAGE ALIGNED'')
       else write_table (RECURSIVE_ADDR + of_nat (pd_index virt) * 4096) (pt_index virt) (phys OR flags) s1))"

definition PHYSADDR :: "u32 \<Rightarrow> u32" where
  "PHYSADDR x = x - 0xC0000000"

text \<open>
  \<open>pg_init\<close>. \<open>kend\<close> is the end of the kernel. \<open>memset(kernel_pd, 0, 1024)\<close> clears 256 entries, and the source of
  the copy, \<open>entry_pd + 0xC0000000\<close> on a pointer to words, is \<open>entry_pd\<close> itself: the old directory is copied
  into the new table.
\<close>

definition pg_init :: "u32 \<Rightarrow> u32 \<Rightarrow> u32 \<Rightarrow> u32 \<Rightarrow> u32 \<Rightarrow> paging \<Rightarrow> paging result" where
  "pg_init kernel_pd kernel_pt kend entry_pd tag_size s =
     (let tag_phys = PGROUNDDOWN (tag_size - 0xC0000000); tag_page = PGROUNDDOWN tag_size
      in then_do (update_array kernel_pd (newinit_pd kernel_pd) s) (\<lambda>s1.
         then_do (memory_map_in entry_pd tag_phys tag_page 3 s1) (\<lambda>s2.
         then_do (update_array kernel_pd (\<lambda>t i. if i < 256 then 0 else t i) s2) (\<lambda>s3.
         then_do (read_array (entry_pd + 4 * 0xC0000000) s3) (\<lambda>old.
         then_do (update_array kernel_pt (\<lambda>t i. if i < 1024 then old i else t i) s3) (\<lambda>s4.
         then_do (read_word tag_size s4) (\<lambda>tsz.
         then_do (update_array kernel_pt (init_kpt kend tsz) s4) (\<lambda>s5.
         then_do (write_table kernel_pd 768 (PHYSADDR kernel_pt OR 3) s5) (\<lambda>s6.
         then_do (write_table kernel_pd 1023 (PHYSADDR kernel_pd OR 3) s6) (\<lambda>s7.
         then_do (memory_map_in kernel_pd tag_phys tag_page 3 s7) (\<lambda>s8.
           Inr (s8\<lparr>pd_frame := PHYSADDR kernel_pd\<rparr>))))))))))))"

text \<open>The copies of the kernel's directory: all of it, its upper quarter, one entry.\<close>

definition copy_kernel_map :: "u32 \<Rightarrow> u32 \<Rightarrow> paging \<Rightarrow> paging result" where
  "copy_kernel_map kernel_pd new_kpd s =
     then_do (read_array kernel_pd s) (\<lambda>k. update_array new_kpd (\<lambda>t i. if i < 1024 then k i else t i) s)"

definition copy_higher_half_kernel_pd :: "u32 \<Rightarrow> u32 \<Rightarrow> paging \<Rightarrow> paging result" where
  "copy_higher_half_kernel_pd kernel_pd pd s =
     then_do (read_array kernel_pd s) (\<lambda>k. update_array pd (\<lambda>t i. if 768 \<le> i \<and> i < 1024 then k i else t i) s)"

definition copy_kernel_pd_index :: "u32 \<Rightarrow> u32 \<Rightarrow> nat \<Rightarrow> paging \<Rightarrow> paging result" where
  "copy_kernel_pd_index kernel_pd pd index s =
     then_do (read_table kernel_pd index s) (\<lambda>v. write_table pd index v s)"

section \<open>The active directory as root\<close>

lemma memory_map_in_active:
  assumes "walk s rpd = Some (pd_frame s)"
  shows "memory_map_in rpd phys virt flags s = memory_map phys virt flags s"
proof -
  have "create_new_pt_in rpd (pd_index virt) s = map_sum id snd (create_new_pt (pd_index virt) s)"
  proof (cases "alloc_phys_page (phys_mem s)")
    case (Inr r)
    obtain f p where r: "r = (f, p)"
      by (cases r)
    have "walk (s\<lparr>phys_mem := p\<rparr>) rpd = Some (pd_frame s)"
      using assms by (simp add: walk_def pde_def)
    then have w: "write_table rpd (pd_index virt) (ucast f OR 3) (s\<lparr>phys_mem := p\<rparr>) =
        Inr (set_entry (pd_frame s) (pd_index virt) (ucast f OR 3) (s\<lparr>phys_mem := p\<rparr>))"
      by (simp add: write_table_def)
    show ?thesis
      unfolding create_new_pt_in_def create_new_pt_def Inr r by (simp add: w update_array_def Let_def split: option.split)
  qed (simp add: create_new_pt_in_def create_new_pt_def)
  moreover have "read_table rpd (pd_index virt) s = Inr (pde s (pd_index virt))"
    using assms by (simp add: read_table_def pde_def)
  ultimately show ?thesis
    unfolding memory_map_in_def memory_map_def Let_def then_do_def by (simp split: sum.split)
qed

section \<open>The tables \<open>pg_init\<close> makes\<close>

text \<open>
  The state at the entry of the kernel, as \<open>arch/i386/bootNP.s\<close> leaves it: only the table of the kernel's 4 MiB
  and the directory's own entry are present. The two arrays are mapped where the linker puts them.
\<close>

definition boot_state :: "u32 \<Rightarrow> u32 \<Rightarrow> u32 \<Rightarrow> u32 \<Rightarrow> paging \<Rightarrow> bool" where
  "boot_state kernel_pd kernel_pt entry_pd tag s \<longleftrightarrow>
     paging_ok s \<and> (\<forall>i<1024. i \<noteq> 768 \<longrightarrow> i \<noteq> 1023 \<longrightarrow> pde s i AND 3 = 0) \<and> present (pde s 768) \<and>
     kernel_pd AND 0xFFF = 0 \<and> kernel_pt AND 0xFFF = 0 \<and> walk s entry_pd = Some (pd_frame s) \<and>
     (\<forall>va\<in>{kernel_pd, kernel_pt}. walk s va = Some (PHYSADDR va)) \<and>
     (\<forall>va\<in>{kernel_pd, kernel_pt, entry_pd}. pd_index va = 768 \<and> pt_index va \<noteq> pt_index tag) \<and> pd_index tag = 768 \<and>
     distinct [PHYSADDR kernel_pd, PHYSADDR kernel_pt, pd_frame s, frame_of (pde s 768)] \<and>
     PHYSADDR tag AND NOT 0xFFF \<notin> {PHYSADDR kernel_pd, PHYSADDR kernel_pt, frame_of (pde s 768)}"

lemma walk_kernel:
  "pd_index va = 768 \<Longrightarrow> present (tables s (pd_frame s) 768) \<Longrightarrow> frame_of (tables s (pd_frame s) 768) = b \<Longrightarrow>
    walk s va = (if present (tables s b (pt_index va)) then Some (frame_of (tables s b (pt_index va))) else None)"
  by (simp add: walk_def pde_def Let_def)

lemma walk_own_table:
  "tables s (pd_frame s) 1023 = d \<Longrightarrow> present d \<Longrightarrow> frame_of d = pd_frame s \<Longrightarrow> present (tables s (pd_frame s) 768) \<Longrightarrow>
    walk s (RECURSIVE_ADDR + 768 * 4096) = Some (frame_of (tables s (pd_frame s) 768))"
  using window_indices [of 768] by (simp add: walk_def pde_def Let_def)

lemma round_1k: "PGROUNDDOWN a AND 0x3FF = 0" "pd_index (PGROUNDDOWN a) = pd_index a" "pt_index (PGROUNDDOWN a) = pt_index a"
proof -
  have m: "(0x3FF :: u32) = mask 10" "PGSIZE - 1 = mask 10"
    by (simp_all add: mask_eq_exp_minus_1 PGSIZE_def)
  show "PGROUNDDOWN a AND 0x3FF = 0"
    unfolding PGROUNDDOWN_def m by (simp add: and.assoc)
  have "unat (PGROUNDDOWN a) = unat a div 1024 * 1024"
    unfolding PGROUNDDOWN_def m unat_align_down by simp
  moreover have "unat a div 1024 * 1024 div 2 ^ 12 = unat a div 2 ^ 12" "unat a div 1024 * 1024 div 2 ^ 22 = unat a div 2 ^ 22"
    using div_mult2_eq [of "unat a div 1024 * 1024" 1024 4] div_mult2_eq [of "unat a" 1024 4]
      div_mult2_eq [of "unat a div 1024 * 1024" 1024 4096] div_mult2_eq [of "unat a" 1024 4096] by simp_all
  ultimately show "pd_index (PGROUNDDOWN a) = pd_index a" "pt_index (PGROUNDDOWN a) = pt_index a"
    by (simp_all add: pd_index_nat pt_index_nat)
qed

lemma low_bits_minus: "(a :: u32) AND 0xFFF = 0 \<Longrightarrow> (a - 0xC0000000) AND 0xFFF = 0"
proof -
  assume "a AND 0xFFF = 0"
  then obtain k where k: "unat a = 4096 * k"
    by (auto simp: low_bits elim: dvdE)
  have "unat (a - 0xC0000000) mod 4096 = 0"
  proof (cases "(0xC0000000 :: u32) \<le> a")
    case True
    then have "unat (a - 0xC0000000) = 4096 * (k - 786432)"
      using k by (simp add: unat_sub diff_mult_distrib2)
    then show ?thesis
      by simp
  next
    case False
    then have "unat (a - 0xC0000000) = 4096 * (k + 262144)"
      using k by (simp add: unat_sub_if' word_le_nat_alt)
    then show ?thesis
      by simp
  qed
  then show ?thesis
    by (simp only: low_bits)
qed

lemma loose: "frame_of (PGROUNDDOWN a OR 3) = a AND NOT 0xFFF" "present (PGROUNDDOWN a OR 3)"
proof -
  have "PGROUNDDOWN a = (a AND NOT 0xFFF) OR (a AND 0xC00)"
    unfolding PGROUNDDOWN_def PGSIZE_def by (rule bit_word_eqI) (auto simp: bit_simps bit_numeral_rec split: nat.splits)
  then have eq: "PGROUNDDOWN a OR 3 = (a AND NOT 0xFFF) OR ((a AND 0xC00) OR 3)"
    by (simp add: or.assoc)
  have "((a AND x) OR y) AND z = (a AND (x AND z)) OR (y AND z)" for x y z
    by (rule bit_word_eqI) (auto simp: bit_and_iff bit_or_iff)
  then have "((a AND 0xC00) OR 3) AND NOT 0xFFF = 0" "((a AND 0xC00) OR 3) AND 1 \<noteq> 0" "(a AND NOT 0xFFF) AND 0xFFF = 0"
    by (simp_all add: and.assoc)
  then show "frame_of (PGROUNDDOWN a OR 3) = a AND NOT 0xFFF" "present (PGROUNDDOWN a OR 3)"
    unfolding eq using frame_of_mapped by simp_all
qed

lemma kernel_entry:
  assumes i: "256 \<le> i" "i < 1024"
  shows "frame_of ((of_nat (i - 256) * 0x1000 + 0x100000) OR 3) = of_nat i * 0x1000" "present ((of_nat (i - 256) * 0x1000 + 0x100000) OR 3)"
    "\<not> present ((of_nat (i - 256) * 0x1000 + 0x100000) OR 2)"
proof -
  obtain k where k: "i = 256 + k"
    using i(1) le_Suc_ex by blast
  have eq: "of_nat (i - 256) * 0x1000 + 0x100000 = (of_nat i * 0x1000 :: u32)"
    unfolding k by (simp add: algebra_simps)
  have al: "(of_nat i * 0x1000 :: u32) AND 0xFFF = 0"
  proof -
    have "(of_nat i * 0x1000 :: u32) = of_nat (4096 * i)"
      by simp
    then show ?thesis
      using unat_page [of i] i(2) by (simp only: low_bits) simp
  qed
  show "frame_of ((of_nat (i - 256) * 0x1000 + 0x100000) OR 3) = of_nat i * 0x1000" "present ((of_nat (i - 256) * 0x1000 + 0x100000) OR 3)"
    unfolding eq using frame_of_mapped [OF al, of 3] by simp_all
  have "(x OR y) AND 1 = (x AND 1) OR (y AND 1)" for x y :: u32
    by (rule bit_word_eqI) (auto simp: bit_and_iff bit_or_iff)
  moreover have "(of_nat i * 0x1000 :: u32) AND 1 = (of_nat i * 0x1000 AND 0xFFF) AND 1"
    by (simp add: and.assoc)
  ultimately have "(of_nat i * 0x1000 OR 2 :: u32) AND 1 = 0"
    by (simp add: al)
  then show "\<not> present ((of_nat (i - 256) * 0x1000 + 0x100000) OR 2)"
    unfolding eq present_def by simp
qed

text \<open>The entries of the first table: pages below 1 MiB have what the old directory has there.\<close>

lemma first_table:
  fixes kend tsz :: u32 and old :: "nat \<Rightarrow> u32"
  assumes old: "\<forall>i<1024. i \<noteq> 768 \<longrightarrow> i \<noteq> 1023 \<longrightarrow> old i AND 3 = 0" and i: "i < 1024" "i \<noteq> 768" "i \<noteq> 1023"
  defines "t \<equiv> init_kpt kend tsz old"
  shows "i < 256 \<Longrightarrow> \<not> present (t i)"
    "256 \<le> i \<Longrightarrow> present (t i) \<longleftrightarrow> of_nat i \<le> 260 + init_pages kend tsz"
    "256 \<le> i \<Longrightarrow> present (t i) \<Longrightarrow> frame_of (t i) = of_nat i * 0x1000"
proof -
  have z: "old i AND 3 = 0"
    using old i by blast
  have "old i AND 1 = (old i AND 3) AND 1"
    by (simp add: and.assoc)
  then show "i < 256 \<Longrightarrow> \<not> present (t i)"
    using z by (simp add: t_def init_kpt_def init_kpt_entry_def present_def)
  assume "256 \<le> i"
  note e = kernel_entry [OF this i(1)]
  show "present (t i) \<longleftrightarrow> of_nat i \<le> 260 + init_pages kend tsz"
    using e(2,3) z i(1) \<open>256 \<le> i\<close> by (simp add: t_def init_kpt_def init_kpt_entry_def not_le [symmetric])
  show "frame_of (t i) = of_nat i * 0x1000" if "present (t i)"
    using that e z i(1) \<open>256 \<le> i\<close> by (auto simp: t_def init_kpt_def init_kpt_entry_def not_less split: if_splits)
qed

lemma init_kpt_kept: "old i AND 3 \<noteq> 0 \<Longrightarrow> init_kpt kend tsz old i = old i"
  by (simp add: init_kpt_def init_kpt_entry_def)

lemma pg_init_ok:
  fixes kernel_pd kernel_pt tag :: u32 and s :: paging
  assumes B: "boot_state kernel_pd kernel_pt entry_pd tag s"
  defines "FD \<equiv> PHYSADDR kernel_pd" and "FT \<equiv> PHYSADDR kernel_pt" and "bt \<equiv> frame_of (pde s 768)"
    and "tsz \<equiv> tables s (PHYSADDR tag AND NOT 0xFFF) (unat (tag AND 0xFFF) div 4)"
  obtains s' where "pg_init kernel_pd kernel_pt kend entry_pd tag s = Inr s'" "pd_frame s' = FD" "FD AND 0xFFF = 0" "FT AND 0xFFF = 0" "FD \<noteq> FT"
    "\<forall>i<1024. tables s' FD i = (if i = 1023 then FD OR 3 else if i = 768 then FT OR 3 else if i < 256 then 0 else 2)"
    "\<forall>i<1024. tables s' FT i = init_kpt kend tsz (pde s) i"
proof -
  let ?FP = "pd_frame s" and ?j = "pt_index tag" and ?v = "PGROUNDDOWN (PHYSADDR tag) OR 3" and ?W = "RECURSIVE_ADDR + 768 * 4096"
  have b: "paging_ok s" "present (pde s 768)" "walk s entry_pd = Some ?FP" "walk s kernel_pd = Some FD" "walk s kernel_pt = Some FT"
      "pd_index tag = 768" "pd_index kernel_pd = 768" "pd_index kernel_pt = 768" "pd_index entry_pd = 768"
      "pt_index kernel_pd \<noteq> ?j" "pt_index kernel_pt \<noteq> ?j" "pt_index entry_pd \<noteq> ?j"
    using B unfolding boot_state_def FD_def FT_def by auto
  have d: "FD \<noteq> FT" "FD \<noteq> ?FP" "FT \<noteq> ?FP" "bt \<noteq> FD" "bt \<noteq> FT" "bt \<noteq> ?FP" "PHYSADDR tag AND NOT 0xFFF \<notin> {FD, FT, bt}"
    using B unfolding boot_state_def FD_def FT_def bt_def by auto
  have own: "present (pde s 1023)" "frame_of (pde s 1023) = ?FP"
    using b(1) by (simp_all add: paging_ok_def)
  have al: "FD AND 0xFFF = 0" "FT AND 0xFFF = 0"
    using B by (simp_all add: boot_state_def FD_def FT_def PHYSADDR_def low_bits_minus)
  text \<open>While the old directory is active and its table changes at the tag's page only, the arrays stay where they are.\<close>
  have same: "walk u va = walk s va"
    if "pd_frame u = ?FP" "tables u ?FP = tables s ?FP" "tables u bt (pt_index va) = tables s bt (pt_index va)" "pd_index va = 768" for u va
    using walk_kernel [OF that(4), of u bt] walk_kernel [OF that(4), of s bt] that b(2) by (simp add: pde_def bt_def)
  have win: "walk u ?W = Some bt" if "pd_frame u = ?FP" "tables u ?FP = tables s ?FP" for u
    using walk_own_table [of u "pde s 1023"] that own b(2) by (simp add: pde_def bt_def)
  define t1 where "t1 = (tables s)(FD := newinit_pd kernel_pd (tables s FD))"
  define t2 where "t2 = t1(bt := (t1 bt)(?j := ?v))"
  define t3 where "t3 = t2(FD := (\<lambda>i. if i < 256 then 0 else t2 FD i))"
  define t4 where "t4 = t3(FT := (\<lambda>i. if i < 1024 then tables s ?FP i else t3 FT i))"
  define t5 where "t5 = t4(FT := init_kpt kend tsz (t4 FT))"
  define t6 where "t6 = t5(FD := (t5 FD)(768 := FT OR 3))"
  define t7 where "t7 = t6(FD := (t6 FD)(1023 := FD OR 3))"
  define t8 where "t8 = t7(bt := (t7 bt)(?j := ?v))"
  note defs = t1_def t2_def t3_def t4_def t5_def t6_def t7_def t8_def
  let ?s = "\<lambda>t. s\<lparr>tables := t\<rparr>"
  have fp: "t1 ?FP = tables s ?FP" "t2 ?FP = tables s ?FP" "t3 ?FP = tables s ?FP" "t4 ?FP = tables s ?FP" "t5 ?FP = tables s ?FP"
      "t6 ?FP = tables s ?FP" "t7 ?FP = tables s ?FP"
    using d by (simp_all add: defs)
  have tb: "k \<noteq> ?j \<Longrightarrow> t1 bt k = tables s bt k" "k \<noteq> ?j \<Longrightarrow> t2 bt k = tables s bt k" "k \<noteq> ?j \<Longrightarrow> t3 bt k = tables s bt k"
      "k \<noteq> ?j \<Longrightarrow> t4 bt k = tables s bt k" "k \<noteq> ?j \<Longrightarrow> t5 bt k = tables s bt k" "k \<noteq> ?j \<Longrightarrow> t6 bt k = tables s bt k"
      "k \<noteq> ?j \<Longrightarrow> t7 bt k = tables s bt k" for k
    using d by (simp_all add: defs)
  have pd: "walk (?s t) kernel_pd = Some FD" and pt: "walk (?s t) kernel_pt = Some FT" and en: "walk (?s t) entry_pd = Some ?FP"
    and wi: "walk (?s t) ?W = Some bt"
    if "t ?FP = tables s ?FP" "\<And>k. k \<noteq> ?j \<Longrightarrow> t bt k = tables s bt k" for t
    using same [of "?s t"] win [of "?s t"] that b(3-5,7-12) by simp_all
  have tagidx: "pd_index (PGROUNDDOWN tag) = 768" "pt_index (PGROUNDDOWN tag) = ?j" "PGROUNDDOWN (PHYSADDR tag) AND 0x3FF = 0"
    using round_1k b(6) by simp_all
  have 1: "update_array kernel_pd (newinit_pd kernel_pd) s = Inr (?s t1)"
    using b(4) by (simp add: update_array_def t1_def)
  have rd: "read_table entry_pd 768 (?s t1) = Inr (pde s 768)"
    using en [OF fp(1) tb(1)] fp(1) by (simp add: read_table_def pde_def)
  have 2: "memory_map_in entry_pd (PGROUNDDOWN (PHYSADDR tag)) (PGROUNDDOWN tag) 3 (?s t1) = Inr (?s t2)"
    using rd b(2) wi [OF fp(1) tb(1)] tagidx by (simp add: memory_map_in_def write_table_def set_entry_def t2_def)
  have 3: "update_array kernel_pd (\<lambda>t i. if i < 256 then 0 else t i) (?s t2) = Inr (?s t3)"
    using pd [OF fp(2) tb(2)] by (simp add: update_array_def t3_def cong: if_cong)
  have r3: "read_array (entry_pd + 4 * 0xC0000000) (?s t3) = Inr (tables s ?FP)"
  proof -
    have zero: "(4 * 0xC0000000 :: u32) = 0"
      by simp
    show ?thesis
      unfolding zero using en [OF fp(3) tb(3)] fp(3) by (simp add: read_array_def)
  qed
  have 4: "update_array kernel_pt (\<lambda>t i. if i < 1024 then tables s ?FP i else t i) (?s t3) = Inr (?s t4)"
    using pt [OF fp(3) tb(3)] by (simp add: update_array_def t4_def cong: if_cong)
  have r4: "read_word tag (?s t4) = Inr tsz"
  proof -
    have "t4 bt ?j = ?v" "t4 (PHYSADDR tag AND NOT 0xFFF) = tables s (PHYSADDR tag AND NOT 0xFFF)"
      using d by (simp_all add: defs)
    moreover from this have "walk (?s t4) tag = Some (PHYSADDR tag AND NOT 0xFFF)"
      using walk_kernel [OF b(6), of "?s t4" bt] loose [of "PHYSADDR tag"] fp(4) b(2) by (simp add: pde_def bt_def)
    ultimately show ?thesis
      by (simp add: read_word_def tsz_def)
  qed
  have 5: "update_array kernel_pt (init_kpt kend tsz) (?s t4) = Inr (?s t5)"
    using pt [OF fp(4) tb(4)] by (simp add: update_array_def t5_def)
  have 6: "write_table kernel_pd 768 (FT OR 3) (?s t5) = Inr (?s t6)"
    using pd [OF fp(5) tb(5)] by (simp add: write_table_def set_entry_def t6_def)
  have 7: "write_table kernel_pd 1023 (FD OR 3) (?s t6) = Inr (?s t7)"
    using pd [OF fp(6) tb(6)] by (simp add: write_table_def set_entry_def t7_def)
  have r7: "read_table kernel_pd 768 (?s t7) = Inr (FT OR 3)"
  proof -
    have "t7 FD 768 = FT OR 3"
      by (simp add: t7_def t6_def)
    then show ?thesis
      using pd [OF fp(7) tb(7)] by (simp add: read_table_def)
  qed
  have 8: "memory_map_in kernel_pd (PGROUNDDOWN (PHYSADDR tag)) (PGROUNDDOWN tag) 3 (?s t7) = Inr (?s t8)"
    using r7 frame_of_mapped [OF al(2), of 3] wi [OF fp(7) tb(7)] tagidx by (simp add: memory_map_in_def write_table_def set_entry_def t8_def)
  have run: "pg_init kernel_pd kernel_pt kend entry_pd tag s = Inr (?s t8\<lparr>pd_frame := FD\<rparr>)"
    unfolding pg_init_def Let_def PHYSADDR_def [of tag, symmetric] FD_def [symmetric] FT_def [symmetric]
    by (simp only: 1 2 3 r3 4 r4 5 6 7 8 then_do_simps)
  have "t8 FD i = (if i = 1023 then FD OR 3 else if i = 768 then FT OR 3 else if i < 256 then 0 else 2)" if "i < 1024" for i
    using that d by (simp add: defs newinit_pd_def)
  moreover have "t8 FT i = init_kpt kend tsz (pde s) i" if "i < 1024" for i
    using that d by (simp add: defs init_kpt_def init_kpt_entry_def pde_def)
  ultimately show thesis
    by (intro that [OF run _ al d(1)]) simp_all
qed

lemma kernel_frame: "pd_index va = 768 \<Longrightarrow> PHYSADDR (va AND NOT 0xFFF) = of_nat (pt_index va) * 0x1000"
proof -
  assume va: "pd_index va = 768"
  let ?j = "pt_index va"
  have "page_of va = 768 * 1024 + ?j"
    using page_indices [of va] va by simp
  then have "unat va div 4096 * 4096 = unat (0xC0000000 :: u32) + 4096 * ?j"
    by (simp add: page_of_def)
  moreover have "unat (va AND NOT 0xFFF) = unat va div 4096 * 4096"
    using unat_align_down [of va 12] by (simp add: mask_eq_exp_minus_1)
  ultimately have u: "unat (va AND NOT 0xFFF) = unat (0xC0000000 :: u32) + 4096 * ?j"
    by simp
  have "unat (PHYSADDR (va AND NOT 0xFFF)) = 4096 * ?j"
    unfolding PHYSADDR_def using u by (simp add: unat_sub_if')
  moreover have "unat (of_nat ?j * 0x1000 :: u32) = 4096 * ?j"
    using unat_page [of ?j] pt_index_less [of va] by (simp add: mult.commute)
  ultimately show ?thesis
    by (simp add: word_unat_eq_iff)
qed


definition demo_boot :: paging where
  "demo_boot =
     \<lparr>pd_frame = 0x101000,
      tables = (\<lambda>f i. if f = 0x101000 then (if i = 1023 then 0x101003 else if i = 768 then 0x102003 else 0)
                      else if f = 0x102000 then (if 256 \<le> i \<and> i < 1024 then of_nat i * 0x1000 + 3 else 0)
                      else if f = 0x9000 \<and> i = 0 then 0x200 else 0),
      phys_mem = \<lparr>mem_top = 0, mem_bottom = 0, pre_mem = 0, frames = (\<lambda>_. 0), num_frames = 2560, last_frame = 0\<rparr>\<rparr>"

lemma demo_boot_state: "boot_state 0xC0103000 0xC0104000 0xC0101000 0xC0009000 demo_boot"
  unfolding boot_state_def
  by (auto simp: paging_ok_def walk_def pde_def demo_boot_def present_def frame_of_def PHYSADDR_def pd_index_nat pt_index_nat)


end
