(* ===== verification/Vfat.thy ===== *)
theory Vfat
  imports Arraylist
begin

text \<open>
  The start of the file system, \<open>init_fs\<close> of \<open>drivers/fs/vfat.c\<close>, on the array list and the heap.
  \<open>open\<close>, \<open>close\<close> and \<open>read\<close> have empty bodies in the source.
\<close>

text \<open>\<open>struct fat_fs\<close> holds two function pointers, \<open>read_drive\<close> at 0 and \<open>write_drive\<close> at 4.\<close>

definition sizeof_fat_fs :: u32 where
  "sizeof_fat_fs = 8"

definition set_drive :: "u32 \<Rightarrow> u32 \<Rightarrow> u32 \<Rightarrow> mem \<Rightarrow> mem" where
  "set_drive fs read_drive write_drive m = put32 (fs + 4) write_drive (put32 fs read_drive m)"

text \<open>The result is the global \<open>fat_list\<close>.\<close>

definition init_fs :: "u32 \<Rightarrow> u32 \<Rightarrow> heap \<Rightarrow> (u32 \<times> heap) outcome" where
  "init_fs ahci_read ahci_write h =
     Option.bind (create_array_list (ucast sizeof_fat_fs) h) (\<lambda>(fat_list, h1).
     Option.bind (kalloc sizeof_fat_fs h1) (\<lambda>(boot_fs, h2).
     bind_out (al_add_item fat_list boot_fs h2) (\<lambda>(fat_list', h3).
       Some (Inr (fat_list', h3\<lparr>bytes := set_drive boot_fs ahci_read ahci_write (bytes h3)\<rparr>)))))"

section \<open>The entry of the boot drive\<close>

lemma take_block_pos: "cur_heap_pos (snd (take_block cur past sz h)) = cur_heap_pos h"
  by (simp add: take_block_def split_block_def Let_def heap_simps)

lemma extend_heap_pos: "cur_heap_pos (snd (extend_heap past sz h)) = cur_heap_pos h + sz + 16"
  by (simp add: extend_heap_def sizeof_header_def Let_def)

lemma kalloc_pos:
  assumes "heap_ok h bs" "kalloc sz h = Some (p, h')"
  shows "cur_heap_pos h' = cur_heap_pos h \<or> cur_heap_pos h' = cur_heap_pos h + round20 sz + 16"
  using kalloc_loop_cases [of h "heap_start h" bs "round20 sz" 0] assms take_block_pos extend_heap_pos
  unfolding heap_ok_def kalloc_def by (metis option.inject snd_conv)

lemma apart_off:
  assumes "apart (p, k) (q, l)" "unat p + unat k \<le> 2 ^ 32" "unat q + unat l \<le> 2 ^ 32" "i < unat k"
  shows "unat l \<le> off q (p + of_nat i)"
proof (rule ccontr)
  assume "\<not> unat l \<le> off q (p + of_nat i)"
  then have "p + of_nat i \<noteq> q + of_nat (off q (p + of_nat i))"
    using assms by (intro apart_range [of p k q l]) simp_all
  then show False
    by (simp add: off_def)
qed

lemma create_list_ok:
  assumes ok: "heap_ok h bs" and room: "unat (cur_heap_pos h) + 67 < 2 ^ 32"
  obtains al h1 bs1 where "create_array_list 8 h = Some (al, h1)" "heap_ok h1 bs1" "unat (cur_heap_pos h1) \<le> unat (cur_heap_pos h) + 48"
    "(al, hsize (hdr h1 (al - 16))) \<in> live h1 bs1" "20 \<le> hsize (hdr h1 (al - 16))"
    "al_ok (bytes h1) al" "al_length (bytes h1) al = 0" "al_size (bytes h1) al = 8" "unat (al_max_count (bytes h1) al) = 1"
    "\<forall>a. 20 \<le> off al a \<longrightarrow> bytes h1 a = bytes h a"
proof -
  have r: "round20 20 = 32"
    by (simp add: round20_def)
  obtain al h0 bs1 where k: "kalloc 20 h = Some (al, h0)" "kalloc_ok 32 h bs (al, h0) bs1"
    using kalloc_correct [OF ok, of 20] room unfolding r by auto
  let ?m = "put32 al 8 (put16 (al + 6) 1 (snd (memset al 0 20 (bytes h0))))"
  define h1 where "h1 = h0\<lparr>bytes := ?m\<rparr>"
  have b: "bytes h0 = bytes h"
    using k(2) by (simp add: kalloc_ok_def)
  have c: "create_array_list 8 h = Some (al, h1)"
    using k(1) by (simp add: create_array_list_def sizeof_array_list_def h1_def)
  have p: "unat (cur_heap_pos h1) \<le> unat (cur_heap_pos h) + 48"
    using kalloc_pos [OF ok k(1)] room unfolding r by (auto simp: h1_def unat_plus_if')
  have l: "heap_ok h1 bs1" "(al, hsize (hdr h1 (al - 16))) \<in> live h1 bs1" "20 \<le> hsize (hdr h1 (al - 16))"
    using k(2) by (auto simp: kalloc_ok_def h1_def heap_ok_def live_def word_le_nat_alt)
  have zero: "snd (memset al 0 20 (bytes h0)) (al + of_nat i) = 0" if "i < 20" for i
    using that by (simp add: memset_in)
  have "al_dt_size ?m al = 8"
    by (simp add: al_dt_size_def)
  moreover have "al_max_count ?m al = 1" "al_count ?m al = 0"
  proof -
    have far4: "put32 al 8 m (al + of_nat i) = m (al + of_nat i)" if "4 \<le> i" "i < 8" for i m
      using that by (intro put32_far) simp
    have "get16 ?m (al + of_nat 6) = get16 (put16 (al + 6) 1 (snd (memset al 0 20 (bytes h0)))) (al + of_nat 6)"
      by (rule get16_same, rule far4) simp_all
    then show "al_max_count ?m al = 1"
      by (simp add: al_max_count_def)
    have "get16 ?m (al + of_nat 4) = get16 (\<lambda>_. 0) (al + of_nat 4)"
    proof (rule get16_same)
      fix i :: nat assume i: "i < 2"
      then have "put16 (al + of_nat 6) 1 (snd (memset al 0 20 (bytes h0))) (al + of_nat (4 + i)) = snd (memset al 0 20 (bytes h0)) (al + of_nat (4 + i))"
        using off_base [of "4 + i" al] by (intro put16_beside) (simp_all del: off_base)
      then show "?m (al + of_nat (4 + i)) = 0"
        using far4 [of "4 + i"] zero [of "4 + i"] i by simp
    qed
    then show "al_count ?m al = 0"
      by (simp add: al_count_def get16_def)
  qed
  ultimately have f: "al_ok (bytes h1) al" "al_length (bytes h1) al = 0" "al_size (bytes h1) al = 8" "unat (al_max_count (bytes h1) al) = 1"
    by (simp_all add: h1_def al_ok_def al_length_def al_size_def)
  have "bytes h1 a = bytes h a" if "20 \<le> off al a" for a
    using that put16_beside [of al a 6 1] by (simp add: h1_def b far)
  then have "\<forall>a. 20 \<le> off al a \<longrightarrow> bytes h1 a = bytes h a"
    by blast
  with c l p f show thesis
    by (intro that)
qed

text \<open>
  C34. The entry of the boot drive. On every heap whose blocks tile it, with room for two small blocks,
  \<open>init_fs\<close> returns and the list of file systems has one entry. The entry is a copy of the new
  struct made before its function pointers are set: it holds what the block held, while the pointers are set in
  the struct, which nothing refers to afterwards.
\<close>

theorem init_fs_entry_stale:
  assumes ok: "heap_ok h bs" and room: "unat (cur_heap_pos h) + 150 < 2 ^ 32"
  shows "\<exists>fs boot_fs h'. init_fs ahci_read ahci_write h = Some (Inr (fs, h')) \<and> al_length (bytes h') fs = 1 \<and>
    payload (bytes h') fs = map (\<lambda>j. bytes h (boot_fs + of_nat j)) [0..<8] \<and>
    get32 (bytes h') boot_fs = ahci_read \<and> get32 (bytes h') (boot_fs + 4) = ahci_write"
proof -
  have room1: "unat (cur_heap_pos h) + 67 < 2 ^ 32"
    using room by simp
  obtain al h1 bs1 where 1: "create_array_list 8 h = Some (al, h1)" "heap_ok h1 bs1" "unat (cur_heap_pos h1) \<le> unat (cur_heap_pos h) + 48"
      "(al, hsize (hdr h1 (al - 16))) \<in> live h1 bs1" "20 \<le> hsize (hdr h1 (al - 16))"
      "al_ok (bytes h1) al" "al_length (bytes h1) al = 0" "al_size (bytes h1) al = 8" "unat (al_max_count (bytes h1) al) = 1"
      "\<forall>a. 20 \<le> off al a \<longrightarrow> bytes h1 a = bytes h a"
    by (rule create_list_ok [OF ok room1])
  have "heap_inv h1" "heap_room 8 h1"
    using 1(2,3) room by (auto simp: heap_inv_def heap_room_def)
  from heap.alloc_apart [OF this] obtain p k h2 where 2: "kalloc 8 h1 = Some (p, h2)" "heap_inv h2" "8 \<le> k"
      "heap_blocks h2 = insert (p, k) (heap_blocks h1)" "\<forall>e\<in>heap_blocks h1. apart e (p, k)"
    by blast
  have by2: "bytes h2 = bytes h1"
    using kalloc_correct [OF 1(2), of 8] 1(3) room 2(1) by (auto simp: kalloc_ok_def round20_def)
  let ?n = "hsize (hdr h1 (al - 16))"
  have ap: "apart (al, ?n) (p, k)"
    using 2(5) 1(4) heap_blocks_eq [OF 1(2)] by simp
  obtain bs2 where bs2: "heap_ok h2 bs2"
    using 2(2) by (auto simp: heap_inv_def)
  have bnd: "unat p + unat k \<le> 2 ^ 32" "unat al + unat ?n \<le> 2 ^ 32"
  proof -
    have "(p, k) \<in> live h2 bs2"
      using heap_blocks_eq [OF bs2] 2(4) by blast
    then show "unat p + unat k \<le> 2 ^ 32" "unat al + unat ?n \<le> 2 ^ 32"
      using less_imp_le [OF live_bound [OF bs2]] less_imp_le [OF live_bound [OF 1(2,4)]] by blast+
  qed
  have n20: "20 \<le> unat ?n" "8 \<le> unat k"
    using 1(5) 2(3) by (simp_all add: word_le_nat_alt)
  have fs: "8 \<le> off p (al + of_nat i)" if "i < 20" for i
    using apart_off [OF ap bnd(2,1), of i] that n20 by simp
  have sf: "20 \<le> off al (p + of_nat j)" if "j < 8" for j
    using apart_off [of p k al ?n j] ap bnd that n20 by (auto simp: apart_def)
  have pre: "al_ok (bytes h2) al" "al_length (bytes h2) al < unat (al_max_count (bytes h2) al)"
      "al_size (bytes h2) al \<le> off p (al + of_nat (8 + al_length (bytes h2) al * al_size (bytes h2) al))"
    using 1(6-9) fs [of 8] by (simp_all add: by2)
  let ?m = "al_store al p (bytes h2)"
  have add: "al_add_item al p h2 = Some (Inr (al, h2\<lparr>bytes := ?m\<rparr>))"
    using pre(2) by (auto simp: al_add_item_def al_length_def)
  have garbage: "bytes h1 (p + of_nat j) = bytes h (p + of_nat j)" if "j < 8" for j
    using 1(10) sf [OF that] by simp
  have st: "payload ?m al = map (\<lambda>j. bytes h (p + of_nat j)) [0..<8]" "al_length ?m al = 1" "al_size ?m al = 8"
    using al_store_ok [OF pre] 1(7,8) garbage by (simp_all add: by2 payload_def)
  let ?m' = "set_drive p ahci_read ahci_write ?m"
  have same: "?m' (al + of_nat i) = ?m (al + of_nat i)" if "i < 20" for i
    using fs [OF that] put32_beside [of p "al + of_nat i" 4] put32_far [of p "al + of_nat i"] by (simp add: set_drive_def)
  have hd: "al_length ?m' al = 1" "al_size ?m' al = 8"
    using header_cong [of ?m' al ?m] same st(2,3) by simp_all
  have pl: "payload ?m' al = payload ?m al"
  proof -
    have "?m' (al + 8 + of_nat j) = ?m (al + 8 + of_nat j)" if "j < 8" for j
      using same [of "8 + j"] that by (simp add: add.assoc)
    then show ?thesis
      unfolding payload_def hd st(2,3) by simp
  qed
  have "get32 ?m' (p + of_nat 0) = get32 (put32 p ahci_read ?m) (p + of_nat 0)"
    unfolding set_drive_def by (rule get32_same) (use put32_beside [of p _ 4] in simp)
  then have ptr: "get32 ?m' p = ahci_read" "get32 ?m' (p + 4) = ahci_write"
    by (simp_all add: set_drive_def)
  have "init_fs ahci_read ahci_write h = Some (Inr (al, h2\<lparr>bytes := ?m'\<rparr>))"
    using 1(1) 2(1) add by (simp add: init_fs_def sizeof_fat_fs_def)
  then show ?thesis
    using hd pl ptr st(1) by (intro exI [of _ al] exI [of _ p] exI [of _ "h2\<lparr>bytes := ?m'\<rparr>"]) simp
qed

theorem init_fs_entry_stale_witness:
  "\<exists>fs boot_fs h'. init_fs 0xC0110000 0xC0110400 demo_used = Some (Inr (fs, h')) \<and> al_length (bytes h') fs = 1 \<and>
     payload (bytes h') fs = map (\<lambda>j. bytes demo_used (boot_fs + of_nat j)) [0..<8] \<and> get32 (bytes h') boot_fs = 0xC0110000 \<and>
     get32 (bytes h') (boot_fs + 4) = 0xC0110400"
  using init_fs_entry_stale [OF demo_used_ok, of "0xC0110000" "0xC0110400"] by (simp add: demo_used_def demo_heap_def)

end
