(* ===== verification/Terminal_Output.thy ===== *)
theory Terminal_Output
  imports Terminal
begin

text \<open>
  What \<open>printf\<close> of \<open>programs/terminal.c\<close> shows: the text it appends to the buffer, as long as the screen has room and
  nothing scrolls, and that the drawing loops end.
\<close>

section \<open>What the buffer holds\<close>

text \<open>The buffer holds the text \<open>xs\<close>, written up to its end, and counts its lines.\<close>

definition displays :: "terminal \<Rightarrow> u8 list \<Rightarrow> bool" where
  "displays t xs \<longleftrightarrow> holds (text_buffer t) xs \<and> unat (textbuf_loc t) = length xs \<and> unat (cur_lines t) = count_list xs 10"

text \<open>Each colour escape is followed by two characters on the same line.\<close>

fun colors_ok :: "u8 list \<Rightarrow> bool" where
  "colors_ok [] \<longleftrightarrow> True"
| "colors_ok (c # xs) \<longleftrightarrow>
     (if c = 0xFF then (case xs of a # b # ys \<Rightarrow> a \<noteq> 10 \<and> b \<noteq> 10 \<and> colors_ok ys | _ \<Rightarrow> False) else colors_ok xs)"

definition roomy :: "terminal \<Rightarrow> u8 list \<Rightarrow> bool" where
  "roomy t xs \<longleftrightarrow> 0 \<notin> set xs \<and> length xs < 2 ^ 16 \<and> int (count_list xs 10) < max_char_y t \<and> colors_ok xs"

text \<open>The geometry, the line being typed, and the prompt are as before.\<close>

definition same_line :: "terminal \<Rightarrow> terminal \<Rightarrow> bool" where
  "same_line t t' \<longleftrightarrow> max_char_x t' = max_char_x t \<and> max_char_y t' = max_char_y t \<and> user_char_index t' = user_char_index t \<and>
     (\<forall>i. i \<le> 1 \<or> max_char_x t \<le> i \<longrightarrow> user_chars t' i = user_chars t i)"

lemma same_line_refl [simp]: "same_line t t"
  by (simp add: same_line_def)

lemma same_line_trans: "same_line t t' \<Longrightarrow> same_line t' t'' \<Longrightarrow> same_line t t''"
  by (simp add: same_line_def)

lemma roomy_same: "same_line t t' \<Longrightarrow> roomy t' xs = roomy t xs"
  by (simp add: same_line_def roomy_def)

lemma colors_ok_line: "colors_ok (xs @ 10 # ys) \<Longrightarrow> colors_ok (xs @ [10])"
proof (induction xs rule: colors_ok.induct)
  case (2 c xs)
  then show ?case
    by (auto split: list.splits if_splits simp: Cons_eq_append_conv append_eq_Cons_conv)
qed simp

section \<open>Writing\<close>

lemma store_char_shows:
  assumes "displays t xs" "ch \<noteq> 0" "length xs + 1 < 2 ^ 16"
  shows "displays (store_char ch (t\<lparr>cur_lines := cur_lines t + (if ch = 10 then 1 else 0)\<rparr>)) (xs @ [ch])"
proof -
  have c: "count_list xs 10 \<le> length xs"
    by (rule count_le_length)
  then have "unat (cur_lines t + 1) = count_list xs 10 + 1"
    using assms by (simp add: displays_def unat_plus_if')
  then show ?thesis
    using assms c by (auto simp: displays_def holds_def store_char_def unat_plus_if' nth_append)
qed

lemma count_line_eq: "count_line ch t = t\<lparr>cur_lines := cur_lines t + (if ch = 10 then 1 else 0)\<rparr>"
  by (simp add: count_line_def)

lemma roomy_prefix_count:
  assumes "roomy t (xs @ ch # ys)"
  shows "ch \<noteq> 0" "length xs + 1 < 2 ^ 16" "int (count_list (xs @ [ch]) 10) < max_char_y t"
  using assms by (auto simp: roomy_def split: if_splits)

lemma write_char_shows:
  assumes sh: "displays t xs" and room: "roomy t (xs @ ch # ys)"
  obtains t' where "write_char_text_buffer ch t = Some t'" "displays t' (xs @ [ch])" "same_line t t'" "user_chars t' = user_chars t"
proof -
  note r = roomy_prefix_count [OF room]
  let ?t = "store_char ch (count_line ch t)"
  have d: "displays ?t (xs @ [ch])"
    using store_char_shows [OF sh r(1,2)] by (simp add: count_line_eq)
  then have "int (unat (cur_lines (count_line ch t))) < max_char_y (count_line ch t)"
    using r(3) by (simp add: displays_def store_char_def count_line_eq)
  then have "write_char_text_buffer ch t = Some ?t"
    by (simp add: write_char_text_buffer_def Let_def)
  moreover have "same_line t ?t" "user_chars ?t = user_chars t"
    by (simp_all add: same_line_def store_char_def count_line_eq)
  ultimately show thesis
    using d that by blast
qed

text \<open>Text that needs no scrolling is laid over the buffer.\<close>

definition overlay :: "nat \<Rightarrow> u8 list \<Rightarrow> (nat \<Rightarrow> u8) \<Rightarrow> nat \<Rightarrow> u8" where
  "overlay p ws b = (\<lambda>i. if p \<le> i \<and> i < p + length ws then ws ! (i - p) else b i)"

lemma overlay_Cons: "overlay (Suc p) ws (b(p := c)) = overlay p (c # ws) b"
  by (auto simp: overlay_def fun_eq_iff nth_Cons')

lemma overlay_Nil [simp]: "overlay p [] b = b"
  by (auto simp: overlay_def fun_eq_iff)

lemma write_text_overlay:
  assumes "unat (textbuf_loc t) + length ws < 2 ^ 16" "unat (cur_lines t) + count_list ws 10 < 2 ^ 16"
    and "int (unat (cur_lines t) + count_list ws 10) \<le> max_char_y t"
  shows "write_text_buffer ws t = Some (t\<lparr>text_buffer := overlay (unat (textbuf_loc t)) ws (text_buffer t),
    textbuf_loc := textbuf_loc t + of_nat (length ws), cur_lines := cur_lines t + of_nat (count_list ws 10)\<rparr>)"
  using assms
proof (induction ws arbitrary: t)
  case (Cons ch ws)
  let ?t = "store_char ch (count_line ch t)"
  have f: "textbuf_loc ?t = textbuf_loc t + 1" "unat (textbuf_loc ?t) = Suc (unat (textbuf_loc t))"
      "text_buffer ?t = (text_buffer t)(unat (textbuf_loc t) := ch)" "max_char_y ?t = max_char_y t"
      "unat (cur_lines ?t) = unat (cur_lines t) + (if ch = 10 then 1 else 0)"
      "cur_lines ?t = cur_lines t + (if ch = 10 then 1 else 0)"
    using Cons.prems(1,2) by (auto simp: store_char_def count_line_def unat_plus_if')
  have "\<not> max_char_y (count_line ch t) < int (unat (cur_lines (count_line ch t)))"
    using Cons.prems(3) f(4,5) by (auto simp: store_char_def split: if_splits)
  then have "write_text_buffer (ch # ws) t = write_text_buffer ws ?t"
    by (simp add: Let_def)
  also have "\<dots> = Some (?t\<lparr>text_buffer := overlay (unat (textbuf_loc ?t)) ws (text_buffer ?t),
      textbuf_loc := textbuf_loc ?t + of_nat (length ws), cur_lines := cur_lines ?t + of_nat (count_list ws 10)\<rparr>)"
    by (rule Cons.IH) (use Cons.prems f in \<open>auto split: if_splits\<close>)
  also have "\<dots> = Some (t\<lparr>text_buffer := overlay (unat (textbuf_loc t)) (ch # ws) (text_buffer t),
      textbuf_loc := textbuf_loc t + of_nat (length (ch # ws)), cur_lines := cur_lines t + of_nat (count_list (ch # ws) 10)\<rparr>)"
    using f(2) unfolding f(1) by (simp add: store_char_def count_line_def overlay_Cons add.assoc)
  finally show ?case .
qed simp

lemma displays_overlay:
  assumes "unat (textbuf_loc t) = length xs" "unat (cur_lines t) = count_list xs 10" "length xs + length ws < 2 ^ 16" "0 \<notin> set (xs @ ws)"
    and "\<forall>i. i < length xs \<longrightarrow> text_buffer t i = xs ! i" "\<forall>i. length xs + length ws \<le> i \<longrightarrow> text_buffer t i = 0"
  shows "displays (t\<lparr>text_buffer := overlay (unat (textbuf_loc t)) ws (text_buffer t),
    textbuf_loc := textbuf_loc t + of_nat (length ws), cur_lines := cur_lines t + of_nat (count_list ws 10)\<rparr>) (xs @ ws)"
proof -
  have c: "count_list ws 10 \<le> length ws" "count_list xs 10 \<le> length xs"
    by (rule count_le_length)+
  show ?thesis
    using assms c by (auto simp: displays_def holds_def overlay_def nth_append unat_plus_if' unat_of_nat)
qed

lemma write_text_shows:
  assumes sh: "displays t xs" and room: "roomy t (xs @ ws @ ys)"
  obtains t' where "write_text_buffer ws t = Some t'" "displays t' (xs @ ws)" "same_line t t'" "user_chars t' = user_chars t"
proof -
  let ?t = "t\<lparr>text_buffer := overlay (unat (textbuf_loc t)) ws (text_buffer t),
    textbuf_loc := textbuf_loc t + of_nat (length ws), cur_lines := cur_lines t + of_nat (count_list ws 10)\<rparr>"
  have c: "count_list (xs @ ws) 10 \<le> length (xs @ ws)"
    by (rule count_le_length)
  then have "write_text_buffer ws t = Some ?t"
    using sh room by (intro write_text_overlay) (auto simp: displays_def roomy_def)
  moreover have "displays ?t (xs @ ws)"
    using sh room by (intro displays_overlay) (auto simp: displays_def roomy_def holds_def)
  moreover have "same_line t ?t"
    by (simp add: same_line_def)
  ultimately show thesis
    using that [of ?t] by simp
qed

section \<open>Drawing\<close>

lemma blank_from_fields:
  "text_buffer (blank_from i l t) = text_buffer t" "textbuf_loc (blank_from i l t) = textbuf_loc t"
  "cur_lines (blank_from i l t) = cur_lines t" "user_chars (blank_from i l t) = user_chars t"
  "user_char_index (blank_from i l t) = user_char_index t" "max_char_x (blank_from i l t) = max_char_x t"
  "max_char_y (blank_from i l t) = max_char_y t"
proof -
  have "text_buffer (fold (\<lambda>j. put_glyph 32 (j * w) h) is t) = text_buffer t \<and> textbuf_loc (fold (\<lambda>j. put_glyph 32 (j * w) h) is t) = textbuf_loc t \<and>
      cur_lines (fold (\<lambda>j. put_glyph 32 (j * w) h) is t) = cur_lines t \<and> user_chars (fold (\<lambda>j. put_glyph 32 (j * w) h) is t) = user_chars t \<and>
      user_char_index (fold (\<lambda>j. put_glyph 32 (j * w) h) is t) = user_char_index t \<and>
      max_char_x (fold (\<lambda>j. put_glyph 32 (j * w) h) is t) = max_char_x t \<and> max_char_y (fold (\<lambda>j. put_glyph 32 (j * w) h) is t) = max_char_y t"
    for w h "is"
    by (induction "is" arbitrary: t) (simp_all add: put_glyph_def)
  then show "text_buffer (blank_from i l t) = text_buffer t" "textbuf_loc (blank_from i l t) = textbuf_loc t"
      "cur_lines (blank_from i l t) = cur_lines t" "user_chars (blank_from i l t) = user_chars t"
      "user_char_index (blank_from i l t) = user_char_index t" "max_char_x (blank_from i l t) = max_char_x t"
      "max_char_y (blank_from i l t) = max_char_y t"
    by (simp_all add: blank_from_def)
qed

text \<open>Everything but the colours and the screen.\<close>

definition only_drawn :: "terminal \<Rightarrow> terminal \<Rightarrow> bool" where
  "only_drawn t t' \<longleftrightarrow> text_buffer t' = text_buffer t \<and> textbuf_loc t' = textbuf_loc t \<and> cur_lines t' = cur_lines t \<and>
     user_chars t' = user_chars t \<and> user_char_index t' = user_char_index t \<and> max_char_x t' = max_char_x t \<and> max_char_y t' = max_char_y t"

lemma only_drawn_simps [simp]:
  "only_drawn t t" "only_drawn (blank_from i l t) t' = only_drawn t t'" "only_drawn t (blank_from i l t') = only_drawn t t'"
  "only_drawn (put_glyph c x y t) t' = only_drawn t t'" "only_drawn (parse_color wild n t) t' = only_drawn t t'"
  "only_drawn t (put_glyph c x y t') = only_drawn t t'" "only_drawn t (parse_color wild n t') = only_drawn t t'"
  by (auto simp: only_drawn_def blank_from_fields put_glyph_def parse_color_def Let_def)

lemma displays_drawn: "only_drawn t t' \<Longrightarrow> displays t' xs = displays t xs"
  by (simp add: only_drawn_def displays_def)

lemma same_line_drawn: "only_drawn t t' \<Longrightarrow> same_line t t'"
  by (simp add: only_drawn_def same_line_def)

text \<open>The drawing loop ends: it never jumps over the end of the text.\<close>

lemma draw_loop_ends:
  assumes "holds (text_buffer t) xs" "length xs < 2 ^ 16" "n \<le> length xs" "colors_ok (drop n xs)"
  shows "\<exists>l t'. draw_loop wild (of_nat n) x y t = Some (l, t') \<and> only_drawn t t'"
  using assms
proof (induction "length xs - n" arbitrary: n x y t rule: less_induct)
  case less
  have un: "unat (of_nat n :: u16) = n"
    using less.prems(2,3) by (simp add: unat_of_nat)
  show ?case
  proof (cases "n = length xs")
    case True
    then have "text_buffer t (unat (of_nat n :: u16)) = 0"
      using less.prems(1) un by (simp add: holds_def)
    then show ?thesis
      by (subst draw_loop.simps) simp
  next
    case False
    then have n: "n < length xs"
      using less.prems(3) by simp
    have drop: "drop n xs = xs ! n # drop (Suc n) xs"
      using n by (rule Cons_nth_drop_Suc [symmetric])
    have at: "text_buffer t (unat (of_nat n :: u16)) = xs ! n" "xs ! n \<noteq> 0"
      using less.prems(1) n un nth_mem [OF n] unfolding holds_def by (simp, metis)
    have step: "\<exists>l t''. draw_loop wild (of_nat (n + k)) x' y' t' = Some (l, t'') \<and> only_drawn t' t''"
      if "only_drawn t t'" "0 < k" "n + k \<le> length xs" "colors_ok (drop (n + k) xs)" for k t' x' y'
      using that less.prems(1,2) n by (intro less.hyps) (simp_all add: only_drawn_def)
    show ?thesis
    proof (cases "xs ! n = 0xFF")
      case True
      then obtain a b ys where e: "drop (Suc n) xs = a # b # ys" "colors_ok ys"
        using less.prems(4) by (auto simp: drop split: list.splits)
      have "n + 3 \<le> length xs"
        using arg_cong [OF e(1), of length] by simp
      moreover have "drop (n + 3) xs = ys"
        using arg_cong [OF e(1), of "drop 2"] by (simp add: numeral_3_eq_3)
      ultimately show ?thesis
        using step [of "parse_color wild n t" 3 x y] e(2) at True un by (subst draw_loop.simps) (simp add: Let_def)
    next
      case False
      then have c: "colors_ok (drop (Suc n) xs)"
        using less.prems(4) by (simp add: drop)
      have "\<exists>l t'. (case p of (x', y') \<Rightarrow> draw_loop wild (of_nat n + 1) (x' + 1) y'
          (put_glyph (xs ! n) (uint x' * uint font_width) (uint y' * uint font_height) t)) = Some (l, t') \<and> only_drawn t t'" for p
        using step [of "put_glyph (xs ! n) (uint (fst p) * uint font_width) (uint (snd p) * uint font_height) t" 1 "fst p + 1" "snd p"] c n
        by (simp add: split_beta add.commute)
      moreover have "\<exists>l t'. draw_loop wild (of_nat n + 1) 0 (y + 1) (blank_from (uint x) (uint y) t) = Some (l, t') \<and> only_drawn t t'"
        using step [of "blank_from (uint x) (uint y) t" 1 0 "y + 1"] c n by (simp add: add.commute)
      ultimately show ?thesis
        using at False by (subst draw_loop.simps) (simp add: Let_def)
    qed
  qed
qed

lemma draw_text_shows:
  assumes sh: "displays t xs" and "length xs < 2 ^ 16" "colors_ok xs"
  obtains t' where "draw_text_buffer wild t = Some t'" "displays t' xs" "same_line t t'"
    "\<forall>i. user_chars t' i = (if 1 < i \<and> i < max_char_x t then 0 else user_chars t i)"
proof -
  obtain l t1 where 1: "draw_loop wild 0 0 0 t = Some (l, t1)" "only_drawn t t1"
    using draw_loop_ends [of t xs 0 wild 0 0] assms by (auto simp: displays_def)
  let ?t = "blank_from 0 (uint l) t1"
  let ?t' = "?t\<lparr>user_chars := (\<lambda>i. if 1 < i \<and> i < max_char_x ?t then 0 else user_chars ?t i)\<rparr>"
  have "draw_text_buffer wild t = Some ?t'"
    using 1(1) by (simp add: draw_text_buffer_def Let_def)
  moreover have "displays ?t' xs" "same_line t ?t'"
      "\<forall>i. user_chars ?t' i = (if 1 < i \<and> i < max_char_x t then 0 else user_chars t i)"
    using sh 1(2) by (auto simp: displays_def same_line_def only_drawn_def blank_from_fields)
  ultimately show thesis
    by (rule that)
qed

section \<open>What printf appends\<close>

definition hex_text :: "u32 \<Rightarrow> u8 list" where
  "hex_text n = (if n = 0 then ascii ''0x0'' else ascii ''0x'' @ map dchar (rev (lsd 16 (unat n))))"

lemma term_render_hex_eq:
  assumes "length final = 64"
  shows "term_render_hex n final t = write_text_buffer (hex_text n) t"
proof (cases "n = 0")
  case False
  let ?n = "ucast n :: u64"
  have "unat (ucast ?n :: u32) = unat ?n"
    using unsigned_less [of n] by (intro unat_low_word) (simp add: unat_ucast_up)
  then have n: "unat ?n = unat n" "ucast ?n = n"
    by (simp_all add: unat_ucast_up word_unat_eq_iff)
  have "0 < ?n" "?n < 2 ^ 32" "?n \<noteq> 0"
    using False n(1) unsigned_less [of n] by (auto simp: word_less_nat_alt word_unat_eq_iff)
  from print_hex_eq [OF this(1,2) assms] this(3)
  have "map_option (\<lambda>buf. buffer_string (buf[fst (digit_loop 16 n 2 (final[0 := 48, 1 := 120])) := 0]))
      (reverse_loop 2 (of_nat (fst (digit_loop 16 n 2 (final[0 := 48, 1 := 120]))) - 1) (snd (digit_loop 16 n 2 (final[0 := 48, 1 := 120])))) =
      Some (ascii ''0x'' @ map dchar (rev (lsd 16 (unat n))))"
    by (simp add: print_hex_def Let_def n split_beta)
  then show ?thesis
    using False by (auto simp: term_render_hex_def hex_text_def Let_def split_beta)
qed (simp add: term_render_hex_def hex_text_def)

text \<open>The text a format stands for; None when the format ends within a conversion or an argument is missing.\<close>

function expand :: "mem \<Rightarrow> u8 list \<Rightarrow> u32 list \<Rightarrow> u8 list option" where
  "expand m [] as = Some []"
| "expand m (c # fmt) as =
     (if c \<noteq> of_char CHR ''%'' then map_option ((#) c) (expand m fmt as)
      else case fmt of
        [] \<Rightarrow> None
      | d # rest \<Rightarrow>
          if d = of_char CHR ''x'' then Option.bind (take32 as) (\<lambda>(v, as'). map_option ((@) (hex_text v)) (expand m rest as'))
          else if d = of_char CHR ''%'' then map_option ((#) d) (expand m rest as)
          else if d = of_char CHR ''t'' then map_option ((#) 0xFF) (expand m rest as)
          else if d = of_char CHR ''s'' then
            Option.bind (take32 as) (\<lambda>(p, as'). Option.bind (cstring p m) (\<lambda>ws. map_option ((@) ws) (expand m rest as')))
          else if d = of_char CHR ''c'' then Option.bind (take32 as) (\<lambda>(v, as'). map_option ((#) (ucast v)) (expand m rest as'))
          else expand m rest as)"
  by pat_completeness auto
termination
  by (relation "measure (\<lambda>(m, fmt, as). length fmt)") auto

lemma printf_shows:
  assumes "expand m fmt as = Some out" "displays t xs" "roomy t (xs @ out)" "length stack = 64"
  shows "\<exists>t'. printf wild stack m fmt as t = Some t' \<and> displays t' (xs @ out) \<and> same_line t t'"
  using assms(1-3)
proof (induction "length fmt" arbitrary: fmt as t xs out rule: less_induct)
  case less
  let ?run = "printf wild stack m"
  have rest: "\<exists>t'. ?run fmt' as' t1 = Some t' \<and> displays t' (ys @ out') \<and> same_line t t'"
    if "length fmt' < length fmt" "expand m fmt' as' = Some out'" "displays t1 ys" "same_line t t1" "roomy t (ys @ out')" for fmt' as' out' t1 ys
    using less.hyps [of fmt' as' out' t1 ys] that roomy_same [OF that(4)] same_line_trans [OF that(4)] by fastforce
  have str: "\<exists>t'. Option.bind (write_text_buffer ws t) (?run fmt' as') = Some t' \<and> displays t' (xs @ out) \<and> same_line t t'"
    if s: "length fmt' < length fmt" "expand m fmt' as' = Some out'" "out = ws @ out'" for fmt' as' out' ws
  proof -
    have room: "roomy t (xs @ ws @ out')"
      using less.prems(3) s(3) by simp
    obtain t1 where "write_text_buffer ws t = Some t1" "displays t1 (xs @ ws)" "same_line t t1" "user_chars t1 = user_chars t"
      by (rule write_text_shows [OF less.prems(2) room])
    then show ?thesis
      using rest [OF s(1,2), of t1 "xs @ ws"] room s(3) by simp
  qed
  have chr: "\<exists>t'. Option.bind (write_char_text_buffer ch t) (?run fmt' as') = Some t' \<and> displays t' (xs @ out) \<and> same_line t t'"
    if s: "length fmt' < length fmt" "expand m fmt' as' = Some out'" "out = ch # out'" for fmt' as' out' ch
  proof -
    have room: "roomy t (xs @ ch # out')"
      using less.prems(3) s(3) by simp
    obtain t1 where "write_char_text_buffer ch t = Some t1" "displays t1 (xs @ [ch])" "same_line t t1" "user_chars t1 = user_chars t"
      by (rule write_char_shows [OF less.prems(2) room])
    then show ?thesis
      using rest [OF s(1,2), of t1 "xs @ [ch]"] room s(3) by simp
  qed
  show ?case
  proof (cases fmt)
    case Nil
    then show ?thesis
      using less.prems by (simp add: printf.simps)
  next
    case (Cons c fmt0)
    show ?thesis
    proof (cases "c = of_char CHR ''%''")
      case True
      then obtain d fmt' where f: "fmt0 = d # fmt'"
        using less.prems(1) Cons by (cases fmt0) simp_all
      have len: "length fmt' < length fmt"
        by (simp add: Cons f)
      show ?thesis
        using less.prems(1) str [OF len] chr [OF len] rest [OF len _ less.prems(2) same_line_refl] less.prems(3)
        unfolding Cons f by (auto simp: True printf.simps term_render_hex_eq [OF assms(4)] bind_eq_Some_conv split: if_splits)
    next
      case False
      then obtain out' where o: "expand m fmt0 as = Some out'" "out = c # out'"
        using less.prems(1) Cons by auto
      then have room: "roomy t (xs @ c # out')"
        using less.prems(3) by simp
      obtain t1 where t1: "write_char_text_buffer c t = Some t1" "displays t1 (xs @ [c])" "same_line t t1" "user_chars t1 = user_chars t"
        by (rule write_char_shows [OF less.prems(2) room])
      have "\<exists>t2. (if c = 10 then draw_text_buffer wild t1 else Some t1) = Some t2 \<and> displays t2 (xs @ [c]) \<and> same_line t t2"
      proof (cases "c = 10")
        case True
        then have "length (xs @ [c]) < 2 ^ 16" "colors_ok (xs @ [c])"
          using room colors_ok_line [of xs out'] by (auto simp: roomy_def)
        then obtain t2 where "draw_text_buffer wild t1 = Some t2" "displays t2 (xs @ [c])" "same_line t1 t2"
          using draw_text_shows [OF t1(2)] by metis
        then show ?thesis
          using True same_line_trans [OF t1(3)] by auto
      qed (use t1 in simp)
      then show ?thesis
        using rest [OF _ o(1)] room False t1(1) o(2) by (fastforce simp: Cons printf.simps)
    qed
  qed
qed

text \<open>
  What \<open>printf\<close> shows. With a screen that has room for the lines, so that nothing scrolls, and every colour escape
  complete on its line, \<open>printf\<close> returns and appends to the text on the screen exactly the text its format and arguments
  stand for, counting its lines; the drawing it does at each newline ends, and the prompt and the position in
  the line being typed stay as they are.
\<close>

theorem printf_appends:
  assumes "expand m fmt as = Some out" and "displays t xs" and "roomy t (xs @ out)" and "length stack = 64"
  shows "\<exists>t'. printf wild stack m fmt as t = Some t' \<and> displays t' (xs @ out) \<and> same_line t t'"
  by (rule printf_shows [OF assms])

theorem printf_appends_witness:
  "\<exists>t'. printf (\<lambda>_. 0) (replicate 64 0) (\<lambda>_. 0) (ascii ''x=%x\<newline>'') [42] (demo_terminal\<lparr>max_char_y := 5\<rparr>) = Some t' \<and>
     displays t' (([97, 10, 98, 99] @ ascii ''x='') @ hex_text 42 @ [10])"
proof -
  have d: "displays (demo_terminal\<lparr>max_char_y := 5\<rparr>) [97, 10, 98, 99]"
    by (simp add: displays_def holds_def demo_terminal_def padded_def)
  have e: "expand (\<lambda>_. 0) (ascii ''x=%x\<newline>'') [42] = Some (ascii ''x='' @ hex_text 42 @ [10])"
    by simp
  have h: "hex_text 42 = ascii ''0x'' @ map dchar [2, 10]"
    by (simp add: hex_text_def lsd_step)
  have "map dchar [2, 10] = [50, 97]"
    by code_simp
  then have "roomy (demo_terminal\<lparr>max_char_y := 5\<rparr>) ([97, 10, 98, 99] @ ascii ''x='' @ hex_text 42 @ [10])"
    unfolding h by (simp add: roomy_def demo_terminal_def)
  from printf_appends [OF e d this, of "replicate 64 0" "\<lambda>_. 0"] show ?thesis
    by auto
qed

end
