(* ===== verification/Terminal_Commands.thy ===== *)
theory Terminal_Commands
  imports Terminal_Output
begin

text \<open>
  The line typed at the terminal and the answer to its command (\<open>terminal_loop\<close>, \<open>parse_user_chars\<close> of
  \<open>programs/terminal.c\<close>), from the key events to the text on the screen.
\<close>

section \<open>Typing a line\<close>

text \<open>
  The state between two key events: the screen shows \<open>xs\<close>, and \<open>w\<close> has been typed, which is in the input line after
  the prompt and, where it will be on the screen, in the text buffer.
\<close>

definition typing :: "terminal \<Rightarrow> u8 list \<Rightarrow> u8 list \<Rightarrow> bool" where
  "typing t xs w \<longleftrightarrow>
     unat (textbuf_loc t) = length xs \<and> unat (cur_lines t) = count_list xs 10 \<and> 0 \<notin> set xs \<and>
     text_buffer t = overlay (length xs + 2) w (\<lambda>i. if i < length xs then xs ! i else 0) \<and>
     (\<forall>i\<ge>0. user_chars t i = (if nat i < length ([62, 32] @ w) then ([62, 32] @ w) ! nat i else 0)) \<and>
     unat (user_char_index t) = length w + 2"

definition same_screen :: "terminal \<Rightarrow> terminal \<Rightarrow> bool" where
  "same_screen t t' \<longleftrightarrow> max_char_x t' = max_char_x t \<and> max_char_y t' = max_char_y t"

lemma same_screen_trans: "same_screen t t' \<Longrightarrow> same_screen t' t'' \<Longrightarrow> same_screen t t''"
  by (simp add: same_screen_def)

lemma typing_drawn: "only_drawn t t' \<Longrightarrow> typing t' xs w = typing t xs w"
  by (simp add: only_drawn_def typing_def)

lemma draw_user_loop_ends:
  assumes "\<forall>i\<ge>0. user_chars t i = (if nat i < length l then l ! nat i else 0)" "0 \<notin> set l" "n \<le> length l"
  shows "\<exists>t'. draw_user_loop (int n) t = Some t' \<and> only_drawn t t'"
  using assms
proof (induction "length l - n" arbitrary: n t)
  case 0
  then show ?case
    by (subst draw_user_loop.simps) simp
next
  case (Suc k)
  then have n: "n < length l"
    by simp
  have "l ! n \<noteq> 0"
    using Suc.prems(2) nth_mem [OF n] by metis
  then have "user_chars t (int n) \<noteq> 0"
    using Suc.prems(1) n by simp
  let ?t = "put_glyph (user_chars t (int n)) (int n * uint font_width) (uint (cur_lines t) * uint font_height) t"
  have "\<exists>t'. draw_user_loop (int (Suc n)) ?t = Some t' \<and> only_drawn ?t t'"
    using Suc by (intro Suc.hyps(1)) (simp_all add: put_glyph_def)
  then show ?case
    using \<open>user_chars t (int n) \<noteq> 0\<close> by (subst draw_user_loop.simps) (simp add: add.commute)
qed

lemma draw_user_typing:
  assumes "typing t xs w" "0 \<notin> set w"
  shows "\<exists>t'. draw_user_chars t = Some t' \<and> typing t' xs w \<and> same_screen t t'"
proof -
  obtain t' where t': "draw_user_chars t = Some t'" "only_drawn t t'"
    using draw_user_loop_ends [of t "[62, 32] @ w" 0] assms by (auto simp: typing_def draw_user_chars_def)
  then have "same_screen t t'"
    by (simp add: only_drawn_def same_screen_def)
  then show ?thesis
    using t' assms(1) typing_drawn [OF t'(2)] by simp
qed

text \<open>A printing character is added to the line.\<close>

lemma write_user_char_types:
  assumes ty: "typing t xs w" and ch: "ch \<noteq> 8" "int (length w) + 2 < max_char_x t" "length w + 3 < 2 ^ 16"
  shows "typing (write_user_char ch t) xs (w @ [ch])" "same_screen t (write_user_char ch t)"
proof -
  have i: "unat (user_char_index t) = length w + 2" "uint (user_char_index t) = int (length w) + 2"
    using ty by (simp_all add: typing_def uint_nat)
  let ?t = "t\<lparr>user_chars := (user_chars t)(uint (user_char_index t) := ch),
             text_buffer := (text_buffer t)(unat (textbuf_loc t) + unat (user_char_index t) := ch),
             user_char_index := user_char_index t + 1\<rparr>"
  have eq: "write_user_char ch t = ?t"
    using ch i(2) by (simp add: write_user_char_def)
  have "(text_buffer t)(unat (textbuf_loc t) + unat (user_char_index t) := ch) =
      overlay (length xs + 2) (w @ [ch]) (\<lambda>i. if i < length xs then xs ! i else 0)"
    using ty i(1) by (auto simp: typing_def overlay_def fun_eq_iff nth_append)
  then show "typing (write_user_char ch t) xs (w @ [ch])"
    unfolding eq using ty i ch(3) by (auto simp: typing_def unat_plus_if' nth_append nth_Cons' nat_less_iff)
  show "same_screen t (write_user_char ch t)"
    by (simp add: eq same_screen_def)
qed

text \<open>The line as \<open>write_text_buffer\<close> reads it.\<close>

lemma user_line_eq:
  assumes "\<forall>i\<ge>0. user_chars t i = (if nat i < length l then l ! nat i else 0)" "0 \<notin> set l" "n \<le> length l"
  shows "user_line (int n) t = Some (drop n l)"
  using assms
proof (induction "length l - n" arbitrary: n)
  case 0
  then show ?case
    by (subst user_line.simps) simp
next
  case (Suc k)
  then have n: "n < length l"
    by simp
  then have "user_chars t (int n) = l ! n" "l ! n \<noteq> 0"
    using Suc.prems(1,2) nth_mem [OF n] by (simp, metis)
  moreover have "user_line (int (Suc n)) t = Some (drop (Suc n) l)"
    using Suc by (intro Suc.hyps(1)) simp_all
  ultimately show ?case
    using Cons_nth_drop_Suc [OF n] by (subst user_line.simps) (simp add: add.commute)
qed

text \<open>The command is the first word of the line.\<close>

definition first_word :: "u8 list \<Rightarrow> u8 list" where
  "first_word w = takeWhile (\<lambda>c. c \<noteq> 32) w"

definition cells :: "u8 list \<Rightarrow> int \<Rightarrow> u8" where
  "cells c = (\<lambda>i. if 0 \<le> i \<and> nat i < length c then c ! nat i else 0)"

lemma sint_small: "n < 128 \<Longrightarrow> sint (of_nat n :: 8 word) = int n"
  by (simp add: signed_of_nat signed_take_bit_int_eq_self)

lemma parse_loop_eq:
  assumes "\<forall>i<length c. chars (int i + 2) = c ! i" "chars (int (length c) + 2) \<in> {0, 32, 10}"
    and "\<forall>x\<in>set c. x \<notin> {0, 32, 10}" "length c + 2 < 128" "n \<le> length c"
  shows "parse_loop (of_nat (n + 2)) chars (cells (take n c)) = Some (cells c)"
  using assms(5)
proof (induction "length c - n" arbitrary: n)
  case 0
  then have n: "n = length c" "sint (of_nat (n + 2) :: 8 word) = int n + 2"
    using assms(4) sint_small [of "n + 2"] by simp_all
  then show ?case
    using assms(2) by (subst parse_loop.simps) (auto simp: Let_def)
next
  case (Suc k)
  then have n: "n < length c" "sint (of_nat (n + 2) :: 8 word) = int n + 2"
    using assms(4) sint_small [of "n + 2"] by simp_all
  have "c ! n \<notin> {0, 32, 10}"
    using assms(3) nth_mem [OF n(1)] by blast
  moreover have "(cells (take n c))(int n := c ! n) = cells (take (Suc n) c)"
    using n(1) by (auto simp: cells_def fun_eq_iff nat_less_iff nth_append take_Suc_conv_app_nth)
  moreover have "parse_loop (of_nat (Suc n + 2)) chars (cells (take (Suc n) c)) = Some (cells c)"
    using Suc by (intro Suc.hyps(1)) simp_all
  ultimately show ?case
    using n assms(1) by (subst parse_loop.simps) (simp add: Let_def add.commute)
qed

section \<open>The answer to a command\<close>

definition answer :: "u8 list \<Rightarrow> u8 list \<Rightarrow> u8 list" where
  "answer v c =
     (if take 7 c = ascii ''version'' then ascii ''WordOS kernel version: '' @ 0xFF # ascii ''30'' @ v @ 0xFF # ascii ''10\<newline>''
      else if take 4 c = ascii ''woof'' then 0xFF # ascii ''54okay'' @ 0xFF # ascii ''10\<newline>''
      else ascii ''Command '' @ 0xFF # ascii ''20'' @ c @ 0xFF # ascii ''10 unknown.\<newline>'')"

definition string_at :: "mem \<Rightarrow> u32 \<Rightarrow> u8 list \<Rightarrow> bool" where
  "string_at m p v \<longleftrightarrow> 0 \<notin> set v \<and> length v < 2 ^ 32 \<and> (\<forall>i\<le>length v. m (p + of_nat i) = (v @ [0]) ! i)"

lemma cstring_at:
  assumes "string_at m p v"
  shows "cstring p m = Some v"
proof -
  have "strlen_loop p m = Some (p + of_nat (length v))"
  proof (rule strlen_loop_found)
    show "m (p + of_nat (length v)) = 0"
      using assms by (simp add: string_at_def)
    show "\<forall>i<length v. m (p + of_nat i) \<noteq> 0"
      using assms by (auto simp: string_at_def nth_append dest!: nth_mem)
  qed
  then have "strlen p m = Some (of_nat (length v))"
    by (simp add: strlen_def)
  moreover have "map (\<lambda>i. m (p + of_nat i)) [0..<length v] = v"
    using assms by (intro nth_equalityI) (auto simp: string_at_def nth_append)
  ultimately show ?thesis
    using assms by (simp add: cstring_def string_at_def unat_of_nat)
qed

lemma expand_literal:
  "of_char CHR ''%'' \<notin> set xs \<Longrightarrow> expand m (xs @ fmt) as = map_option ((@) xs) (expand m fmt as)"
  by (cases "expand m fmt as"; induction xs) simp_all

lemma matches_cells:
  assumes "0 \<notin> set (ascii name)" "n = length name"
  shows "matches name (cells c) \<longleftrightarrow> take n c = ascii name"
proof -
  have len: "length (ascii name) = length name"
    by (simp add: ascii_def)
  have "map (\<lambda>i. cells c (int i)) [0..<n] = take n c @ replicate (n - length c) 0" for n
    by (rule nth_equalityI) (auto simp: cells_def nth_append)
  then have "matches name (cells c) \<longleftrightarrow> take (length name) c @ replicate (length name - length c) 0 = ascii name"
    by (simp add: matches_def)
  also have "\<dots> \<longleftrightarrow> take (length name) c = ascii name"
  proof (cases "length name \<le> length c")
    case False
    then have "0 \<in> set (take (length name) c @ replicate (length name - length c) 0)"
      by simp
    then have "take (length name) c @ replicate (length name - length c) 0 \<noteq> ascii name"
      using assms(1) by metis
    moreover have "take (length name) c \<noteq> ascii name"
      using False arg_cong [of _ _ length] len by fastforce
    ultimately show ?thesis
      by simp
  qed simp
  finally show ?thesis
    by (simp add: assms(2))
qed

lemma which_command_cells:
  "which_command (cells c) =
     (if take 7 c = ascii ''version'' then Version else if take 4 c = ascii ''woof'' then Woof
      else if take 8 c = ascii ''shutdown'' then Shutdown else Unknown)"
proof -
  have "matches ''version'' (cells c) \<longleftrightarrow> take 7 c = ascii ''version''" "matches ''woof'' (cells c) \<longleftrightarrow> take 4 c = ascii ''woof''"
      "matches ''shutdown'' (cells c) \<longleftrightarrow> take 8 c = ascii ''shutdown''"
    by (rule matches_cells; simp)+
  then show ?thesis
    by (simp only: which_command_def)
qed

lemma expand_answers:
  "string_at m version v \<Longrightarrow>
     expand m (ascii ''WordOS kernel version: %t30%s%t10\<newline>'') [version] =
     Some (ascii ''WordOS kernel version: '' @ 0xFF # ascii ''30'' @ v @ 0xFF # ascii ''10\<newline>'')"
  "expand m (ascii ''%t54okay%t10\<newline>'') [] = Some (0xFF # ascii ''54okay'' @ 0xFF # ascii ''10\<newline>'')"
  "string_at m command c \<Longrightarrow>
     expand m (ascii ''Command %t20%s%t10 unknown.\<newline>'') [command] =
     Some (ascii ''Command '' @ 0xFF # ascii ''20'' @ c @ 0xFF # ascii ''10 unknown.\<newline>'')"
  by (simp_all add: cstring_at)

lemma run_command_answers:
  assumes sh: "displays t xs" and at: "string_at m version v" "string_at m command c" "take 8 c \<noteq> ascii ''shutdown''"
    and room: "roomy t (xs @ answer v c)" and stack: "length stack = 64"
  shows "\<exists>t'. run_command wild stack m version command (cells c) t = Some t' \<and> displays t' (xs @ answer v c) \<and> same_line t t'"
proof -
  note prints = printf_shows [OF _ sh, of m _ _ _ stack wild, OF _ _ stack]
  show ?thesis
    using prints [OF expand_answers(1) [OF at(1)]] prints [OF expand_answers(2)] prints [OF expand_answers(3) [OF at(2)]] room at(3)
    unfolding run_command_def which_command_cells answer_def by (simp only: command.case split: if_splits) auto
qed

lemma with_command_block:
  assumes "0 \<notin> set c" "int (length c) < n" "n < 2 ^ 32"
  shows "string_at (with_command command n (cells c) m) command c"
    "string_at m version v \<Longrightarrow> \<forall>i\<le>length v. n \<le> int (off command (version + of_nat i)) \<Longrightarrow>
     string_at (with_command command n (cells c) m) version v"
proof -
  show "string_at (with_command command n (cells c) m) command c"
    using assms by (auto simp: string_at_def with_command_def cells_def nth_append)
  assume v: "string_at m version v" "\<forall>i\<le>length v. n \<le> int (off command (version + of_nat i))"
  have "with_command command n (cells c) m (version + of_nat i) = m (version + of_nat i)" if "i \<le> length v" for i
    using v(2) that by (auto simp: with_command_def)
  then show "string_at (with_command command n (cells c) m) version v"
    using v(1) by (simp add: string_at_def)
qed

lemma first_word_end:
  "length (first_word w) \<le> length w" "set (first_word w) \<subseteq> set w - {32}"
  "i < length (first_word w) \<Longrightarrow> first_word w ! i = w ! i"
  "(w @ [10]) ! length (first_word w) \<in> {32, 10}"
  using length_takeWhile_le [of _ w] nth_length_takeWhile [of "\<lambda>c. c \<noteq> 32" w]
  by (auto simp: first_word_def takeWhile_nth nth_append dest: set_takeWhileD)

lemma typing_start:
  assumes "displays t xs" "user_char_index t = 2" "\<forall>i\<ge>0. user_chars t i = (if i = 0 then 62 else if i = 1 then 32 else 0)"
  shows "typing t xs []"
  using assms by (auto simp: typing_def displays_def holds_def fun_eq_iff nth_Cons')

text \<open>After a flush the line is empty and the next one can be typed.\<close>

lemma flush_types:
  assumes sh: "displays t ys" and ok: "roomy t ys" and line: "user_char_index t = 2" "user_chars t 0 = 62" "user_chars t 1 = 32"
      "\<forall>i\<ge>max_char_x t. user_chars t i = 0" "2 \<le> max_char_x t"
  shows "\<exists>t'. tflush wild t = Some t' \<and> typing t' ys [] \<and> same_screen t t'"
proof -
  have r: "length ys < 2 ^ 16" "colors_ok ys"
    using ok by (simp_all add: roomy_def)
  obtain t1 where t1: "draw_text_buffer wild t = Some t1" "displays t1 ys" "same_line t t1"
      "\<forall>i. user_chars t1 i = (if 1 < i \<and> i < max_char_x t then 0 else user_chars t i)"
    by (rule draw_text_shows [OF sh r])
  have "user_chars t1 i = (if i = 0 then 62 else if i = 1 then 32 else 0)" if "0 \<le> i" for i
  proof -
    have "i = 0 \<or> i = 1 \<or> (1 < i \<and> i < max_char_x t) \<or> max_char_x t \<le> i"
      using that by arith
    then show ?thesis
      using t1(4) line by (elim disjE) auto
  qed
  then have "typing t1 ys []"
    using t1(2,3) line(1) by (intro typing_start) (auto simp: same_line_def)
  then obtain t2 where "draw_user_chars t1 = Some t2" "typing t2 ys []" "same_screen t1 t2"
    using draw_user_typing [of t1 ys "[]"] by auto
  then show ?thesis
    using t1(1,3) by (auto simp: tflush_def same_screen_def same_line_def)
qed

definition screen_line :: "u8 list \<Rightarrow> u8 list" where
  "screen_line w = [62, 32] @ w @ [10]"

lemma enter_answers:
  assumes ty: "typing t xs w" and w: "10 \<notin> set w" "int (length w) + 2 < max_char_x t" "length w + 2 < 127" "max_char_x t < 2 ^ 16"
    and at: "string_at m version v" "\<forall>i\<le>length v. max_char_x t \<le> int (off command (version + of_nat i))"
    and c: "c = first_word w" "take 8 c \<noteq> ascii ''shutdown''"
    and room: "roomy t (xs @ screen_line w @ answer v c)" and stack: "length stack = 64"
  obtains t' where
    "Option.bind (user_line 0 (write_user_char 10 t)) (\<lambda>line. Option.bind (write_text_buffer line (write_user_char 10 t))
       (\<lambda>t2. Option.bind (parse_user_chars wild stack m version command t2)
         (\<lambda>t3. tflush wild (t3\<lparr>user_char_index := 2\<rparr>)))) = Some t'"
    "typing t' (xs @ screen_line w @ answer v c) []" "same_screen t t'"
proof -
  let ?l = "screen_line w" and ?t1 = "write_user_char 10 t"
  have nz: "0 \<notin> set xs" "0 \<notin> set w" "0 \<notin> set ?l"
    using room by (auto simp: roomy_def screen_line_def)
  have t1: "typing ?t1 xs (w @ [10])" "same_screen t ?t1"
    using write_user_char_types [OF ty, of 10] w by simp_all
  have uc: "\<forall>i\<ge>0. user_chars ?t1 i = (if nat i < length ?l then ?l ! nat i else 0)"
    using t1(1) by (simp add: typing_def screen_line_def)
  have line: "user_line 0 ?t1 = Some ?l"
    using user_line_eq [OF uc nz(3), of 0] by simp
  define t2 where "t2 = ?t1\<lparr>text_buffer := overlay (unat (textbuf_loc ?t1)) ?l (text_buffer ?t1),
    textbuf_loc := textbuf_loc ?t1 + of_nat (length ?l), cur_lines := cur_lines ?t1 + of_nat (count_list ?l 10)\<rparr>"
  have room2: "length (xs @ ?l) < 2 ^ 16" "int (count_list (xs @ ?l) 10) < max_char_y t" "count_list (xs @ ?l) 10 \<le> length (xs @ ?l)"
    using room count_le_length [of "xs @ ?l" 10] by (auto simp: roomy_def)
  have 2: "write_text_buffer ?l ?t1 = Some t2"
    unfolding t2_def using t1 room2 by (intro write_text_overlay) (auto simp: typing_def same_screen_def)
  have 3: "displays t2 (xs @ ?l)"
    unfolding t2_def using t1 room2 nz by (intro displays_overlay) (auto simp: typing_def screen_line_def overlay_def)
  have f2: "user_chars t2 = user_chars ?t1" "max_char_x t2 = max_char_x t" "max_char_y t2 = max_char_y t"
    using t1(2) by (simp_all add: t2_def same_screen_def)
  have cw: "0 \<notin> set c" "length c \<le> length w" "\<forall>x\<in>set c. x \<notin> {0, 32, 10}"
    using first_word_end(1,2) [of w] nz(2) w(1) by (auto simp: c(1))
  have at_line: "user_chars t2 (int i + 2) = (w @ [10]) ! i" if "i \<le> length w" for i
    using uc f2(1) that by (simp add: screen_line_def nat_add_distrib nth_append)
  have "parse_loop (of_nat (0 + 2)) (user_chars t2) (cells (take 0 c)) = Some (cells c)"
    using cw w(3) at_line first_word_end(1,4) [of w] first_word_end(3) [of _ w] by (intro parse_loop_eq) (auto simp: c(1) nth_append)
  moreover have "cells (take 0 c) = (\<lambda>_. 0)"
    by (simp add: cells_def)
  ultimately have parse: "parse_loop 2 (user_chars t2) (\<lambda>_. 0) = Some (cells c)"
    by simp
  have room3: "roomy t2 ((xs @ ?l) @ answer v c)"
    using room f2 by (simp add: roomy_def)
  have blk: "string_at (with_command command (max_char_x t) (cells c) m) command c"
      "string_at (with_command command (max_char_x t) (cells c) m) version v"
    using with_command_block [OF cw(1), of "max_char_x t"] w(2,4) cw(2) at by auto
  obtain t3 where t3: "parse_user_chars wild stack m version command t2 = Some t3" "displays t3 ((xs @ ?l) @ answer v c)" "same_line t2 t3"
    using run_command_answers [OF 3 blk(2,1) c(2) room3 stack, of wild] parse f2(2) by (auto simp: parse_user_chars_def)
  let ?t3 = "t3\<lparr>user_char_index := 2\<rparr>"
  have f3: "max_char_x t3 = max_char_x t" "max_char_y t3 = max_char_y t" "\<forall>i. i \<le> 1 \<or> max_char_x t \<le> i \<longrightarrow> user_chars t3 i = user_chars ?t1 i"
    using t3(3) f2 by (simp_all add: same_line_def)
  have "\<exists>t'. tflush wild ?t3 = Some t' \<and> typing t' (xs @ ?l @ answer v c) [] \<and> same_screen ?t3 t'"
    using t3(2) room f3 uc w(2) by (intro flush_types) (auto simp: displays_def roomy_def screen_line_def)
  then show thesis
    using that line 2 t3(1) f3 by (auto simp: same_screen_def)
qed

section \<open>Key events\<close>

definition keysym_of :: "key_event \<Rightarrow> u8" where
  "keysym_of e = (if code e = KEY_NULL \<or> masks e AND RELEASE_MASK \<noteq> 0 then 0 else keycode_to_keysym e)"

fun terminal_events ::
  "(u32 \<Rightarrow> u32) \<Rightarrow> u8 list \<Rightarrow> mem \<Rightarrow> u32 \<Rightarrow> u32 \<Rightarrow> key_event list \<Rightarrow> terminal \<Rightarrow> terminal option" where
  "terminal_events wild stack m version command [] t = Some t"
| "terminal_events wild stack m version command (e # es) t =
     Option.bind (terminal_event wild stack m version command e t) (terminal_events wild stack m version command es)"

text \<open>The characters typed by a sequence of events: releases and modifiers type none.\<close>

definition typed :: "key_event list \<Rightarrow> u8 list" where
  "typed es = filter (\<lambda>c. c \<noteq> 0) (map keysym_of es)"

lemma terminal_events_append:
  "terminal_events wild stack m version command (es @ es') t =
     Option.bind (terminal_events wild stack m version command es t) (terminal_events wild stack m version command es')"
  by (induction es arbitrary: t) (auto split: Option.bind_splits)

lemma terminal_event_keysym:
  "terminal_event wild stack m version command e t =
     (if keysym_of e = 0 then Some t
      else Option.bind
        (if keysym_of e = 10 then
           Option.bind (user_line 0 (write_user_char 10 t)) (\<lambda>line. Option.bind (write_text_buffer line (write_user_char 10 t))
             (\<lambda>t2. Option.bind (parse_user_chars wild stack m version command t2)
               (\<lambda>t3. tflush wild (t3\<lparr>user_char_index := 2\<rparr>))))
         else Some (write_user_char (keysym_of e) t)) draw_user_chars)"
  by (simp add: terminal_event_def keysym_of_def Let_def)

lemma typed_events:
  assumes "typing t xs w" "8 \<notin> set (typed es)" "10 \<notin> set (typed es)" "0 \<notin> set w"
    and "int (length (w @ typed es)) + 2 < max_char_x t" "length (w @ typed es) + 2 < 127"
  shows "\<exists>t'. terminal_events wild stack m version command es t = Some t' \<and> typing t' xs (w @ typed es) \<and> same_screen t t'"
  using assms
proof (induction es arbitrary: t w)
  case Nil
  then show ?case
    by (simp add: typed_def same_screen_def)
next
  case (Cons e es)
  show ?case
  proof (cases "keysym_of e = 0")
    case True
    then show ?thesis
      using Cons by (simp add: terminal_event_keysym typed_def)
  next
    case False
    let ?c = "keysym_of e"
    have ty: "typed (e # es) = ?c # typed es"
      using False by (simp add: typed_def)
    have 1: "typing (write_user_char ?c t) xs (w @ [?c])" "same_screen t (write_user_char ?c t)"
      using write_user_char_types [OF Cons.prems(1), of ?c] Cons.prems(2,5,6) ty by auto
    obtain t1 where t1: "draw_user_chars (write_user_char ?c t) = Some t1" "typing t1 xs (w @ [?c])" "same_screen (write_user_char ?c t) t1"
      using draw_user_typing [OF 1(1)] Cons.prems(4) False by auto
    have s: "same_screen t t1"
      by (rule same_screen_trans [OF 1(2) t1(3)])
    have "\<exists>t'. terminal_events wild stack m version command es t1 = Some t' \<and> typing t' xs ((w @ [?c]) @ typed es) \<and> same_screen t1 t'"
      using Cons.prems ty s False by (intro Cons.IH [OF t1(2)]) (auto simp: same_screen_def)
    moreover have "?c \<noteq> 10"
      using Cons.prems(3) ty by auto
    ultimately show ?thesis
      using t1(1) False ty same_screen_trans [OF s] by (auto simp: terminal_event_keysym)
  qed
qed


section \<open>From the start to the first answer\<close>

definition banner :: "u8 list" where
  "banner = ascii ''Terminal function: '' @ 0xFF # ascii ''70OK!'' @ 0xFF # ascii ''10\<newline>''"

text \<open>The terminal waits for input once it is set up.\<close>

lemma init_terminal_waits:
  assumes t: "textbuf_loc t = 0" "cur_lines t = 0" "user_char_index t = 2"
    and screen: "24 \<le> uint width" "64 \<le> uint height" and stack: "length stack = 64"
  obtains t' where "init_terminal wild stack m width height t = Some t'" "typing t' banner []" "term_ready t'"
    "max_char_x t' = uint width div 8 - 1" "max_char_y t' = uint height div 16 - 2"
proof -
  define t1 where "t1 = t\<lparr>max_char_x := uint width div (8 * uint font_size) - 1, max_char_y := uint height div (16 * uint font_size) - 2,
    text_buffer := (\<lambda>_. 0), user_chars := (\<lambda>_. 0)(0 := of_char CHR ''>'', 1 := 32)\<rparr>"
  have x: "2 \<le> max_char_x t1" "2 \<le> max_char_y t1" "max_char_x t1 = uint width div 8 - 1" "max_char_y t1 = uint height div 16 - 2"
    using screen by (simp_all add: t1_def font_size_def)
  have "displays t1 []"
    using t by (simp add: displays_def holds_def t1_def)
  moreover have "expand m (ascii ''Terminal function: %t70OK!%t10\<newline>'') [] = Some banner"
    by (simp add: banner_def)
  moreover have room: "roomy t1 ([] @ banner)"
    using x(2) by (simp add: roomy_def banner_def)
  ultimately obtain t2 where t2: "printf wild stack m (ascii ''Terminal function: %t70OK!%t10\<newline>'') [] t1 = Some t2"
      "displays t2 ([] @ banner)" "same_line t1 t2"
    using printf_shows [OF _ _ _ stack] by metis
  have "\<exists>t'. tflush wild t2 = Some t' \<and> typing t' banner [] \<and> same_screen t2 t'"
    using t2(2,3) room x(1) t(3) by (intro flush_types) (auto simp: same_line_def roomy_def t1_def)
  then obtain t3 where t3: "tflush wild t2 = Some t3" "typing t3 banner []" "same_screen t2 t3"
    by blast
  show thesis
  proof
    show "init_terminal wild stack m width height t = Some (t3\<lparr>term_ready := True\<rparr>)"
      using t2(1) t3(1) by (simp add: init_terminal_def Let_def t1_def)
    show "typing (t3\<lparr>term_ready := True\<rparr>) banner []"
      using t3(2) by (simp add: typing_def)
  qed (use t2(3) t3(3) x in \<open>simp_all add: same_line_def same_screen_def\<close>)
qed


end
