(* ===== verification/Programs.thy ===== *)
theory Programs
  imports Terminal_Commands Process_Space Interrupts
begin

text \<open>
  Processes started and ended by programs: the system call \<open>kernel_stack_fn\<close> of \<open>kernel/idt.c\<close>, \<open>bark_process\<close> and
  \<open>start_terminal\<close> of \<open>programs/terminal.c\<close>.
\<close>

section \<open>The operations\<close>

text \<open>
  \<open>kernel_stack_fn\<close>, called with 4 by the stub of vector 0x80: \<open>function\<close> and \<open>privileged\<close> are what the caller has in
  registers (the name and the argument are not kept by \<open>create_process\<close>).
\<close>

definition kernel_stack_fn ::
  "(pae \<Rightarrow> pae result) \<Rightarrow> u32 \<Rightarrow> u32 \<Rightarrow> u32 \<Rightarrow> process \<Rightarrow> u32 \<Rightarrow> u32 \<Rightarrow> int \<Rightarrow> u32 \<Rightarrow> int \<Rightarrow> sched \<Rightarrow> pae vm \<Rightarrow> history \<Rightarrow>
     (sched \<times> pae vm \<times> history) outcome" where
  "kernel_stack_fn ka lapic p c garbage r0 r3 num function privileged ps s h =
     bind_out (if num = 4 then bind_out (spawn ka p c garbage r0 r3 function privileged ps s) (\<lambda>(q, ps', s'). Some (Inr (ps', s')))
               else Some (Inr (ps, s)))
       (\<lambda>(ps', s'). Some (Inr (ps', s', send_EOI lapic h)))"

fun bark_loop :: "nat \<Rightarrow> (u32 \<Rightarrow> u32) \<Rightarrow> u8 list \<Rightarrow> mem \<Rightarrow> terminal \<Rightarrow> terminal option" where
  "bark_loop 0 wild stack m t = Some t"
| "bark_loop (Suc n) wild stack m t =
     Option.bind (printf wild stack m (ascii ''Testing the pile\<newline>'') [] t) (bark_loop n wild stack m)"

definition bark_process :: "(u32 \<Rightarrow> u32) \<Rightarrow> u8 list \<Rightarrow> mem \<Rightarrow> terminal \<Rightarrow> sched \<Rightarrow> (terminal \<times> sched) option" where
  "bark_process wild stack m t ps = map_option (\<lambda>t'. (t', kill_current_process ps)) (bark_loop 10 wild stack m t)"

definition start_terminal ::
  "(pae \<Rightarrow> pae result) \<Rightarrow> u32 \<Rightarrow> u32 \<Rightarrow> process \<Rightarrow> u32 \<Rightarrow> u32 \<Rightarrow> u32 \<Rightarrow> terminal \<Rightarrow> sched \<Rightarrow> pae vm \<Rightarrow>
     (terminal \<times> sched \<times> pae vm) outcome" where
  "start_terminal ka p c garbage r0 r3 terminal_loop t ps s =
     bind_out (spawn ka p c garbage r0 r3 terminal_loop 0 ps s)
       (\<lambda>(q, ps', s'). map_option (\<lambda>t'. Inr (t', ps', s')) (draw_user_chars t))"

section \<open>Fields a new process leaves alone\<close>

lemma add_process_fields:
  assumes "add_process p s = Some s'"
  shows "current_process s' = current_process s" "initialized s' = initialized s" "idle_process s' = idle_process s"
  using assms by (auto simp: add_process_def upd_proc_def split: if_splits)

lemma create_process_fields:
  assumes "create_process p c garbage v sp r0 r3 function privileged ps = Some (q, ps')"
  shows "current_process ps' = current_process ps" "initialized ps' = initialized ps" "idle_process ps' = idle_process ps"
proof -
  define s1 where "s1 = ps\<lparr>next_free_pid := next_free_pid ps + 1,
      procs := (procs ps)(p := garbage\<lparr>pid := next_free_pid ps, pstatus := READY, context := c, vmm_obj := v, pnext := 0\<rparr>),
      contexts := (contexts ps)(c := null_context\<lparr>esp := sp, eflags := 0x200202, cs := 0x08, eip := function, cr0 := r0, cr2 := 0,
        cr3 := r3, ebx := 0xbeef\<rparr>), current_vmm := v\<rparr>"
  obtain s2 where s2: "(if privileged \<noteq> PRIV_NO_ADD then add_process p s1 else Some s1) = Some s2"
      "ps' = (if Scheduler.current_vmm ps \<noteq> 0 then s2\<lparr>current_vmm := Scheduler.current_vmm ps\<rparr> else s2)"
    using assms unfolding create_process_def Let_def s1_def [symmetric] by (auto simp: map_option_case split: option.splits)
  have "current_process s2 = current_process s1" "initialized s2 = initialized s1" "idle_process s2 = idle_process s1"
    using s2(1) add_process_fields [of p s1 s2] by (auto split: if_splits)
  then show "current_process ps' = current_process ps" "initialized ps' = initialized ps" "idle_process ps' = idle_process ps"
    by (simp_all add: s2(2) s1_def)
qed

lemma spawn_fields:
  assumes "spawn ka p c garbage r0 r3 function privileged ps s = Some (Inr (q, ps', t))"
  shows "current_process ps' = current_process ps" "initialized ps' = initialized ps" "idle_process ps' = idle_process ps"
proof -
  obtain a where a: "create_new_pdptes ka s = Some (Inr a)"
    using assms by (auto simp: spawn_def bind_out_Inr)
  obtain v sp s1 where e: "a = ((v, sp), s1)"
    by (metis surj_pair)
  have "Option.bind (create_process p c garbage v sp r0 r3 function privileged ps)
      (\<lambda>(q, ps'). Some (Inr (q, ps', if vm.current_vmm s \<noteq> 0 then set_current_vmm (vm.current_vmm s) s1 else s1))) =
    (Some (Inr (q, ps', t)) :: (u32 \<times> sched \<times> pae vm) outcome)"
    using assms by (cases "vm.current_vmm s = 0") (simp_all add: spawn_def a e)
  then have "create_process p c garbage v sp r0 r3 function privileged ps = Some (q, ps')"
    by (cases "create_process p c garbage v sp r0 r3 function privileged ps") (simp_all split: prod.splits)
  from create_process_fields [OF this]
  show "current_process ps' = current_process ps" "initialized ps' = initialized ps" "idle_process ps' = idle_process ps"
    by simp_all
qed

section \<open>The first tick\<close>

lemma first_tick:
  assumes ps: "process_list ps (p # xs)" and cur: "current_process ps = 0" and init: "initialized ps"
  obtains ps' where "handle_schedule st ctx ps = Some (Inr (context (procs ps p), ps'))" "current_process ps' = p"
    "pstatus (procs ps' p) = RUNNING" "contexts ps' = contexts ps" "Scheduler.current_vmm ps' = vmm_obj (procs ps p)" "process_list ps' (p # xs)"
proof -
  have head: "process_list_head ps = p" "p \<noteq> 0"
    using ps by (simp_all add: process_list_def)
  have "scan ps = Some (Inr ps)"
    using cur by (subst scan.simps) simp
  moreover define ps' where "ps' = (upd_proc p (\<lambda>x. x\<lparr>pstatus := RUNNING\<rparr>) (ps\<lparr>current_process := p\<rparr>))\<lparr>current_vmm := vmm_obj (procs ps p)\<rparr>"
  ultimately have "handle_schedule st ctx ps = Some (Inr (context (procs ps p), ps'))"
    using head cur init by (simp add: handle_schedule_def schedule_def dispatch_def Let_def)
  moreover have "process_list ps' (p # xs)"
    using ps by (auto simp: ps'_def process_list_def elim!: plist_cong)
  ultimately show thesis
    using that by (simp add: ps'_def)
qed

text \<open>
  C16. The terminal runs after the boot. With the scheduler initialised, no process in the list and a terminal that
  waits for input, \<open>start_terminal\<close> returns, and the next timer tick (the \<open>int $0x30\<close> at the end of
  \<open>kernel_main\<close>) switches to the terminal's process: it becomes the running one, its saved context has the
  instruction pointer of \<open>terminal_loop\<close> and a stack that is mapped in its own address space, which is made current; the
  terminal still waits for input with the same text.
\<close>

theorem terminal_started:
  assumes ready: "space_ready mx bas siz k limit s" and ps: "process_list ps []" "current_process ps = 0" "initialized ps"
    and p: "p \<noteq> 0" and t: "typing t xs []"
  shows "\<exists>t' ps1 s1 ps2 g. start_terminal ka p c garbage r0 r3 terminal_loop t ps s = Some (Inr (t', ps1, s1)) \<and>
    handle_schedule st ctx ps1 = Some (Inr (c, ps2)) \<and> process_list ps2 [p] \<and> current_process ps2 = p \<and>
    pstatus (procs ps2 p) = RUNNING \<and> eip (contexts ps2 c) = terminal_loop \<and> Scheduler.current_vmm ps2 = bas \<and>
    pae_walk (mach (set_current_vmm bas s1)) (esp (contexts ps2 c)) = Some g \<and> typing t' xs []"
proof -
  have "(0 :: int) \<noteq> PRIV_NO_ADD" "p \<notin> set []"
    by (simp_all add: PRIV_NO_ADD_def)
  from spawn_ok [OF ready ps(1) p this(2,1), of ka c garbage r0 r3 terminal_loop]
  obtain ps1 s1 g where 1: "spawn ka p c garbage r0 r3 terminal_loop 0 ps s = Some (Inr (p, ps1, s1))"
      "process_list ps1 [p]" "vmm_obj (procs ps1 p) = bas" "context (procs ps1 p) = c" "eip (contexts ps1 c) = terminal_loop"
      "pae_walk (mach (set_current_vmm bas s1)) (esp (contexts ps1 c)) = Some g"
    by auto
  have "current_process ps1 = 0" "initialized ps1"
    using spawn_fields [OF 1(1)] ps(2,3) by simp_all
  then obtain ps2 where 2: "handle_schedule st ctx ps1 = Some (Inr (c, ps2))" "current_process ps2 = p" "pstatus (procs ps2 p) = RUNNING"
      "contexts ps2 = contexts ps1" "Scheduler.current_vmm ps2 = bas" "process_list ps2 [p]"
    using first_tick [OF 1(2), of st ctx] 1(3,4) by metis
  obtain t' where "draw_user_chars t = Some t'" "typing t' xs []"
    using draw_user_typing [OF t] by auto
  then show ?thesis
    using 1 2 by (simp add: start_terminal_def)
qed

section \<open>A process that prints and ends\<close>

definition bark_text :: "u8 list" where
  "bark_text = ascii ''Testing the pile\<newline>''"

lemma roomy_line: "roomy t (xs @ 10 # ys) \<Longrightarrow> roomy t (xs @ [10])"
  using colors_ok_line [of xs ys] by (auto simp: roomy_def)

lemma bark_loop_prints:
  assumes "displays t xs" "roomy t (xs @ concat (replicate n bark_text))" "length stack = 64"
  shows "\<exists>t'. bark_loop n wild stack m t = Some t' \<and> displays t' (xs @ concat (replicate n bark_text)) \<and> same_line t t'"
  using assms(1,2)
proof (induction n arbitrary: t xs)
  case (Suc n)
  have e: "expand m (ascii ''Testing the pile\<newline>'') [] = Some bark_text"
    by (simp add: bark_text_def)
  have r: "roomy t (xs @ bark_text)"
    using roomy_line [of t "xs @ ascii ''Testing the pile''" "concat (replicate n bark_text)"] Suc.prems(2) by (simp add: bark_text_def)
  obtain t1 where t1: "printf wild stack m (ascii ''Testing the pile\<newline>'') [] t = Some t1" "displays t1 (xs @ bark_text)" "same_line t t1"
    using printf_shows [OF e Suc.prems(1) r assms(3)] by blast
  then have "roomy t1 ((xs @ bark_text) @ concat (replicate n bark_text))"
    using Suc.prems(2) roomy_same by simp
  from Suc.IH [OF t1(2) this] show ?case
    using t1(1) same_line_trans [OF t1(3)] by auto
qed simp


text \<open>
  C29. The system call for a process: vector 0x80 with the call number 4 appends a process for the function given to the
  process list, with a mapped stack in its own space, and acknowledges the interrupt once; any other number only
  acknowledges it.
\<close>

theorem process_call_served:
  assumes ready: "space_ready mx bas siz k limit s" and ps: "process_list ps xs" "p \<noteq> 0" "p \<notin> set xs"
    and priv: "privileged \<noteq> PRIV_NO_ADD"
  shows "(\<exists>ps' s' g. kernel_stack_fn ka lapic p c garbage r0 r3 4 function privileged ps s h = Some (Inr (ps', s', acknowledge lapic # h)) \<and>
      process_list ps' (xs @ [p]) \<and> context (procs ps' p) = c \<and> eip (contexts ps' c) = function \<and>
      current_process ps' = current_process ps \<and> pae_walk (mach (set_current_vmm bas s')) (esp (contexts ps' c)) = Some g) \<and>
    (num \<noteq> 4 \<longrightarrow> kernel_stack_fn ka lapic p c garbage r0 r3 num function privileged ps s h = Some (Inr (ps, s, acknowledge lapic # h)))"
proof -
  obtain ps' s' g where 1: "spawn ka p c garbage r0 r3 function privileged ps s = Some (Inr (p, ps', s'))"
      "process_list ps' (xs @ [p])" "context (procs ps' p) = c" "eip (contexts ps' c) = function"
      "pae_walk (mach (set_current_vmm bas s')) (esp (contexts ps' c)) = Some g"
    using spawn_ok [OF ready ps priv, of ka c garbage r0 r3 "function"] by auto
  then show ?thesis
    using spawn_fields(1) [OF 1(1)] by (simp add: kernel_stack_fn_def send_EOI_def store_reg_def acknowledge_def)
qed

section \<open>Examples\<close>

theorem terminal_started_witness:
  "\<exists>t' ps1 s1 ps2. start_terminal Inr 0x400 0x500 (demo_process DEAD 0 0) 0 0 0xC0102000
      (demo_terminal\<lparr>text_buffer := \<lambda>_. 0, textbuf_loc := 0, cur_lines := 0\<rparr>)
      (demo_sched\<lparr>process_list_head := 0, current_process := 0\<rparr>) demo_kernel = Some (Inr (t', ps1, s1)) \<and>
    handle_schedule 0 null_context ps1 = Some (Inr (0x500, ps2)) \<and> eip (contexts ps2 0x500) = 0xC0102000"
proof -
  have ty: "typing (demo_terminal\<lparr>text_buffer := \<lambda>_. 0, textbuf_loc := 0, cur_lines := 0\<rparr>) [] []"
    by (rule typing_start) (auto simp: displays_def holds_def demo_terminal_def)
  have ps: "process_list (demo_sched\<lparr>process_list_head := 0, current_process := 0\<rparr>) []"
    by (simp add: process_list_def)
  show ?thesis
    using terminal_started [OF demo_ready ps _ _ _ ty, of "0x400" Inr "0x500" "demo_process DEAD 0 0" 0 0 "0xC0102000" 0 null_context]
    by (auto simp: demo_sched_def)
qed


theorem process_call_served_witness:
  "\<exists>ps' s'. kernel_stack_fn Inr 0xFEE00000 0x400 0x500 (demo_process DEAD 0 0) 0 0 4 0xC0101000 0 demo_sched demo_kernel [] =
      Some (Inr (ps', s', [Store 0xFEE000B0 0])) \<and> process_list ps' [0x100, 0x200, 0x400]"
  using process_call_served [OF demo_ready, of demo_sched "[0x100, 0x200]" "0x400" 0 Inr "0xFEE00000" "0x500" "demo_process DEAD 0 0" 0 0 "0xC0101000" "[]" 4]
    demo_sched_list by (auto simp: PRIV_NO_ADD_def acknowledge_def)

end
