(* ===== verification/Spec2Isabelle.thy ===== *)
theory Spec2Isabelle
  imports Descriptors Terminal Arraylist Framebuffer Multiboot Ahci Pci Interrupts Process_Space Pae_Init
    Kernel_Tables Vfat Programs
begin

text \<open>
  wordOS is a hobby operating system for the i686 in C. The development models its kernel
  (\<open>src/kernel/\<close>) as HOL functions and proves what makes its parts correct. Code is translated as it is
  written, so where it is wrong the model is wrong in the same way and a theorem says so.

  \<^bold>\<open>Parts and how they interact.\<close> At boot, \<open>multiboot/mb_parse.c\<close> walks the boot loader's tags and
  \<open>kinit\<close> sets up the bitmap of physical frames. \<open>paging.c\<close> builds page tables from frames and maps
  virtual pages; \<open>vmm.c\<close> keeps the free virtual regions of an address space in the red-black tree
  of \<open>rbtree.c\<close>, carves allocations from it and maps them. The heap of \<open>heap.c\<close> takes whole pages from
  it and serves blocks to the array list, the ACPI table cache and the scheduler. Interrupts enter
  at \<open>irq_handler\<close>: the timer calls the scheduler, the keyboard interrupt fills the key queue, from
  which the terminal draws through the framebuffer. PCI enumeration finds the disk controller for
  the AHCI driver.

  \<^bold>\<open>Theories and sources.\<close>
  \<^item> \<open>Prelude\<close>: machine integers, byte memory, faults, lemmas on 32-bit address ranges.
  \<^item> \<open>Kstring\<close> is \<open>memory/string.c\<close>; \<open>Bytes\<close> has the multi-byte fields of packed structs.
  \<^item> \<open>Pmm\<close> is \<open>memory/pmm.c\<close>: the globals are the record \<open>pmm\<close>, the bitmap a function on word indices.
  \<^item> \<open>Rbtree\<close> is \<open>utils/rbtree.c\<close> on pointers (a store from addresses to \<open>rbnode\<close>); \<open>Rbtree_Shape\<close> has the
    abstract trees it represents, \<open>Rbtree_Insert\<close> the effect of the insertion loop, \<open>Rbtree_Spec\<close> the
    contract of insertion and search, \<open>Rbtree_Delete\<close> deletion.
  \<^item> \<open>Heap\<close> is \<open>memory/heap.c\<close>: the record \<open>heap\<close> holds headers by address and payload bytes.
  \<^item> \<open>Paging\<close> is \<open>memory/paging.c\<close>: two-level tables (\<open>paging\<close>) and PAE tables (\<open>pae\<close>) in physical
    frames, edited through the recursive windows, that is, by walking them.
  \<^item> \<open>Kernel_Tables\<close> is \<open>pg_init\<close> of \<open>paging.c\<close>, from the boot directory (\<open>boot_state\<close>, what \<open>bootNP.s\<close> leaves) to
    the kernel's own, and the copies of its directory.
  \<^item> \<open>Vmm\<close> is \<open>memory/vmm.c\<close>: \<open>'m vm\<close> holds the address spaces, their tree nodes and a machine \<open>'m\<close>,
    which is \<open>paging\<close> or \<open>pae\<close>. \<open>Page_Mapping\<close> joins it with the page tables: what an allocation of several
    pages does to the translation of addresses.
  \<^item> \<open>Pae_Switch\<close> is \<open>transfer_pages_to_pae\<close> and \<open>init_pae\<close> of \<open>paging.c\<close>: three-level tables built from the
    two-level ones, over the contents of the new frames (\<open>mem64\<close>); \<open>Pae_Init\<close> has what \<open>init_pae\<close> as a whole achieves.
  \<^item> \<open>Descriptors\<close> is \<open>kernel/gdt.c\<close> and the table part of \<open>kernel/idt.c\<close>; \<open>Interrupts\<close> is the rest of
    \<open>idt.c\<close> over the record \<open>kernel\<close>, which joins scheduler, keyboard and device history.
  \<^item> \<open>Scheduler\<close> is \<open>kernel/scheduler.c\<close>: processes and contexts in stores by address (\<open>sched\<close>);
    \<open>Process_Space\<close> is its \<open>create_new_pdptes\<close> and \<open>create_process\<close> as a whole.
  \<^item> \<open>Serial\<close> is the logging part of \<open>kernel/kernel.c\<close>; \<open>Devices\<close> is \<open>drivers/apic.c\<close>, \<open>timer.c\<close>, \<open>ps2.c\<close>
    and \<open>disable_pic\<close>, \<open>init_keyboard\<close>, over a history of port and register accesses.
  \<^item> \<open>Keyboard\<close> is \<open>drivers/keyboard.c\<close>; \<open>Keyboard_Queue\<close> what its ring of events promises the terminal.
  \<^item> \<open>Terminal\<close> is \<open>programs/terminal.c\<close>; drawing is the list of calls of \<open>fb_put_glyph\<close>. \<open>Terminal_Output\<close> shows what
    \<open>printf\<close> writes, \<open>Terminal_Commands\<close> how a typed command is answered. \<open>Programs\<close> has the programs that start and end
    processes (\<open>start_terminal\<close>, \<open>bark_process\<close>) and the system call for one (\<open>kernel_stack_fn\<close> of \<open>idt.c\<close>).
  \<^item> \<open>Framebuffer\<close> is \<open>drivers/framebuffer.c\<close> and the screen part of \<open>mb_parse.c\<close>; \<open>Multiboot\<close> the rest of it.
  \<^item> \<open>Arraylist\<close> is \<open>utils/arraylist.c\<close> in the bytes of the heap; \<open>Acpi\<close> is \<open>acpi/acpi.c\<close>.
  \<^item> \<open>Ahci\<close> is \<open>kernel/ahci/ahci.c\<close>; \<open>Pci\<close> is \<open>kernel/pci.c\<close>; \<open>Vfat\<close> is \<open>drivers/fs/vfat.c\<close>.

  \<^bold>\<open>Interfaces.\<close> Four locales state what one component relies on in another and are interpreted on
  the model: \<open>frame_allocator\<close> (\<open>Pmm\<close>), \<open>block_allocator\<close> (\<open>Heap\<close>), \<open>event_queue\<close> (\<open>Keyboard_Queue\<close>) and
  \<open>page_mapper\<close> (\<open>Page_Mapping\<close>), the frame source and the mapping operation that the virtual memory
  manager uses, interpreted on the two-level tables (\<open>two_level\<close>) and on the three-level ones (\<open>three_level\<close>).

  \<^bold>\<open>What the lemmas show.\<close>
  \<^item> Memory routines: effect on every address, with overlap and wrap-around.
  \<^item> Frames: least free frame, exclusiveness over any run, and the round trip to addresses.
  \<^item> Heap: the blocks tile the heap; an allocation is fresh, disjoint and large enough, a release merges,
    a resize moves the contents. Without room for a header the code's blocks overlap; a theorem says so.
  \<^item> Region tree: insertion refines insertion into a sorted sequence and keeps the red-black
    invariants, the search is a best fit, deletion of a red leaf removes it. Other deletions fault
    or lose regions, which is stated as such.
  \<^item> Paging and allocation: mapping a page makes the walk reach the frame and changes no other page; an
    allocation cuts its pages from the best region and maps each of them to a frame of its own.
  \<^item> Process creation: the new process joins the list, its stack is mapped in its space and translations
    of the kernel are kept; a frame of the space is handed out twice, which a theorem states.
  \<^item> Switch to three levels: of each 4 MiB table the lower half is translated as before, the upper half not at all;
    the pages of the running code are translated to themselves by both structures.
  \<^item> Scheduler: list operations refine list functions, every ready process is run within one round.
  \<^item> Keyboard and terminal: the ring is a queue up to 19 events, the shift state follows the keys,
    scrolling drops the first line, what \<open>printf\<close> appends is what its format means, every typed command is answered.
  \<^item> Programs: after the boot the first tick runs the terminal; a started process is listed, runs and is removed.
  \<^item> Drivers: command encoding, table walks, bounded waits, glyph pixels, descriptor round trips.
  \<^item> This theory: the path of a key from the interrupt to the queue.

  \<^bold>\<open>Partiality and bounds.\<close> A loop that may not end is a \<open>partial_function\<close> to \<open>option\<close>; \<open>None\<close> is not
  returning, and theorems show \<open>Some\<close> where the code returns. Page faults and panics are \<open>Inl\<close> values of
  the type \<open>result\<close>. Loops with a decreasing counter are \<open>function\<close>s with a measure
  (\<open>scan_word\<close>, \<open>probe_loop\<close>, \<open>prdt_loop\<close>, \<open>digit_loop\<close>, \<open>logf\<close>). Waits the source bounds keep their bound
  (3201 reads of the PS/2 status, 10 million of the disk's). The key ring has 20 places, so 19 pending
  events; \<open>build_command\<close> has room for 8 descriptors. No fuel was added to a loop of the source.

  \<^bold>\<open>Parameters.\<close> Hardware is never invented: the disk (\<open>hw\<close>), devices (\<open>device\<close>, a function of the access
  history), what lies past an array (\<open>beyond\<close>), the PCI configuration space (\<open>cfg\<close>), the processor's
  treatment of oversized shifts (\<open>shl\<close>) and the moment an interrupt fires (\<open>fires\<close>) are arguments.

  \<^bold>\<open>Not modelled.\<close> Assembly: the mode switch at the end of \<open>init_pae\<close>, the loading of CR3 and CR0, \<open>triple_fault\<close>,
  the registers \<open>kernel_stack_fn\<close> reads (arguments of the model), loading of descriptor tables, \<open>asm_tools.c\<close>. The boot sequence
  \<open>kernel_main\<close> only calls the parts in turn. \<open>vmm_transfer_dynamic\<close> and \<open>transfer_dynamic\<close> contain a stray
  \<open>$4\<close> that no C compiler accepts. The FAT driver's \<open>open\<close>, \<open>close\<close> and \<open>read\<close> are empty. Log calls are left out where they
  change no state. The effects of stale translations are not modelled: an access walks the tables as they are.
\<close>

section \<open>From the interrupt to the terminal\<close>

text \<open>
  C8. Keystrokes reach the terminal's queue: in any sequence of interrupts without a scheduling tick, with
  at most 19 events pending at the end, the queue holds what was pending before followed by one event
  for each keyboard interrupt, in their order, whatever other interrupts come between them; each
  interrupt returns to the context it interrupted, is acknowledged exactly once at the local
  controller, and leaves the process list alone.
\<close>

theorem keystrokes_reach_queue:
  assumes "\<forall>i \<in> set is. isr_no (fst (snd i)) \<noteq> 0x30" and "keyboard_ok (keys k)"
    and "length (pending (keys k)) + length (key_ports is) \<le> 19"
  shows "\<exists>k'. irq_run beyond lapic is k = Some (Inr k') \<and> keyboard_ok (keys k') \<and>
    pending (keys k') = pending (keys k) @ burst (handle_keychange beyond) (key_event_of beyond) (key_ports is) (keys k) \<and>
    tasks k' = tasks k \<and> accesses k' = replicate (length is) (acknowledge lapic) @ accesses k"
  using irq_run_ok [OF assms(1)] ring.burst_arrives [OF assms(2,3)] by metis

theorem keystrokes_reach_queue_witness:
  "\<forall>ts c e t. \<exists>k'.
     irq_run (\<lambda>_. 0) 0xFEE00000 [(0x100, demo_ctx 0x32, \<lambda>_. 0x1E), (0x200, demo_ctx 0x33, \<lambda>_. 0), (0x300, demo_ctx 0x32, \<lambda>_. 0x9E)]
       \<lparr>tasks = ts, keys = demo_keyboard, calibrating = c, kesp = e, accesses = t\<rparr> = Some (Inr k') \<and>
     map code (pending (keys k')) = [key_lookup ! 0x1E, key_lookup ! 0x1E] \<and> tasks k' = ts \<and>
     accesses k' = [Store 0xFEE000B0 0, Store 0xFEE000B0 0, Store 0xFEE000B0 0] @ t"
proof (intro allI)
  fix ts c e t
  let ?is = "[(0x100, demo_ctx 0x32, \<lambda>_. 0x1E), (0x200, demo_ctx 0x33, \<lambda>_. 0), (0x300, demo_ctx 0x32, \<lambda>_. 0x9E)]"
  let ?k = "\<lparr>tasks = ts, keys = demo_keyboard, calibrating = c, kesp = e, accesses = t\<rparr>"
  have ok: "keyboard_ok (keys ?k)" "pending (keys ?k) = []"
    by (simp_all add: keyboard_ok_def pending_def pending_count_def demo_keyboard_def MAX_KEY_BUFFER_SIZE_def)
  have ports: "key_ports ?is = [\<lambda>_. 0x1E, \<lambda>_. 0x9E]"
    by (simp add: key_ports_def demo_ctx_def)
  have num: "\<forall>i \<in> set ?is. isr_no (fst (snd i)) \<noteq> 0x30"
    by (simp add: demo_ctx_def)
  have replicate_three: "replicate (length ?is) x = [x, x, x]" for x :: io_event
    by (simp add: numeral_3_eq_3)
  have events: "map code (burst (handle_keychange (\<lambda>_. 0)) (key_event_of (\<lambda>_. 0)) [\<lambda>_. 0x1E, \<lambda>_. 0x9E] demo_keyboard) =
      [key_lookup ! 0x1E, key_lookup ! 0x1E]"
    by code_simp
  show "\<exists>k'. irq_run (\<lambda>_. 0) 0xFEE00000 ?is ?k = Some (Inr k') \<and>
     map code (pending (keys k')) = [key_lookup ! 0x1E, key_lookup ! 0x1E] \<and> tasks k' = ts \<and>
     accesses k' = [Store 0xFEE000B0 0, Store 0xFEE000B0 0, Store 0xFEE000B0 0] @ t"
    using keystrokes_reach_queue [of ?is ?k "\<lambda>_. 0" "0xFEE00000"] num ok events
    unfolding ports ok(2) kernel.simps acknowledge_def replicate_three by auto
qed

end
